(* ===== verification/Prelude.thy ===== *)
theory Prelude
  imports Main "HOL-Library.Word" "HOL-Library.List_Lexorder" "HOL-Library.Sublist"
begin

unbundle bit_operations_syntax

text \<open>
  Shared material of the development: the names of the byte and word types the
  engine's code is written in, the order on byte strings, the fact collections
  the component theories feed, and the list lemmas several of them need.

  A \<open>std::string\<close> or \<open>std::string_view\<close> is a list of bytes. The library order
  on lists (imported from List\_Lexorder) over the unsigned order on bytes is the
  order of \<open>std::char_traits<char>\<close>, so \<open><\<close> on byte strings here is \<open><\<close> on
  strings there.
\<close>

section \<open>Types\<close>

type_synonym byte = "8 word"
type_synonym bytes = "8 word list"
type_synonym u32 = "32 word"
type_synonym u64 = "64 word"

section \<open>Fact collections\<close>

text \<open>
  \<open>codec\<close> collects the equations that decode what an encoder produced;
  \<open>len\<close> the lengths of encoded objects; \<open>key_order\<close> the facts that turn the
  code's three-way comparisons into the orders used in the proofs.
\<close>

named_theorems codec
named_theorems len
named_theorems key_order

section \<open>Three-way comparison\<close>

text \<open>
  \<open>std::string_view::compare\<close>: negative, zero or positive. Only the sign is
  specified by the language and only the sign is used by the code.
\<close>

definition sv_compare :: "bytes \<Rightarrow> bytes \<Rightarrow> int" where
  "sv_compare a b = (if a < b then - 1 else if b < a then 1 else 0)"

lemma sv_compare_less [key_order]: "sv_compare a b < 0 \<longleftrightarrow> a < b"
  by (auto simp: sv_compare_def)

lemma sv_compare_greater [key_order]: "0 < sv_compare a b \<longleftrightarrow> b < a"
  by (auto simp: sv_compare_def)

lemma sv_compare_zero [key_order]: "sv_compare a b = 0 \<longleftrightarrow> a = b"
  by (auto simp: sv_compare_def)

section \<open>Words\<close>

lemma word_shift_split:
  "take_bit n v OR push_bit n (drop_bit n v) = (v :: 'a::len word)"
  by (rule bit_word_eqI) (auto simp: bit_simps, metis le_add_diff_inverse not_less)

lemma bit_lowest_byte_of_word:
  "bit (ucast (ucast w :: byte) :: 'a::len word) n \<longleftrightarrow> n < 8 \<and> bit (w :: 'a word) n"
  by (auto simp: bit_simps dest: bit_imp_le_length)

lemma bit_byte_of_word:
  "bit (push_bit k (ucast (ucast (drop_bit k w) :: byte)) :: 'a::len word) n \<longleftrightarrow>
     k \<le> n \<and> n < k + 8 \<and> bit (w :: 'a word) n"
  by (auto simp: bit_simps dest: bit_imp_le_length)

lemma unat_of_nat_small:
  "n < 2 ^ LENGTH('a) \<Longrightarrow> unat (of_nat n :: 'a::len word) = n"
  by (simp add: unat_of_nat take_bit_nat_eq_self)

section \<open>Lists\<close>

lemma take_length_append [simp]: "take (length xs) (xs @ ys) = xs"
  by simp

lemma drop_length_append [simp]: "drop (length xs) (xs @ ys) = ys"
  by simp

lemma sorted_wrt_snoc:
  "sorted_wrt P (xs @ [x]) \<longleftrightarrow> sorted_wrt P xs \<and> (\<forall>y \<in> set xs. P y x)"
  by (simp add: sorted_wrt_append)

section \<open>Binary search\<close>

text \<open>
  The loop \<open>while (lo < hi) { mid = lo + (hi - lo) / 2; \<dots> }\<close> that the code uses to
  find the first index at which \<open>below\<close> fails, and what \<open>std::lower_bound\<close> returns.
\<close>

function bisect :: "(nat \<Rightarrow> bool) \<Rightarrow> nat \<Rightarrow> nat \<Rightarrow> nat" where
  "bisect below lo hi =
     (if lo < hi then
        (let mid = lo + (hi - lo) div 2 in
         if below mid then bisect below (mid + 1) hi else bisect below lo mid)
      else lo)"
  by pat_completeness auto
termination
  by (relation "measure (\<lambda>(below, lo, hi). hi - lo)") auto

declare bisect.simps [simp del]

lemma bisect_between:
  assumes "lo \<le> hi" "hi \<le> n" "\<forall>i j. i \<le> j \<longrightarrow> j < n \<longrightarrow> below j \<longrightarrow> below i"
    "\<forall>i < lo. below i" "\<forall>i. hi \<le> i \<longrightarrow> i < n \<longrightarrow> \<not> below i"
  shows "bisect below lo hi \<le> n \<and> (\<forall>i < bisect below lo hi. below i) \<and>
    (\<forall>i. bisect below lo hi \<le> i \<longrightarrow> i < n \<longrightarrow> \<not> below i)"
  using assms
proof (induction below lo hi rule: bisect.induct)
  case (1 below lo hi)
  show ?case
  proof (cases "lo < hi")
    case False
    then have "bisect below lo hi = lo" by (subst bisect.simps) simp
    then show ?thesis using "1.prems" False by simp
  next
    case True
    define mid where "mid = lo + (hi - lo) div 2"
    have mid: "lo \<le> mid" "mid < hi" "mid < n" using True "1.prems"(2) by (auto simp: mid_def)
    show ?thesis
    proof (cases "below mid")
      case b: True
      have eq: "bisect below lo hi = bisect below (mid + 1) hi"
        using True b by (simp add: bisect.simps [of below lo hi] mid_def Let_def)
      have "mid + 1 \<le> hi" using mid by simp
      moreover have "\<forall>i < mid + 1. below i" using "1.prems"(3) b mid(3) by (metis less_Suc_eq_le Suc_eq_plus1)
      ultimately show ?thesis unfolding eq by (rule "1.IH"(1) [OF True mid_def b _ "1.prems"(2,3) _ "1.prems"(5)])
    next
      case b: False
      have eq: "bisect below lo hi = bisect below lo mid"
        using True b by (simp add: bisect.simps [of below lo hi] mid_def Let_def)
      have "mid \<le> n" using mid by simp
      moreover have "\<forall>i. mid \<le> i \<longrightarrow> i < n \<longrightarrow> \<not> below i" using "1.prems"(3) b by blast
      ultimately show ?thesis unfolding eq by (rule "1.IH"(2) [OF True mid_def b mid(1) _ "1.prems"(3,4)])
    qed
  qed
qed

lemma bisect_spec:
  assumes "\<forall>i j. i \<le> j \<longrightarrow> j < n \<longrightarrow> below j \<longrightarrow> below i"
  shows "bisect below 0 n \<le> n \<and> (\<forall>i < bisect below 0 n. below i) \<and>
    (\<forall>i. bisect below 0 n \<le> i \<longrightarrow> i < n \<longrightarrow> \<not> below i)"
  by (rule bisect_between) (use assms in auto)

section \<open>Options\<close>

lemma option_ext: "(\<And>v. a = Some v \<longleftrightarrow> b = Some v) \<Longrightarrow> a = b"
  by (metis option.exhaust)

end
