(* ===== verification/Coding.thy ===== *)
theory Coding
  imports Prelude
begin

text \<open>
  \<open>include/lsm/coding.h\<close>: fixed-width little-endian integers, length-prefixed
  strings and 32-bit varints. An encoder takes the destination string and
  returns it extended; a decoder takes the bytes from its read pointer to the
  limit and returns what is left of them. The fixed-width decoders read through
  a bare pointer, so they are meaningful only where the caller has checked that
  enough bytes are there, as every caller in the code does first.
\<close>

section \<open>Definitions\<close>

subsection \<open>Fixed-width integers\<close>

definition fixed32 :: "u32 \<Rightarrow> bytes" where
  "fixed32 v = [ucast v, ucast (drop_bit 8 v), ucast (drop_bit 16 v), ucast (drop_bit 24 v)]"

definition fixed64 :: "u64 \<Rightarrow> bytes" where
  "fixed64 v =
     [ucast v, ucast (drop_bit 8 v), ucast (drop_bit 16 v), ucast (drop_bit 24 v),
      ucast (drop_bit 32 v), ucast (drop_bit 40 v), ucast (drop_bit 48 v),
      ucast (drop_bit 56 v)]"

definition PutFixed32 :: "bytes \<Rightarrow> u32 \<Rightarrow> bytes" where
  "PutFixed32 dst value = dst @ fixed32 value"

definition PutFixed64 :: "bytes \<Rightarrow> u64 \<Rightarrow> bytes" where
  "PutFixed64 dst value = dst @ fixed64 value"

definition DecodeFixed32 :: "bytes \<Rightarrow> u32" where
  "DecodeFixed32 p =
     ucast (p ! 0) OR push_bit 8 (ucast (p ! 1)) OR push_bit 16 (ucast (p ! 2)) OR
     push_bit 24 (ucast (p ! 3))"

definition DecodeFixed64 :: "bytes \<Rightarrow> u64" where
  "DecodeFixed64 p =
     ucast (p ! 0) OR push_bit 8 (ucast (p ! 1)) OR push_bit 16 (ucast (p ! 2)) OR
     push_bit 24 (ucast (p ! 3)) OR push_bit 32 (ucast (p ! 4)) OR
     push_bit 40 (ucast (p ! 5)) OR push_bit 48 (ucast (p ! 6)) OR
     push_bit 56 (ucast (p ! 7))"

subsection \<open>Length-prefixed strings\<close>

definition PutLengthPrefixed :: "bytes \<Rightarrow> bytes \<Rightarrow> bytes" where
  "PutLengthPrefixed dst value = PutFixed32 dst (of_nat (length value)) @ value"

text \<open>\<open>None\<close> is the result false, which leaves the input untouched.\<close>

definition GetLengthPrefixed :: "bytes \<Rightarrow> (bytes \<times> bytes) option" where
  "GetLengthPrefixed input =
     (if length input < 4 then None
      else let len = unat (DecodeFixed32 input) in
        if length input < 4 + len then None
        else Some (take len (drop 4 input), drop (4 + len) input))"

subsection \<open>Varints\<close>

function PutVarint32 :: "bytes \<Rightarrow> u32 \<Rightarrow> bytes" where
  "PutVarint32 dst value =
     (if 0x80 \<le> value then PutVarint32 (dst @ [ucast (value OR 0x80)]) (drop_bit 7 value)
      else dst @ [ucast value])"
  by pat_completeness auto
termination
proof (relation "measure (\<lambda>(dst, value). unat value)", simp)
  fix dst :: bytes and v :: u32
  assume "0x80 \<le> v"
  then have "128 \<le> unat v" by (simp add: word_le_nat_alt)
  then have "unat v div 128 < unat v" by simp
  then show "((dst @ [ucast (v OR 0x80)], drop_bit 7 v), dst, v)
      \<in> measure (\<lambda>(dst, value). unat value)"
    by (simp add: drop_bit_eq_div unat_div)
qed

declare PutVarint32.simps [simp del]

text \<open>
  The loop over \<open>shift = 0, 7, \<dots>, 28\<close>. The second component of a result is the
  input from the returned pointer on; \<open>None\<close> is the null pointer.
\<close>

function GetVarint32Loop :: "nat \<Rightarrow> u32 \<Rightarrow> bytes \<Rightarrow> (u32 \<times> bytes) option" where
  "GetVarint32Loop shift result p =
     (if shift \<le> 28 \<and> p \<noteq> [] then
        (let byte = (ucast (hd p) :: u32) in
         if byte AND 0x80 \<noteq> 0
         then GetVarint32Loop (shift + 7) (result OR push_bit shift (byte AND 0x7f)) (tl p)
         else Some (result OR push_bit shift byte, tl p))
      else None)"
  by pat_completeness auto
termination
  by (relation "measure (\<lambda>(shift, result, p). length p)") auto

declare GetVarint32Loop.simps [simp del]

definition GetVarint32Ptr :: "bytes \<Rightarrow> (u32 \<times> bytes) option" where
  "GetVarint32Ptr p = GetVarint32Loop 0 0 p"

section \<open>Fixed-width round trips\<close>

lemma length_fixed32 [simp, len]: "length (fixed32 v) = 4"
  by (simp add: fixed32_def)

lemma length_fixed64 [simp, len]: "length (fixed64 v) = 8"
  by (simp add: fixed64_def)

lemma fixed32_not_Nil [simp]: "fixed32 v \<noteq> []" "fixed64 w \<noteq> []"
  by (simp_all add: fixed32_def fixed64_def)

lemma DecodeFixed32_append [simp, codec]: "DecodeFixed32 (fixed32 v @ rest) = v"
proof (rule bit_word_eqI)
  fix n assume "n < LENGTH(32)"
  then have n: "n < 32" by simp
  show "bit (DecodeFixed32 (fixed32 v @ rest)) n = bit v n"
    unfolding DecodeFixed32_def fixed32_def
    using n by (auto simp: bit_or_iff bit_byte_of_word bit_lowest_byte_of_word)
qed

lemma DecodeFixed64_append [simp, codec]: "DecodeFixed64 (fixed64 v @ rest) = v"
proof (rule bit_word_eqI)
  fix n assume "n < LENGTH(64)"
  then have n: "n < 64" by simp
  show "bit (DecodeFixed64 (fixed64 v @ rest)) n = bit v n"
    unfolding DecodeFixed64_def fixed64_def
    using n by (auto simp: bit_or_iff bit_byte_of_word bit_lowest_byte_of_word)
qed


lemma bit_put_byte:
  "bit (push_bit k (ucast (b :: byte)) :: 'a::len word) n \<longleftrightarrow>
     k \<le> n \<and> n < k + 8 \<and> n < LENGTH('a) \<and> bit b (n - k)"
  by (auto simp: bit_simps dest: bit_imp_le_length)

lemma bit_put_lowest_byte:
  "bit (ucast (b :: byte) :: 'a::len word) n \<longleftrightarrow> n < 8 \<and> n < LENGTH('a) \<and> bit b n"
  by (auto simp: bit_simps dest: bit_imp_le_length)

lemma DecodeFixed_exact [simp, codec]: "DecodeFixed32 (fixed32 v) = v" "DecodeFixed64 (fixed64 w) = w"
  using DecodeFixed32_append [of v "[]"] DecodeFixed64_append [of w "[]"] by simp_all

lemma fixed32_Decode:
  assumes "length p = 4"
  shows "fixed32 (DecodeFixed32 p) = p"
proof -
  obtain b0 b1 b2 b3 where p: "p = [b0, b1, b2, b3]"
    using assms by (auto simp: length_Suc_conv numeral_eq_Suc)
  show ?thesis
    unfolding p fixed32_def DecodeFixed32_def
    by (intro arg_cong2 [where f = Cons] bit_word_eqI refl)
      (auto simp: bit_ucast_iff bit_drop_bit_eq bit_or_iff bit_put_byte bit_put_lowest_byte
        dest: bit_imp_le_length)
qed

lemma fixed64_Decode:
  assumes "length p = 8"
  shows "fixed64 (DecodeFixed64 p) = p"
proof -
  obtain b0 b1 b2 b3 b4 b5 b6 b7 where p: "p = [b0, b1, b2, b3, b4, b5, b6, b7]"
    using assms by (auto simp: length_Suc_conv numeral_eq_Suc)
  show ?thesis
    unfolding p fixed64_def DecodeFixed64_def
    by (intro arg_cong2 [where f = Cons] bit_word_eqI refl)
      (auto simp: bit_ucast_iff bit_drop_bit_eq bit_or_iff bit_put_byte bit_put_lowest_byte
        dest: bit_imp_le_length)
qed

lemma DecodeFixed_take:
  "DecodeFixed32 (take 4 p) = DecodeFixed32 p" "DecodeFixed64 (take 8 p) = DecodeFixed64 p"
  by (simp_all add: DecodeFixed32_def DecodeFixed64_def)

lemma PutFixed_append:
  "PutFixed32 dst v = dst @ PutFixed32 [] v" "PutFixed64 dst w = dst @ PutFixed64 [] w"
  by (simp_all add: PutFixed32_def PutFixed64_def)

lemma length_PutFixed [simp, len]:
  "length (PutFixed32 dst v) = length dst + 4" "length (PutFixed64 dst w) = length dst + 8"
  by (simp_all add: PutFixed32_def PutFixed64_def)

section \<open>Length-prefixed round trip\<close>

lemma PutLengthPrefixed_append:
  "PutLengthPrefixed dst s = dst @ fixed32 (of_nat (length s)) @ s"
  by (simp add: PutLengthPrefixed_def PutFixed32_def)

lemma length_PutLengthPrefixed [simp, len]:
  "length (PutLengthPrefixed dst s) = length dst + 4 + length s"
  by (simp add: PutLengthPrefixed_append)

lemma GetLengthPrefixed_Put [simp, codec]:
  assumes "length s < 2 ^ 32"
  shows "GetLengthPrefixed (fixed32 (of_nat (length s)) @ s @ rest) = Some (s, rest)"
  using assms by (simp add: GetLengthPrefixed_def unat_of_nat_small)

lemma GetLengthPrefixed_SomeD:
  "GetLengthPrefixed input = Some (s, rest) \<Longrightarrow> length input = 4 + length s + length rest"
  by (auto simp: GetLengthPrefixed_def Let_def split: if_splits)

section \<open>Varint round trip\<close>

lemma varint_shrinks: "(0x80 :: u32) \<le> v \<Longrightarrow> unat (drop_bit 7 v) < unat v"
  by (simp add: drop_bit_eq_div unat_div word_le_nat_alt)

lemma PutVarint32_append: "PutVarint32 dst v = dst @ PutVarint32 [] v"
proof (induction "unat v" arbitrary: dst v rule: less_induct)
  case less
  show ?case
  proof (cases "0x80 \<le> v")
    case True
    note IH = less [OF varint_shrinks [OF True]]
    show ?thesis
      using IH [of "dst @ [ucast (v OR 0x80)]"] IH [of "[ucast (v OR 0x80)]"]
      by (simp add: PutVarint32.simps [of _ v] True)
  next
    case False
    then show ?thesis by (simp add: PutVarint32.simps [of _ v])
  qed
qed

lemma PutVarint32_small: "\<not> 0x80 \<le> v \<Longrightarrow> PutVarint32 [] v = [ucast v]"
  by (simp add: PutVarint32.simps [of _ v])

lemma PutVarint32_big:
  "0x80 \<le> v \<Longrightarrow> PutVarint32 [] v = ucast (v OR 0x80) # PutVarint32 [] (drop_bit 7 v)"
  using PutVarint32_append [of "[ucast (v OR 0x80)]" "drop_bit 7 v"]
  by (simp add: PutVarint32.simps [of _ v])

lemma PutVarint32_not_Nil [simp]: "PutVarint32 dst v \<noteq> []"
  by (cases "0x80 \<le> v") (simp_all add: PutVarint32_append [of dst v] PutVarint32_big PutVarint32_small)

lemma bit_0x80: "bit (0x80 :: u32) n \<longleftrightarrow> n = 7"
  using bit_exp_iff [where ?'a = u32, of 7 n] by (auto simp: possible_bit_def)

lemma bit_0x7f: "bit (0x7f :: u32) n \<longleftrightarrow> n < 7"
  using bit_mask_iff [where ?'a = u32, of 7 n] by (auto simp: mask_eq_exp_minus_1 possible_bit_def)

lemma varint_byte_more: "(ucast (ucast (v OR 0x80) :: byte) :: u32) AND 0x80 \<noteq> 0"
  for v :: u32
proof -
  have "bit ((ucast (ucast (v OR 0x80) :: byte) :: u32) AND 0x80) 7"
    by (simp add: bit_simps bit_0x80)
  then show ?thesis by (metis bit_0_eq bot_apply bot_bool_def)
qed

lemma varint_byte_payload:
  "(ucast (ucast (v OR 0x80) :: byte) :: u32) AND 0x7f = take_bit 7 v" for v :: u32
  by (rule bit_word_eqI)
    (auto simp only: bit_and_iff bit_take_bit_iff bit_or_iff bit_lowest_byte_of_word bit_0x80 bit_0x7f)

lemma varint_byte_last:
  fixes v :: u32
  assumes "\<not> 0x80 \<le> v"
  shows "(ucast (ucast v :: byte) :: u32) = v" and "v AND 0x80 = 0"
proof -
  from assms have "unat v < 2 ^ 7" by (simp add: word_le_nat_alt)
  then have t: "take_bit 7 v = v"
    by (metis take_bit_nat_eq_self unsigned_take_bit_eq word_unat_eq_iff)
  then have b: "bit v n \<Longrightarrow> n < 7" for n
    by (metis bit_take_bit_iff)
  show "(ucast (ucast v :: byte) :: u32) = v"
    by (rule bit_word_eqI) (auto simp: bit_simps dest: b)
  show "v AND 0x80 = 0"
  proof (rule bit_word_eqI)
    fix n show "bit (v AND 0x80) n = bit 0 n"
      using b [of n] by (simp only: bit_and_iff bit_0x80) auto
  qed
qed

lemma varint_glue:
  "push_bit s (take_bit 7 v) OR push_bit (s + 7) (drop_bit 7 v) = push_bit s (v :: u32)"
proof -
  have "push_bit s (take_bit 7 v OR push_bit 7 (drop_bit 7 v)) = push_bit s v"
    by (simp add: word_shift_split)
  then show ?thesis by (simp add: push_bit_or add.commute)
qed

lemma GetVarint32Loop_Put:
  assumes "7 dvd shift" "shift \<le> 28" "unat v < 2 ^ (32 - shift)"
  shows "GetVarint32Loop shift result (PutVarint32 [] v @ rest) =
      Some (result OR push_bit shift v, rest)"
  using assms
proof (induction "unat v" arbitrary: shift result v rule: less_induct)
  case less
  show ?case
  proof (cases "0x80 \<le> v")
    case False
    then show ?thesis using less.prems
      by (simp add: PutVarint32_small GetVarint32Loop.simps [of shift] varint_byte_last [OF False])
  next
    case True
    have "2 ^ 7 \<le> unat v" using True by (simp add: word_le_nat_alt)
    then have "(2 :: nat) ^ 7 < 2 ^ (32 - shift)" using less.prems(3) by (rule le_less_trans)
    then have s7: "7 < 32 - shift" by (metis nat_power_less_imp_less zero_less_numeral)
    then have s: "shift + 7 \<le> 28" using less.prems(1) by presburger
    have "32 - shift = 32 - (shift + 7) + 7" using s7 by simp
    then have "2 ^ (32 - shift) = (2 :: nat) ^ (32 - (shift + 7)) * 2 ^ 7"
      by (simp only: power_add)
    with less.prems(3) have lt: "unat (drop_bit 7 v) < 2 ^ (32 - (shift + 7))"
      by (simp add: drop_bit_eq_div unat_div less_mult_imp_div_less)
    have "GetVarint32Loop (shift + 7) (result OR push_bit shift (take_bit 7 v))
        (PutVarint32 [] (drop_bit 7 v) @ rest) =
        Some ((result OR push_bit shift (take_bit 7 v)) OR push_bit (shift + 7) (drop_bit 7 v), rest)"
      using less.hyps [OF varint_shrinks [OF True]] less.prems(1) s lt by simp
    then show ?thesis using s
      by (simp add: PutVarint32_big [OF True] GetVarint32Loop.simps [of shift] varint_byte_more
          varint_byte_payload or.assoc varint_glue)
  qed
qed

lemma GetVarint32Ptr_Put [simp, codec]:
  "GetVarint32Ptr (PutVarint32 [] v @ rest) = Some (v, rest)"
proof -
  have "unat v < 2 ^ (32 - 0)" using unsigned_less [of v] by simp
  then show ?thesis using GetVarint32Loop_Put [of 0 v 0 rest] by (simp add: GetVarint32Ptr_def)
qed

lemma GetVarint32Loop_SomeD:
  "GetVarint32Loop shift result p = Some (v, rest) \<Longrightarrow>
     \<exists>used. p = used @ rest \<and> used \<noteq> [] \<and> shift + 7 * length used \<le> 35"
proof (induction shift result p rule: GetVarint32Loop.induct)
  case (1 shift result p)
  show ?case
  proof (cases "shift \<le> 28 \<and> p \<noteq> [] \<and> (ucast (hd p) :: u32) AND 0x80 \<noteq> 0")
    case True
    with "1.prems" have "GetVarint32Loop (shift + 7)
        (result OR push_bit shift (ucast (hd p) AND 0x7f)) (tl p) = Some (v, rest)"
      by (simp add: GetVarint32Loop.simps [of shift])
    with "1.IH" True obtain used where
      "tl p = used @ rest" "used \<noteq> []" "shift + 7 + 7 * length used \<le> 35" by auto
    with True show ?thesis by (intro exI [of _ "hd p # used"]) (auto simp: neq_Nil_conv)
  next
    case False
    with "1.prems" show ?thesis
      by (intro exI [of _ "[hd p]"])
        (auto simp: GetVarint32Loop.simps [of shift] Let_def neq_Nil_conv split: if_splits)
  qed
qed


lemma length_varint_le: "length (PutVarint32 [] v) \<le> 5"
proof -
  have "GetVarint32Loop 0 0 (PutVarint32 [] v @ []) = Some (v, [])"
    using GetVarint32Ptr_Put [of v "[]"] by (simp only: GetVarint32Ptr_def)
  then obtain used where "PutVarint32 [] v @ [] = used @ []" "used \<noteq> []" "0 + 7 * length used \<le> 35"
    using GetVarint32Loop_SomeD by blast
  then show ?thesis by simp
qed

section \<open>Properties\<close>

text \<open>C7. Every 32-bit value written as a varint in front of other bytes is read back exactly,
  with the read pointer on the first byte after it, and takes between one and five
  bytes.\<close>

theorem varint32_round_trip:
  "GetVarint32Ptr (PutVarint32 [] v @ rest) = Some (v, rest) \<and>
   1 \<le> length (PutVarint32 [] v) \<and> length (PutVarint32 [] v) \<le> 5"
  using length_varint_le [of v] by (simp add: Suc_le_eq)

text \<open>C8. Every string shorter than \<open>2 ^ 32\<close> bytes written with a length prefix in front of other
  bytes is read back exactly, and the input is consumed up to its end.\<close>

theorem length_prefixed_round_trip:
  assumes "length s < 2 ^ 32"
  shows "GetLengthPrefixed (PutLengthPrefixed [] s @ rest) = Some (s, rest)"
  using assms by (simp add: PutLengthPrefixed_append)

theorem length_prefixed_round_trip_witness:
  "length [1, 2, 3 :: byte] < 2 ^ 32 \<and>
   GetLengthPrefixed (PutLengthPrefixed [] [1, 2, 3] @ [9]) = Some ([1, 2, 3], [9])"
  using length_prefixed_round_trip [of "[1, 2, 3]" "[9]"] by simp

end
