(* ===== verification/Crc32c.thy ===== *)
theory Crc32c
  imports Coding
begin

text \<open>
  \<open>src/crc32c.cpp\<close>: the CRC-32C of every log record, block and manifest. The
  slicing-by-8 implementation is modelled with its tables; the reference it is
  proved equal to shifts one bit at a time. The hardware path calls compiler
  intrinsics, which are parameters here; what the code relies on is the contract
  of the locale \<open>crc32c_hardware\<close>.
\<close>

section \<open>Definitions\<close>

definition kPoly :: u32 where "kPoly = 0x82f63b78"

text \<open>The body of the inner loop of \<open>MakeTables\<close>: one bit.\<close>

definition crc_bit :: "u32 \<Rightarrow> u32" where
  "crc_bit crc = (if crc AND 1 \<noteq> 0 then drop_bit 1 crc XOR kPoly else drop_bit 1 crc)"

text \<open>
  \<open>MakeTables\<close>: entry \<open>i\<close> of table \<open>k\<close>. The indices the code uses are masked to
  a byte, so they are in range of its 256-entry arrays.
\<close>

fun MakeTables :: "nat \<Rightarrow> u32 \<Rightarrow> u32" where
  "MakeTables 0 i = (crc_bit ^^ 8) i"
| "MakeTables (Suc k) i =
     (let previous = MakeTables k i in
      drop_bit 8 previous XOR MakeTables 0 (previous AND 0xff))"

text \<open>The loop that consumes eight bytes per iteration, then the byte loop.\<close>

fun ExtendTail :: "u32 \<Rightarrow> bytes \<Rightarrow> u32" where
  "ExtendTail c [] = c"
| "ExtendTail c (b # p) =
     ExtendTail (MakeTables 0 ((c XOR ucast b) AND 0xff) XOR drop_bit 8 c) p"

definition ExtendBlock :: "u32 \<Rightarrow> bytes \<Rightarrow> u32" where
  "ExtendBlock c p =
     (let c = c XOR DecodeFixed32 p; high = DecodeFixed32 (drop 4 p) in
      MakeTables 7 (c AND 0xff) XOR MakeTables 6 (drop_bit 8 c AND 0xff) XOR
      MakeTables 5 (drop_bit 16 c AND 0xff) XOR MakeTables 4 (drop_bit 24 c AND 0xff) XOR
      MakeTables 3 (high AND 0xff) XOR MakeTables 2 (drop_bit 8 high AND 0xff) XOR
      MakeTables 1 (drop_bit 16 high AND 0xff) XOR MakeTables 0 (drop_bit 24 high AND 0xff))"

function ExtendLoop :: "u32 \<Rightarrow> bytes \<Rightarrow> u32" where
  "ExtendLoop c p =
     (if 8 \<le> length p then ExtendLoop (ExtendBlock c p) (drop 8 p) else ExtendTail c p)"
  by pat_completeness auto
termination
  by (relation "measure (\<lambda>(c, p). length p)") auto

declare ExtendLoop.simps [simp del]

definition ExtendSoftware :: "u32 \<Rightarrow> bytes \<Rightarrow> u32" where
  "ExtendSoftware crc data = NOT (ExtendLoop (NOT crc) data)"

definition ExtendPortable :: "u32 \<Rightarrow> bytes \<Rightarrow> u32" where
  "ExtendPortable crc data = ExtendSoftware crc data"

text \<open>
  The hardware path. \<open>crc32_u64\<close> and \<open>crc32_u8\<close> stand for the intrinsics
  (\<open>_mm_crc32_u64\<close> and \<open>_mm_crc32_u8\<close>, or \<open>__crc32cd\<close> and \<open>__crc32cb\<close>).
\<close>

function ExtendHardwareLoop ::
  "(u32 \<Rightarrow> u64 \<Rightarrow> u32) \<Rightarrow> (u32 \<Rightarrow> byte \<Rightarrow> u32) \<Rightarrow> u32 \<Rightarrow> bytes \<Rightarrow> u32" where
  "ExtendHardwareLoop crc32_u64 crc32_u8 c p =
     (if 8 \<le> length p
      then ExtendHardwareLoop crc32_u64 crc32_u8 (crc32_u64 c (DecodeFixed64 p)) (drop 8 p)
      else foldl crc32_u8 c p)"
  by pat_completeness auto
termination
  by (relation "measure (\<lambda>(f, g, c, p). length p)") auto

declare ExtendHardwareLoop.simps [simp del]

definition ExtendHardware ::
  "(u32 \<Rightarrow> u64 \<Rightarrow> u32) \<Rightarrow> (u32 \<Rightarrow> byte \<Rightarrow> u32) \<Rightarrow> u32 \<Rightarrow> bytes \<Rightarrow> u32" where
  "ExtendHardware crc32_u64 crc32_u8 crc data =
     NOT (ExtendHardwareLoop crc32_u64 crc32_u8 (NOT crc) data)"

text \<open>
  \<open>crc32c::Extend\<close> and \<open>crc32c::Value\<close> on a build without the instructions; on a
  build with them \<open>ExtendHardware\<close> takes the place of \<open>ExtendSoftware\<close>.
\<close>

definition Extend :: "u32 \<Rightarrow> bytes \<Rightarrow> u32" where
  "Extend crc data = ExtendSoftware crc data"

definition Value :: "bytes \<Rightarrow> u32" where
  "Value data = Extend 0 data"

section \<open>The bit-at-a-time reference\<close>

definition crc_byte :: "u32 \<Rightarrow> byte \<Rightarrow> u32" where
  "crc_byte c b = (crc_bit ^^ 8) (c XOR ucast b)"

definition crc_ref :: "u32 \<Rightarrow> bytes \<Rightarrow> u32" where
  "crc_ref crc data = NOT (foldl crc_byte (NOT crc) data)"

section \<open>Linearity\<close>

lemma bit_and_1: "(x :: u32) AND 1 \<noteq> 0 \<longleftrightarrow> bit x 0"
  by (simp add: and_one_eq bit_0 odd_iff_mod_2_eq_one)

lemma crc_bit_xor: "crc_bit (a XOR b) = crc_bit a XOR crc_bit b"
  by (rule bit_word_eqI) (auto simp: crc_bit_def bit_and_1 bit_simps)

lemma crc_bit_zero [simp]: "crc_bit 0 = 0"
  by (simp add: crc_bit_def)

definition crc8 :: "u32 \<Rightarrow> u32" where
  "crc8 = crc_bit ^^ 8"

lemma funpow_crc_bit_xor: "(crc_bit ^^ n) (a XOR b) = (crc_bit ^^ n) a XOR (crc_bit ^^ n) b"
  by (induction n) (simp_all add: crc_bit_xor)

lemma crc8_xor: "crc8 (a XOR b) = crc8 a XOR crc8 b"
  by (simp add: crc8_def funpow_crc_bit_xor)

lemma funpow_crc8_xor: "(crc8 ^^ n) (a XOR b) = (crc8 ^^ n) a XOR (crc8 ^^ n) b"
  by (induction n) (simp_all add: crc8_xor)

lemma crc_bit_even: "\<not> bit x 0 \<Longrightarrow> crc_bit x = drop_bit 1 x"
  by (simp add: crc_bit_def bit_and_1)

lemma funpow_crc_bit_shift: "n \<le> k \<Longrightarrow> (crc_bit ^^ n) (push_bit k x) = drop_bit n (push_bit k x)"
proof (induction n)
  case (Suc n)
  then have "\<not> bit (drop_bit n (push_bit k x)) 0" by (simp add: bit_simps)
  with Suc show ?case by (simp add: crc_bit_even)
qed simp

lemma crc8_shift: "crc8 (push_bit 8 x) = drop_bit 8 (push_bit 8 x)"
  by (simp add: crc8_def funpow_crc_bit_shift del: funpow.simps)

lemma mask_0xff_32: "(0xff :: u32) = mask 8"
  by (simp add: mask_eq_exp_minus_1)

lemma bit_and_0xff: "bit (x AND 0xff) n \<longleftrightarrow> n < 8 \<and> bit (x :: u32) n"
  by (simp only: mask_0xff_32) (auto simp: bit_simps)

lemma low_byte_split: "(c AND 0xff) XOR push_bit 8 (drop_bit 8 c) = (c :: u32)"
  by (rule bit_word_eqI) (auto simp: bit_xor_iff bit_and_0xff bit_push_bit_iff bit_drop_bit_eq)

lemma crc8_split: "crc8 c = crc8 (c AND 0xff) XOR drop_bit 8 c"
proof -
  have "drop_bit 8 (push_bit 8 (drop_bit 8 c)) = drop_bit 8 c"
    by (rule bit_word_eqI) (auto simp: bit_simps dest: bit_imp_le_length)
  then have "crc8 (push_bit 8 (drop_bit 8 c)) = drop_bit 8 c"
    by (simp add: crc8_shift)
  then show ?thesis
    using crc8_xor [of "c AND 0xff" "push_bit 8 (drop_bit 8 c)"] by (simp add: low_byte_split)
qed

lemma MakeTables_eq: "MakeTables k i = (crc8 ^^ Suc k) i"
proof (induction k)
  case 0
  show ?case by (simp add: crc8_def)
next
  case (Suc k)
  have "MakeTables 0 x = crc8 x" for x by (simp add: crc8_def)
  with Suc show ?case using crc8_split [of "(crc8 ^^ Suc k) i"]
    by (simp add: Let_def xor.commute)
qed

lemma crc_byte_eq: "crc_byte c b = crc8 (c XOR ucast b)"
  by (simp add: crc_byte_def crc8_def)

lemma crc8_pows:
  "(crc8 ^^ Suc 0) y = crc8 y" "(crc8 ^^ 2) y = crc8 (crc8 y)"
  "(crc8 ^^ 3) y = crc8 (crc8 (crc8 y))" "(crc8 ^^ 4) y = crc8 (crc8 (crc8 (crc8 y)))"
  by (simp_all add: numeral_eq_Suc)

lemma tables:
  "MakeTables 7 i = (crc8 ^^ 8) i" "MakeTables 6 i = (crc8 ^^ 7) i"
  "MakeTables 5 i = (crc8 ^^ 6) i" "MakeTables 4 i = (crc8 ^^ 5) i"
  "MakeTables 3 i = (crc8 ^^ 4) i" "MakeTables 2 i = (crc8 ^^ 3) i"
  "MakeTables (Suc 0) i = (crc8 ^^ 2) i" "MakeTables 0 i = crc8 i"
  by (simp_all add: MakeTables_eq numeral_eq_Suc del: MakeTables.simps)

lemma xor_cancel: "a XOR c = b XOR c \<Longrightarrow> a = (b :: u32)"
  by (metis xor.assoc xor.right_neutral xor_self_eq)

section \<open>Slicing by eight\<close>

lemma ExtendTail_eq: "ExtendTail c p = foldl crc_byte c p"
proof (induction p arbitrary: c)
  case (Cons b p)
  have "drop_bit 8 (c XOR ucast b) = drop_bit 8 c"
    by (rule bit_word_eqI) (auto simp: bit_simps dest: bit_imp_le_length)
  then have "MakeTables 0 ((c XOR ucast b) AND 0xff) XOR drop_bit 8 c = crc_byte c b"
    using crc8_split [of "c XOR ucast b"] by (simp add: MakeTables_eq crc_byte_eq)
  with Cons show ?case by simp
qed simp

lemma crc8_shift_byte: "k < 3 \<Longrightarrow> crc8 (push_bit (8 * Suc k) (ucast (b :: byte))) = push_bit (8 * k) (ucast b)"
proof -
  assume k: "k < 3"
  have "push_bit (8 * Suc k) (ucast b) = push_bit 8 (push_bit (8 * k) (ucast b) :: u32)"
    by (simp add: add.commute)
  moreover have "drop_bit 8 (push_bit 8 (push_bit (8 * k) (ucast b) :: u32)) = push_bit (8 * k) (ucast b)"
    using k by (intro bit_word_eqI) (auto simp: bit_simps dest: bit_imp_le_length)
  ultimately show ?thesis by (simp only: crc8_shift)
qed

lemmas crc8_shift_bytes = crc8_shift_byte [of 0, simplified] crc8_shift_byte [of 1, simplified]
  crc8_shift_byte [of 2, simplified]

lemma crc_word:
  "foldl crc_byte c [b0, b1, b2, b3] = (crc8 ^^ 4) (c XOR DecodeFixed32 (b0 # b1 # b2 # b3 # rest))"
proof -
  have or_xor: "DecodeFixed32 (b0 # b1 # b2 # b3 # rest) =
      ucast b0 XOR push_bit 8 (ucast b1) XOR push_bit 16 (ucast b2) XOR push_bit 24 (ucast b3)"
    by (rule bit_word_eqI)
      (auto simp: DecodeFixed32_def bit_or_iff bit_xor_iff bit_put_byte bit_put_lowest_byte)
  show ?thesis
    unfolding or_xor
    by (simp add: crc_byte_eq crc8_xor crc8_shift_bytes crc8_pows xor.assoc)
qed

lemma word_bytes: "x = DecodeFixed32 (fixed32 x)"
  using DecodeFixed32_append [of x "[]"] by simp

lemma crc8_4_split:
  "(crc8 ^^ 4) x = (crc8 ^^ 4) (x AND 0xff) XOR (crc8 ^^ 3) (drop_bit 8 x AND 0xff) XOR
     (crc8 ^^ 2) (drop_bit 16 x AND 0xff) XOR crc8 (drop_bit 24 x AND 0xff)"
proof -
  have b: "ucast (ucast y :: byte) = y AND 0xff" for y :: u32
    by (rule bit_word_eqI) (auto simp: bit_lowest_byte_of_word bit_and_0xff)
  have "(crc8 ^^ 4) x = foldl crc_byte 0 (fixed32 x)"
    using crc_word [of 0 "ucast x" "ucast (drop_bit 8 x)" "ucast (drop_bit 16 x)" "ucast (drop_bit 24 x)" "[]"]
      word_bytes [of x] by (simp add: fixed32_def)
  then show ?thesis
    by (simp add: fixed32_def crc_byte_eq crc8_xor b crc8_pows xor.assoc)
qed

lemma ExtendBlock_eq:
  assumes "8 \<le> length p"
  shows "ExtendBlock c p = foldl crc_byte c (take 8 p)"
proof -
  obtain b0 b1 b2 b3 b4 b5 b6 b7 rest where p: "p = b0 # b1 # b2 # b3 # b4 # b5 # b6 # b7 # rest"
    using assms by (auto simp: Suc_le_length_iff numeral_eq_Suc)
  define x where "x = c XOR DecodeFixed32 p"
  define h where "h = DecodeFixed32 (drop 4 p)"
  have pow: "(crc8 ^^ 4) ((crc8 ^^ m) y) = (crc8 ^^ (4 + m)) y" for m y
    by (simp add: funpow_add)
  have pow1: "(crc8 ^^ 4) (crc8 y) = (crc8 ^^ 5) y" for y
    using pow [of 1 y] by simp
  have "foldl crc_byte c (take 8 p) = foldl crc_byte (foldl crc_byte c [b0, b1, b2, b3]) [b4, b5, b6, b7]"
    by (simp add: p)
  also have "\<dots> = (crc8 ^^ 4) ((crc8 ^^ 4) x) XOR (crc8 ^^ 4) h"
    unfolding crc_word [of _ b4 b5 b6 b7 rest] crc_word [of _ b0 b1 b2 b3 "b4 # b5 # b6 # b7 # rest"]
    by (simp add: funpow_crc8_xor x_def h_def p)
  also have "\<dots> = ExtendBlock c p"
    unfolding crc8_4_split [of x] crc8_4_split [of h]
    by (simp add: funpow_crc8_xor ExtendBlock_def Let_def x_def [symmetric] h_def [symmetric]
        tables pow pow1 xor.assoc del: funpow.simps MakeTables.simps)
  finally show ?thesis by simp
qed

lemma ExtendLoop_eq: "ExtendLoop c p = foldl crc_byte c p"
proof (induction c p rule: ExtendLoop.induct)
  case (1 c p)
  show ?case
  proof (cases "8 \<le> length p")
    case True
    with 1 have "ExtendLoop c p = foldl crc_byte (foldl crc_byte c (take 8 p)) (drop 8 p)"
      by (simp add: ExtendLoop.simps [of c] ExtendBlock_eq)
    also have "\<dots> = foldl crc_byte c (take 8 p @ drop 8 p)"
      by (simp only: foldl_append)
    finally show ?thesis by simp
  next
    case False
    then show ?thesis by (simp add: ExtendLoop.simps [of c] ExtendTail_eq)
  qed
qed

lemma ExtendSoftware_ref: "ExtendSoftware crc data = crc_ref crc data"
  by (simp add: ExtendSoftware_def ExtendLoop_eq crc_ref_def)


lemma Value_Nil [simp]: "Value [] = 0"
  by (simp add: Value_def Extend_def ExtendSoftware_ref crc_ref_def)

lemma Extend_append: "Extend crc (a @ b) = Extend (Extend crc a) b"
  by (simp add: Extend_def ExtendSoftware_ref crc_ref_def)

section \<open>The hardware path\<close>

locale crc32c_hardware =
  fixes crc32_u64 :: "u32 \<Rightarrow> u64 \<Rightarrow> u32"
    and crc32_u8 :: "u32 \<Rightarrow> byte \<Rightarrow> u32"
  assumes crc32_u8: "crc32_u8 c b = crc_byte c b"
    and crc32_u64: "crc32_u64 c w = foldl crc_byte c (fixed64 w)"
begin

lemma hardware_loop: "ExtendHardwareLoop crc32_u64 crc32_u8 c p = foldl crc_byte c p"
proof (induction p arbitrary: c rule: length_induct)
  case (1 p)
  show ?case
  proof (cases "8 \<le> length p")
    case True
    have "crc32_u64 c (DecodeFixed64 p) = foldl crc_byte c (take 8 p)"
      using True by (simp add: crc32_u64 DecodeFixed_take(2) [of p, symmetric] fixed64_Decode)
    with 1 True have "ExtendHardwareLoop crc32_u64 crc32_u8 c p =
        foldl crc_byte (foldl crc_byte c (take 8 p)) (drop 8 p)"
      by (simp add: ExtendHardwareLoop.simps [of _ _ c])
    also have "\<dots> = foldl crc_byte c (take 8 p @ drop 8 p)"
      by (simp only: foldl_append)
    finally show ?thesis by simp
  next
    case False
    have "crc32_u8 = crc_byte" by (intro ext) (rule crc32_u8)
    with False show ?thesis by (simp add: ExtendHardwareLoop.simps [of _ _ c])
  qed
qed

lemma hardware_is_software: "ExtendHardware crc32_u64 crc32_u8 crc data = ExtendSoftware crc data"
  by (simp add: ExtendHardware_def hardware_loop ExtendSoftware_ref crc_ref_def)

end

text \<open>The reference step itself satisfies the contract.\<close>

interpretation ref_hw: crc32c_hardware "\<lambda>c w. foldl crc_byte c (fixed64 w)" crc_byte
  by unfold_locales simp_all

section \<open>What the checksum detects\<close>

text \<open>
  One bit step is invertible, because the polynomial has its top bit set: the
  top bit of the result tells which branch was taken.
\<close>

lemma crc_bit_inj: "crc_bit x = crc_bit y \<Longrightarrow> x = y"
proof -
  assume eq: "crc_bit x = crc_bit y"
  have top: "bit (crc_bit z) 31 \<longleftrightarrow> bit z 0" for z
  proof -
    have "bit kPoly 31" by (simp add: kPoly_def bit_numeral_rec)
    moreover have "\<not> bit (drop_bit 1 z) 31" by (auto simp: bit_simps dest: bit_imp_le_length)
    ultimately show ?thesis by (simp add: crc_bit_def bit_and_1 bit_xor_iff)
  qed
  from eq top [of x] top [of y] have low: "bit x 0 = bit y 0" by simp
  with eq have "drop_bit 1 x = drop_bit 1 y"
    by (cases "bit x 0") (auto simp: crc_bit_def bit_and_1 dest: xor_cancel)
  then have "bit x (Suc n) = bit y (Suc n)" for n
    by (metis bit_drop_bit_eq comp_apply plus_1_eq_Suc)
  with low show "x = y"
    by (intro bit_word_eqI) (metis not0_implies_Suc)
qed

lemma crc8_inj: "crc8 x = crc8 y \<Longrightarrow> x = y"
proof -
  have "(crc_bit ^^ n) x = (crc_bit ^^ n) y \<Longrightarrow> x = y" for n
    by (induction n) (auto dest: crc_bit_inj)
  then show "crc8 x = crc8 y \<Longrightarrow> x = y" by (simp only: crc8_def)
qed

lemma foldl_crc_byte_inj: "foldl crc_byte c p = foldl crc_byte d p \<Longrightarrow> c = d"
proof (induction p arbitrary: c d)
  case (Cons b p)
  then have "crc8 (c XOR ucast b) = crc8 (d XOR ucast b)" by (simp add: crc_byte_eq)
  then have "c XOR ucast b = d XOR ucast b" by (rule crc8_inj)
  then show ?case by (rule xor_cancel)
qed simp

lemma crc_burst_4:
  assumes "length a = 4" "length b = 4" "foldl crc_byte c a = foldl crc_byte c b"
  shows "a = b"
proof -
  obtain a0 a1 a2 a3 where a: "a = [a0, a1, a2, a3]"
    using assms(1) by (auto simp: length_Suc_conv numeral_eq_Suc)
  obtain b0 b1 b2 b3 where b: "b = [b0, b1, b2, b3]"
    using assms(2) by (auto simp: length_Suc_conv numeral_eq_Suc)
  have inj4: "x = y" if "(crc8 ^^ 4) x = (crc8 ^^ 4) y" for x y
    using that by (auto simp: crc8_pows dest!: crc8_inj)
  have "c XOR DecodeFixed32 a = c XOR DecodeFixed32 b"
    using assms(3) inj4 unfolding a b crc_word [of c _ _ _ _ "[]"] by blast
  then have "DecodeFixed32 a = DecodeFixed32 b"
    by (metis xor.commute xor_cancel)
  then show ?thesis using fixed32_Decode assms(1,2) by metis
qed


section \<open>Properties\<close>

text \<open>C4. The table-driven, eight-bytes-at-a-time checksum is the bit-at-a-time CRC-32C of
  the whole input, whatever its length and whatever checksum it continues.\<close>

theorem slicing_by_8_is_crc32c: "ExtendPortable crc data = crc_ref crc data"
  by (simp add: ExtendPortable_def ExtendSoftware_ref)

text \<open>C6. A build that uses the CPU's CRC32C instructions computes the same checksum as one
  that uses the tables, provided the two intrinsics do what their documentation says:
  fold one byte, or the eight bytes of a little-endian word, into the checksum.\<close>

theorem hardware_matches_portable:
  assumes "\<And>c b. crc32_u8 c b = crc_byte c b"
    and "\<And>c w. crc32_u64 c w = foldl crc_byte c (fixed64 w)"
  shows "ExtendHardware crc32_u64 crc32_u8 crc data = ExtendPortable crc data"
proof -
  have "crc32c_hardware crc32_u64 crc32_u8"
    using assms by unfold_locales
  then show ?thesis
    unfolding ExtendPortable_def by (rule crc32c_hardware.hardware_is_software)
qed

theorem hardware_matches_portable_witness:
  "ExtendHardware (\<lambda>c w. foldl crc_byte c (fixed64 w)) crc_byte 0 [1, 2, 3, 4, 5, 6, 7, 8, 9] =
     ExtendPortable 0 [1, 2, 3, 4, 5, 6, 7, 8, 9]"
  by (rule hardware_matches_portable) simp_all

text \<open>C5. Damage confined to four consecutive bytes always changes the checksum, so a record or
  block damaged that way never passes its CRC check.\<close>

theorem burst_of_4_bytes_detected:
  assumes "length a = 4" "length b = 4" "a \<noteq> b"
  shows "Value (pre @ a @ post) \<noteq> Value (pre @ b @ post)"
proof
  assume "Value (pre @ a @ post) = Value (pre @ b @ post)"
  then have "foldl crc_byte (foldl crc_byte (NOT 0) pre) a = foldl crc_byte (foldl crc_byte (NOT 0) pre) b"
    by (auto simp: Value_def Extend_def ExtendSoftware_ref crc_ref_def dest: foldl_crc_byte_inj)
  then show False using crc_burst_4 assms by blast
qed

theorem burst_of_4_bytes_detected_witness:
  "Value ([7] @ [0, 0, 0, 0] @ [9]) \<noteq> Value ([7] @ [0, 0, 0, 1] @ [9])"
  by (rule burst_of_4_bytes_detected) simp_all

end
