(* ===== verification/Bloom.thy ===== *)
theory Bloom
  imports Coding
begin

text \<open>
  \<open>src/bloom.cpp\<close> and \<open>include/lsm/bloom.h\<close>: the Bloom filter of an SSTable. A
  filter is its encoded form, the bit array followed by one byte with the probe
  count.
\<close>

section \<open>Definitions\<close>

definition bloom_m :: u32 where "bloom_m = 0xc6a4a793"
definition bloom_seed :: u32 where "bloom_seed = 0xbc9f1d34"

text \<open>The loop over whole 4-byte groups; the result is the hash and the bytes left over.\<close>

function BloomHashLoop :: "u32 \<Rightarrow> bytes \<Rightarrow> u32 \<times> bytes" where
  "BloomHashLoop h data =
     (if 4 \<le> length data then
        (let h = h + DecodeFixed32 data; h = h * bloom_m; h = h XOR drop_bit 16 h
         in BloomHashLoop h (drop 4 data))
      else (h, data))"
  by pat_completeness auto
termination
  by (relation "measure (\<lambda>(h, data). length data)") auto

declare BloomHashLoop.simps [simp del]

text \<open>The switch on the left-over bytes, whose cases fall through.\<close>

definition BloomHashTail :: "u32 \<Rightarrow> bytes \<Rightarrow> u32" where
  "BloomHashTail h data =
     (let h = (if length data = 3 then h + push_bit 16 (ucast (data ! 2)) else h);
          h = (if length data = 3 \<or> length data = 2 then h + push_bit 8 (ucast (data ! 1)) else h)
      in if length data = 0 then h
         else let h = h + ucast (data ! 0); h = h * bloom_m in h XOR drop_bit 24 h)"

definition BloomHash :: "bytes \<Rightarrow> u32" where
  "BloomHash key =
     (let h = bloom_seed XOR (of_nat (length key) * bloom_m);
          (h, data) = BloomHashLoop h key
      in BloomHashTail h data)"

text \<open>
  \<open>static_cast<int>(bits_per_key * 0.69314718056)\<close>, clamped to 1 and 30. The
  product is exact to the integer where the clamp does not decide: below 45 bits
  per key it is at least \<open>1e-11\<close> away from an integer, far more than the
  rounding of a double.
\<close>

definition BitsPerKeyToProbes :: "int \<Rightarrow> int" where
  "BitsPerKeyToProbes bits_per_key =
     (let k = (if bits_per_key < 0 then - ((- bits_per_key * 69314718056) div 100000000000)
               else (bits_per_key * 69314718056) div 100000000000)
      in max 1 (min 30 k))"

definition bloom_delta :: "u32 \<Rightarrow> u32" where
  "bloom_delta h = drop_bit 17 h OR push_bit 15 h"

text \<open>The inner loop of \<open>Build\<close>: set the bits of \<open>k\<close> probes.\<close>

fun BuildProbes :: "u64 \<Rightarrow> u32 \<Rightarrow> nat \<Rightarrow> u32 \<Rightarrow> bytes \<Rightarrow> bytes" where
  "BuildProbes bits delta 0 h flt = flt"
| "BuildProbes bits delta (Suc k) h flt =
     (let bitpos = unat (ucast h mod bits);
          flt = flt[bitpos div 8 := flt ! (bitpos div 8) OR push_bit (bitpos mod 8) 1]
      in BuildProbes bits delta k (h + delta) flt)"

definition Build :: "bytes list \<Rightarrow> int \<Rightarrow> bytes" where
  "Build keys bits_per_key =
     (let k = BitsPerKeyToProbes bits_per_key;
          bits = (of_nat (length keys) * of_int bits_per_key :: u64);
          bits = max bits 64;
          nbytes = (bits + 7) div 8;
          bits = nbytes * 8;
          flt = replicate (unat nbytes) 0;
          flt = foldl (\<lambda>flt key.
            (let h = BloomHash key in BuildProbes bits (bloom_delta h) (nat k) h flt)) flt keys
      in flt @ [of_int k])"

fun MayContainLoop :: "bytes \<Rightarrow> u64 \<Rightarrow> u32 \<Rightarrow> nat \<Rightarrow> u32 \<Rightarrow> bool" where
  "MayContainLoop data bits delta 0 h = True"
| "MayContainLoop data bits delta (Suc k) h =
     (let bitpos = unat (ucast h mod bits) in
      if (ucast (data ! (bitpos div 8)) :: u32) AND push_bit (bitpos mod 8) 1 = 0 then False
      else MayContainLoop data bits delta k (h + delta))"

definition MayContain :: "bytes \<Rightarrow> bytes \<Rightarrow> bool" where
  "MayContain data key =
     (if length data < 2 then True
      else let nbytes = length data - 1;
               bits = (of_nat nbytes :: u64) * 8;
               k = unat (data ! nbytes)
        in if k > 30 then True
           else let h = BloomHash key in MayContainLoop data bits (bloom_delta h) k h)"

section \<open>Bits of the array\<close>

definition bit_at :: "bytes \<Rightarrow> nat \<Rightarrow> bool" where
  "bit_at f p \<longleftrightarrow> bit (f ! (p div 8)) (p mod 8)"

fun probe_positions :: "u64 \<Rightarrow> u32 \<Rightarrow> nat \<Rightarrow> u32 \<Rightarrow> nat list" where
  "probe_positions bits delta 0 h = []"
| "probe_positions bits delta (Suc k) h =
     unat ((ucast h :: u64) mod bits) # probe_positions bits delta k (h + delta)"

lemma bit_test:
  "(ucast (b :: byte) :: u32) AND 2 ^ i = 0 \<longleftrightarrow> \<not> bit b i" if "i < 8"
proof -
  have "bit ((ucast b :: u32) AND 2 ^ i) n \<longleftrightarrow> n = i \<and> bit b i" for n
    using that by (auto simp: bit_simps)
  then show ?thesis
    by (metis bit_0_eq bit_word_eqI bot_apply bot_bool_def)
qed

lemma MayContainLoop_eq:
  "MayContainLoop data bits delta k h \<longleftrightarrow> (\<forall>p \<in> set (probe_positions bits delta k h). bit_at data p)"
  by (induction k arbitrary: h) (auto simp: Let_def bit_test bit_at_def)

lemma length_BuildProbes [simp]: "length (BuildProbes bits delta k h f) = length f"
  by (induction bits delta k h f rule: BuildProbes.induct) (simp_all add: Let_def)

lemma bit_at_set:
  assumes "p div 8 < length f"
  shows "bit_at (f[p div 8 := f ! (p div 8) OR push_bit (p mod 8) 1]) q \<longleftrightarrow> bit_at f q \<or> q = p"
proof -
  have "q = p \<longleftrightarrow> q div 8 = p div 8 \<and> q mod 8 = p mod 8"
    by (metis mult_div_mod_eq)
  then show ?thesis using assms
    by (auto simp: bit_at_def nth_list_update bit_or_iff bit_exp_iff)
qed

text \<open>Every probe position lies inside the array.\<close>

lemma probe_in_range:
  assumes "bits = of_nat (length f) * 8" "0 < length f" "length f * 8 < 2 ^ 64"
  shows "unat ((ucast (h :: u32) :: u64) mod bits) div 8 < length f"
proof -
  have "unat (of_nat (length f * 8) :: u64) = length f * 8"
    using assms(3) by (intro unat_of_nat_small) simp
  then have "unat bits = length f * 8" using assms(1) by simp
  moreover from this have "unat ((ucast h :: u64) mod bits) < unat bits"
    using assms(2) by (simp add: unat_mod)
  ultimately show ?thesis by simp
qed

lemma probe_positions_range:
  "p \<in> set (probe_positions bits delta k h) \<Longrightarrow> bits = of_nat (length f) * 8 \<Longrightarrow> 0 < length f \<Longrightarrow>
     length f * 8 < 2 ^ 64 \<Longrightarrow> p div 8 < length f"
  by (induction k arbitrary: h) (auto simp: probe_in_range)

lemma BuildProbes_bits:
  assumes "bits = of_nat (length f) * 8" "0 < length f" "length f * 8 < 2 ^ 64"
  shows "bit_at (BuildProbes bits delta k h f) q \<longleftrightarrow>
    bit_at f q \<or> q \<in> set (probe_positions bits delta k h)"
  using assms
proof (induction bits delta k h f rule: BuildProbes.induct)
  case (2 bits delta k h f)
  show ?case
    using "2.IH" [OF refl refl] "2.prems" bit_at_set [OF probe_in_range [OF "2.prems", of h]]
    by (auto simp: Let_def)
qed simp

section \<open>No false negatives\<close>

definition add_key :: "u64 \<Rightarrow> nat \<Rightarrow> bytes \<Rightarrow> bytes \<Rightarrow> bytes" where
  "add_key bits k f key = (let h = BloomHash key in BuildProbes bits (bloom_delta h) k h f)"

lemma foldl_add_key:
  assumes "bits = of_nat (length f) * 8" "0 < length f" "length f * 8 < 2 ^ 64"
  shows "length (foldl (add_key bits k) f keys) = length f \<and>
    (bit_at (foldl (add_key bits k) f keys) q \<longleftrightarrow> bit_at f q \<or>
     (\<exists>key \<in> set keys. q \<in> set (probe_positions bits (bloom_delta (BloomHash key)) k (BloomHash key))))"
  using assms
proof (induction keys arbitrary: f)
  case (Cons key keys)
  have "length (add_key bits k f key) = length f" by (simp add: add_key_def Let_def)
  with Cons.IH [of "add_key bits k f key"] Cons.prems show ?case
    by (auto simp: add_key_def Let_def BuildProbes_bits)
qed simp

lemma BitsPerKeyToProbes_range: "1 \<le> BitsPerKeyToProbes n \<and> BitsPerKeyToProbes n \<le> 30"
  by (simp add: BitsPerKeyToProbes_def Let_def)

lemma Build_shape:
  assumes "0 \<le> bpk" "int (length keys) * bpk + 7 < 2 ^ 64"
  obtains n where "0 < n" "n * 8 < 2 ^ 64" "n \<le> length keys * nat bpk div 8 + 9"
    "Build keys bpk = foldl (add_key (of_nat n * 8) (nat (BitsPerKeyToProbes bpk))) (replicate n 0) keys @
      [of_int (BitsPerKeyToProbes bpk)]"
proof -
  define x where "x = length keys * nat bpk"
  have "int x = int (length keys) * bpk" using assms(1) by (simp add: x_def)
  with assms(2) have x: "x + 7 < 2 ^ 64" by (metis of_nat_add of_nat_less_numeral_power_cancel_iff of_nat_numeral)
  define bits where "bits = max (of_nat (length keys) * of_int bpk :: u64) 64"
  have "(of_int bpk :: u64) = of_nat (nat bpk)" using assms(1) by simp
  then have "(of_nat (length keys) * of_int bpk :: u64) = of_nat x" by (simp add: x_def)
  moreover have "unat (of_nat x :: u64) = x" using x by (simp add: unat_of_nat_small)
  ultimately have "unat bits = max x 64"
    by (auto simp: bits_def max_def word_le_nat_alt)
  with x have b: "unat bits + 7 < 2 ^ 64" "64 \<le> unat bits" by auto
  then have "unat (bits + 7) = unat bits + 7"
    by (simp add: unat_word_ariths)
  then have n: "unat ((bits + 7) div 8) = (unat bits + 7) div 8"
    by (simp add: unat_div)
  define n where "n = (unat bits + 7) div 8"
  have "(bits + 7) div 8 = of_nat (unat ((bits + 7) div 8))" by simp
  then have "(bits + 7) div 8 = of_nat n" by (simp only: n n_def)
  then have "Build keys bpk = foldl (add_key (of_nat n * 8) (nat (BitsPerKeyToProbes bpk)))
      (replicate (unat (of_nat n :: u64)) 0) keys @ [of_int (BitsPerKeyToProbes bpk)]"
    by (simp add: Build_def Let_def bits_def [symmetric] add_key_def [abs_def])
  moreover have "unat (of_nat n :: u64) = n" using n n_def \<open>(bits + 7) div 8 = of_nat n\<close> by simp
  moreover have "0 < n" "n * 8 < 2 ^ 64" using b by (auto simp: n_def)
  moreover have "n \<le> length keys * nat bpk div 8 + 9"
    using \<open>unat bits = max x 64\<close> by (cases "x \<le> 64") (auto simp: n_def x_def max_def)
  ultimately show ?thesis using that by metis
qed

lemma length_Build:
  assumes "0 \<le> bpk" "int (length keys) * bpk + 7 < 2 ^ 64"
  shows "length (Build keys bpk) \<le> length keys * nat bpk div 8 + 10"
proof -
  obtain n where n: "0 < n" "n * 8 < 2 ^ 64" "n \<le> length keys * nat bpk div 8 + 9" and
    b: "Build keys bpk =
      foldl (add_key (of_nat n * 8) (nat (BitsPerKeyToProbes bpk))) (replicate n 0) keys @ [of_int (BitsPerKeyToProbes bpk)]"
    using Build_shape [OF assms] .
  have "length (foldl (add_key (of_nat n * 8) (nat (BitsPerKeyToProbes bpk))) (replicate n 0) keys) = n"
    using foldl_add_key [of "of_nat n * 8" "replicate n 0"] n by simp
  then show ?thesis using n(3) by (simp add: b)
qed

lemma MayContain_Build:
  assumes "0 \<le> bits_per_key" "int (length keys) * bits_per_key + 7 < 2 ^ 64" "key \<in> set keys"
  shows "MayContain (Build keys bits_per_key) key"
proof -
  let ?k = "BitsPerKeyToProbes bits_per_key"
  obtain n where n: "0 < n" "n * 8 < 2 ^ 64" "n \<le> length keys * nat bits_per_key div 8 + 9" and
    b: "Build keys bits_per_key =
      foldl (add_key (of_nat n * 8) (nat ?k)) (replicate n 0) keys @ [of_int ?k]"
    using Build_shape [OF assms(1,2)] .
  define f where "f = foldl (add_key (of_nat n * 8) (nat ?k)) (replicate n 0) keys"
  have len: "length f = n"
    and bits: "bit_at f q \<longleftrightarrow> bit_at (replicate n 0) q \<or> (\<exists>key \<in> set keys.
      q \<in> set (probe_positions (of_nat n * 8) (bloom_delta (BloomHash key)) (nat ?k) (BloomHash key)))" for q
    using foldl_add_key [of "of_nat n * 8" "replicate n 0" "nat ?k" keys q] n by (simp_all add: f_def)
  have "unat (of_nat (nat ?k) :: byte) = nat ?k"
    using BitsPerKeyToProbes_range [of bits_per_key] by (intro unat_of_nat_small) auto
  moreover have "(of_int ?k :: byte) = of_nat (nat ?k)"
    using BitsPerKeyToProbes_range [of bits_per_key] by simp
  ultimately have k: "unat (of_int ?k :: byte) = nat ?k" by simp
  have "bit_at (f @ [of_int ?k]) p"
    if "p \<in> set (probe_positions (of_nat n * 8) (bloom_delta (BloomHash key)) (nat ?k) (BloomHash key))" for p
  proof -
    have "p div 8 < length f"
      using len n by (intro probe_positions_range [OF that]) simp_all
    then show ?thesis using that bits assms(3) by (auto simp: bit_at_def nth_append)
  qed
  then have "MayContain (f @ [of_int ?k]) key"
    using BitsPerKeyToProbes_range [of bits_per_key] len k
    by (simp add: MayContain_def Let_def nth_append MayContainLoop_eq)
  then show ?thesis by (simp add: b f_def)
qed

section \<open>Properties\<close>

text \<open>C13. The filter has no false negatives: a key the filter was built over is always reported
  as possibly present, for every key set and every non-negative bits-per-key setting whose
  bit count does not overflow \<open>size_t\<close>.\<close>

theorem bloom_no_false_negatives:
  assumes "0 \<le> bits_per_key" "int (length keys) * bits_per_key + 7 < 2 ^ 64" "key \<in> set keys"
  shows "MayContain (Build keys bits_per_key) key"
  by (rule MayContain_Build [OF assms])

theorem bloom_no_false_negatives_witness:
  "MayContain (Build [[1, 2], [3]] 10) [3]"
  by (rule bloom_no_false_negatives) simp_all

end
