(* ===== verification/Status.thy ===== *)
theory Status
  imports Prelude
begin

text \<open>
  The result type of every fallible operation (\<open>include/lsm/status.h\<close>): a code
  and a message. Success carries the empty message.
\<close>

section \<open>Codes and constructors\<close>

datatype code =
  kOk | kNotFound | kCorruption | kIOError | kInvalidArgument | kNotSupported

record status =
  st_code :: code
  st_msg :: string

definition OK :: status where
  "OK = \<lparr>st_code = kOk, st_msg = []\<rparr>"

definition NotFound :: "string \<Rightarrow> status" where
  "NotFound msg = \<lparr>st_code = kNotFound, st_msg = msg\<rparr>"

definition Corruption :: "string \<Rightarrow> status" where
  "Corruption msg = \<lparr>st_code = kCorruption, st_msg = msg\<rparr>"

definition IOError :: "string \<Rightarrow> status" where
  "IOError msg = \<lparr>st_code = kIOError, st_msg = msg\<rparr>"

definition InvalidArgument :: "string \<Rightarrow> status" where
  "InvalidArgument msg = \<lparr>st_code = kInvalidArgument, st_msg = msg\<rparr>"

definition NotSupported :: "string \<Rightarrow> status" where
  "NotSupported msg = \<lparr>st_code = kNotSupported, st_msg = msg\<rparr>"

definition ok :: "status \<Rightarrow> bool" where
  "ok s \<longleftrightarrow> st_code s = kOk"

definition IsNotFound :: "status \<Rightarrow> bool" where
  "IsNotFound s \<longleftrightarrow> st_code s = kNotFound"

definition IsCorruption :: "status \<Rightarrow> bool" where
  "IsCorruption s \<longleftrightarrow> st_code s = kCorruption"

definition IsIOError :: "status \<Rightarrow> bool" where
  "IsIOError s \<longleftrightarrow> st_code s = kIOError"

fun code_name :: "code \<Rightarrow> string" where
  "code_name kOk = ''OK''"
| "code_name kNotFound = ''NotFound''"
| "code_name kCorruption = ''Corruption''"
| "code_name kIOError = ''IOError''"
| "code_name kInvalidArgument = ''InvalidArgument''"
| "code_name kNotSupported = ''NotSupported''"

definition ToString :: "status \<Rightarrow> string" where
  "ToString s =
     (if st_code s = kOk then ''OK''
      else code_name (st_code s) @ (if st_msg s \<noteq> [] then '': '' @ st_msg s else []))"

section \<open>Lemmas\<close>

lemmas status_defs = OK_def NotFound_def Corruption_def IOError_def
  InvalidArgument_def NotSupported_def

lemma ok_simps [simp]:
  "ok OK" "\<not> ok (NotFound m)" "\<not> ok (Corruption m)" "\<not> ok (IOError m)"
  "\<not> ok (InvalidArgument m)" "\<not> ok (NotSupported m)"
  by (simp_all add: ok_def status_defs)

lemma status_predicates [simp]:
  "IsNotFound (NotFound m)" "\<not> IsNotFound OK" "\<not> IsNotFound (Corruption m)"
  "\<not> IsNotFound (IOError m)" "IsCorruption (Corruption m)" "\<not> IsCorruption OK"
  "\<not> IsCorruption (NotFound m)" "\<not> IsCorruption (IOError m)"
  "IsIOError (IOError m)" "\<not> IsIOError OK"
  by (simp_all add: IsNotFound_def IsCorruption_def IsIOError_def status_defs)

lemma status_distinct [simp]:
  "OK \<noteq> NotFound m" "NotFound m \<noteq> OK" "OK \<noteq> Corruption m" "Corruption m \<noteq> OK"
  "OK \<noteq> IOError m" "IOError m \<noteq> OK" "NotFound m \<noteq> Corruption m'"
  "Corruption m \<noteq> NotFound m'" "NotFound m \<noteq> IOError m'" "IOError m \<noteq> NotFound m'"
  "OK \<noteq> InvalidArgument m" "InvalidArgument m \<noteq> OK"
  by (simp_all add: status_defs)

end
