(* ===== verification/Internal_Key.thy ===== *)
theory Internal_Key
  imports Coding
begin

text \<open>
  \<open>include/lsm/internal_key.h\<close>: the internal key (user key followed by an
  8-byte tag of sequence number and value type), its comparator and the lookup
  key. An internal key is a byte string, as in the code; \<open>ikey_of\<close> reads it as a
  pair ordered by user key ascending and tag descending, a linear order that
  the comparator is proved to decide.

  The code asserts \<open>size() >= kTagSize\<close> before it takes an internal key apart.
  The extractors below are meaningful under that assertion, \<open>ikey_ok\<close>.
\<close>

section \<open>Definitions\<close>

type_synonym SequenceNumber = u64

definition kMaxSequenceNumber :: SequenceNumber where
  "kMaxSequenceNumber = push_bit 56 1 - 1"

text \<open>
  \<open>ValueType\<close> is an enum over \<open>uint8_t\<close> into which the code casts arbitrary
  bytes, so it is a byte with two named values.
\<close>

type_synonym ValueType = byte

definition kDeletion :: ValueType where "kDeletion = 0"
definition kValue :: ValueType where "kValue = 1"

definition kTagSize :: nat where "kTagSize = 8"

definition PackTag :: "SequenceNumber \<Rightarrow> ValueType \<Rightarrow> u64" where
  "PackTag seq type = push_bit 8 seq OR ucast type"

definition EncodeInternalKey :: "bytes \<Rightarrow> SequenceNumber \<Rightarrow> ValueType \<Rightarrow> bytes" where
  "EncodeInternalKey user_key seq type = PutFixed64 ([] @ user_key) (PackTag seq type)"

definition ExtractUserKey :: "bytes \<Rightarrow> bytes" where
  "ExtractUserKey internal_key = take (length internal_key - kTagSize) internal_key"

definition ExtractTag :: "bytes \<Rightarrow> u64" where
  "ExtractTag internal_key =
     DecodeFixed64 (drop (length internal_key - kTagSize) internal_key)"

definition ExtractSequence :: "bytes \<Rightarrow> SequenceNumber" where
  "ExtractSequence internal_key = drop_bit 8 (ExtractTag internal_key)"

definition ExtractValueType :: "bytes \<Rightarrow> ValueType" where
  "ExtractValueType internal_key = ucast (ExtractTag internal_key AND 0xff)"

definition CompareInternalKey :: "bytes \<Rightarrow> bytes \<Rightarrow> int" where
  "CompareInternalKey a b =
     (let r = sv_compare (ExtractUserKey a) (ExtractUserKey b) in
      if r \<noteq> 0 then r
      else let ta = ExtractTag a; tb = ExtractTag b in
        if tb < ta then - 1 else if ta < tb then 1 else 0)"

definition InternalKeyLess :: "bytes \<Rightarrow> bytes \<Rightarrow> bool" where
  "InternalKeyLess a b \<longleftrightarrow> CompareInternalKey a b < 0"

definition LookupKey :: "bytes \<Rightarrow> SequenceNumber \<Rightarrow> bytes" where
  "LookupKey user_key seq = EncodeInternalKey user_key seq kValue"

text \<open>
  \<open>LookupKeyBuffer\<close>: the key is assembled in an inline array of
  \<open>kInlineCapacity\<close> bytes, whose initial contents \<open>inline_buf\<close> are whatever the
  stack held, or in a heap string of the exact size.
\<close>

definition kInlineCapacity :: nat where "kInlineCapacity = 200"

definition memcpy :: "bytes \<Rightarrow> nat \<Rightarrow> bytes \<Rightarrow> bytes" where
  "memcpy dst off src = take off dst @ src @ drop (off + length src) dst"

definition LookupKeyBuffer ::
  "bytes \<Rightarrow> bytes \<Rightarrow> SequenceNumber \<Rightarrow> ValueType \<Rightarrow> bytes" where
  "LookupKeyBuffer inline_buf user_key seq type =
     (let total = length user_key + kTagSize;
          out = (if total \<le> kInlineCapacity then inline_buf else replicate total 0);
          out = (if user_key \<noteq> [] then memcpy out 0 user_key else out);
          out = memcpy out (length user_key) (fixed64 (PackTag seq type))
      in take total out)"

section \<open>The order on internal keys\<close>

text \<open>The assertion of the extractors.\<close>

definition ikey_ok :: "bytes \<Rightarrow> bool" where
  "ikey_ok k \<longleftrightarrow> kTagSize \<le> length k"

datatype ikey = IKey (iuser: bytes) (itag: u64)

instantiation ikey :: linorder
begin

definition less_ikey :: "ikey \<Rightarrow> ikey \<Rightarrow> bool" where
  "less_ikey a b \<longleftrightarrow> iuser a < iuser b \<or> iuser a = iuser b \<and> itag b < itag a"

definition less_eq_ikey :: "ikey \<Rightarrow> ikey \<Rightarrow> bool" where
  "less_eq_ikey a b \<longleftrightarrow> iuser a < iuser b \<or> iuser a = iuser b \<and> itag b \<le> itag a"

instance
proof
  fix x y z :: ikey
  show "(x < y) = (x \<le> y \<and> \<not> y \<le> x)"
    by (auto simp: less_ikey_def less_eq_ikey_def)
  show "x \<le> x"
    by (simp add: less_eq_ikey_def)
  show "x \<le> z" if "x \<le> y" "y \<le> z"
    using that by (auto simp: less_eq_ikey_def)
  show "x = y" if "x \<le> y" "y \<le> x"
    using that by (cases x; cases y) (auto simp: less_eq_ikey_def)
  show "x \<le> y \<or> y \<le> x"
    by (auto simp: less_eq_ikey_def)
qed

end

definition ikey_of :: "bytes \<Rightarrow> ikey" where
  "ikey_of k = IKey (ExtractUserKey k) (ExtractTag k)"

definition iseq :: "ikey \<Rightarrow> SequenceNumber" where
  "iseq k = drop_bit 8 (itag k)"

definition itype :: "ikey \<Rightarrow> ValueType" where
  "itype k = ucast (itag k AND 0xff)"

lemma ikey_of_sel [simp]:
  "iuser (ikey_of k) = ExtractUserKey k" "itag (ikey_of k) = ExtractTag k"
  "iseq (ikey_of k) = ExtractSequence k" "itype (ikey_of k) = ExtractValueType k"
  by (simp_all add: ikey_of_def iseq_def itype_def ExtractSequence_def ExtractValueType_def)

lemma CompareInternalKey_less [key_order]: "CompareInternalKey a b < 0 \<longleftrightarrow> ikey_of a < ikey_of b"
  by (auto simp: CompareInternalKey_def Let_def key_order less_ikey_def)

lemma CompareInternalKey_greater [key_order]:
  "0 < CompareInternalKey a b \<longleftrightarrow> ikey_of b < ikey_of a"
  by (auto simp: CompareInternalKey_def Let_def key_order less_ikey_def)

lemma CompareInternalKey_zero [key_order]:
  "CompareInternalKey a b = 0 \<longleftrightarrow> ikey_of a = ikey_of b"
  by (auto simp: CompareInternalKey_def Let_def key_order ikey_of_def)

section \<open>Tags\<close>

lemma PackTag_bits: "bit (PackTag seq type) n \<longleftrightarrow>
    (if n < 8 then bit type n else n < 64 \<and> bit seq (n - 8))"
  by (auto simp: PackTag_def bit_simps dest: bit_imp_le_length)

lemma mask_0xff: "(0xff :: u64) = mask 8"
  by (simp add: mask_eq_exp_minus_1)

lemma tag_type_PackTag [simp]: "ucast (PackTag seq type AND 0xff) = type"
  by (rule bit_word_eqI) (simp only: mask_0xff, simp add: bit_simps PackTag_bits)

lemma kMaxSequenceNumber_bits: "seq \<le> kMaxSequenceNumber \<Longrightarrow> bit seq n \<Longrightarrow> n < 56"
proof -
  assume "seq \<le> kMaxSequenceNumber" and b: "bit seq n"
  then have "unat seq \<le> 2 ^ 56 - 1" by (simp add: kMaxSequenceNumber_def word_le_nat_alt)
  then have "unat seq < 2 ^ 56" by simp
  then have "take_bit 56 seq = seq"
    by (metis take_bit_nat_eq_self unsigned_take_bit_eq word_unat_eq_iff)
  with b show "n < 56" by (metis bit_take_bit_iff)
qed

lemma tag_seq_PackTag:
  "seq \<le> kMaxSequenceNumber \<Longrightarrow> drop_bit 8 (PackTag seq type) = seq"
  by (rule bit_word_eqI) (auto simp: bit_simps PackTag_bits dest: kMaxSequenceNumber_bits)

text \<open>A tag read as a number: the sequence number counts in steps of 256.\<close>

lemma unat_tag: "unat (t :: u64) = unat (drop_bit 8 t) * 256 + unat (ucast (t AND 0xff) :: byte)"
proof -
  have "unat (ucast (t AND 0xff) :: byte) = unat t mod 256"
    by (simp only: mask_0xff) (simp add: unsigned_ucast_eq take_bit_eq_mod unat_mod flip: take_bit_eq_mask)
  moreover have "unat (drop_bit 8 t) = unat t div 256"
    by (simp add: drop_bit_eq_div unat_div)
  ultimately show ?thesis by simp
qed

lemma unat_PackTag:
  "seq \<le> kMaxSequenceNumber \<Longrightarrow> unat (PackTag seq type) = unat seq * 256 + unat type"
  using unat_tag [of "PackTag seq type"] by (simp add: tag_seq_PackTag)

section \<open>Encoding and decoding\<close>

lemma EncodeInternalKey_eq: "EncodeInternalKey k seq type = k @ fixed64 (PackTag seq type)"
  by (simp add: EncodeInternalKey_def PutFixed64_def)

lemma length_EncodeInternalKey [simp, len]: "length (EncodeInternalKey k seq type) = length k + 8"
  by (simp add: EncodeInternalKey_eq)

lemma ikey_ok_Encode [simp]: "ikey_ok (EncodeInternalKey k seq type)"
  by (simp add: ikey_ok_def kTagSize_def)

lemma ExtractUserKey_Encode [simp, codec]: "ExtractUserKey (EncodeInternalKey k seq type) = k"
  by (simp add: ExtractUserKey_def EncodeInternalKey_eq kTagSize_def)

lemma ExtractTag_Encode [simp, codec]:
  "ExtractTag (EncodeInternalKey k seq type) = PackTag seq type"
  using DecodeFixed64_append [of "PackTag seq type" "[]"]
  by (simp add: ExtractTag_def EncodeInternalKey_eq kTagSize_def)

lemma ikey_of_Encode [simp, codec]:
  "ikey_of (EncodeInternalKey k seq type) = IKey k (PackTag seq type)"
  by (simp add: ikey_of_def)

lemma ExtractSequence_Encode [simp, codec]:
  "seq \<le> kMaxSequenceNumber \<Longrightarrow> ExtractSequence (EncodeInternalKey k seq type) = seq"
  by (simp add: ExtractSequence_def tag_seq_PackTag)

lemma ExtractValueType_Encode [simp, codec]:
  "ExtractValueType (EncodeInternalKey k seq type) = type"
  by (simp add: ExtractValueType_def)

lemma ikey_split: "ikey_ok k \<Longrightarrow> k = ExtractUserKey k @ fixed64 (ExtractTag k)"
  by (simp add: ikey_ok_def ExtractUserKey_def ExtractTag_def fixed64_Decode kTagSize_def)

text \<open>On keys that satisfy the assertion the reading as a pair loses nothing.\<close>

lemma ikey_of_inject: "ikey_ok a \<Longrightarrow> ikey_ok b \<Longrightarrow> ikey_of a = ikey_of b \<Longrightarrow> a = b"
  by (metis ikey_of_sel(1,2) ikey_split)

lemma length_ExtractUserKey [len]: "ikey_ok k \<Longrightarrow> length k = length (ExtractUserKey k) + 8"
  by (simp add: ikey_ok_def ExtractUserKey_def kTagSize_def)

section \<open>The stack-built lookup key\<close>

lemma LookupKeyBuffer_eq:
  assumes "length inline_buf = kInlineCapacity"
  shows "LookupKeyBuffer inline_buf k seq type = EncodeInternalKey k seq type"
  using assms by (auto simp: LookupKeyBuffer_def Let_def memcpy_def EncodeInternalKey_eq
      kTagSize_def kInlineCapacity_def)

section \<open>What a lookup key separates\<close>

text \<open>The tags the engine writes: type 0 or 1.\<close>

definition type_ok :: "ValueType \<Rightarrow> bool" where
  "type_ok t \<longleftrightarrow> t = kDeletion \<or> t = kValue"

lemma type_ok_unat: "type_ok t \<Longrightarrow> unat t \<le> 1"
  by (auto simp: type_ok_def kDeletion_def kValue_def)

lemma tag_le_lookup:
  assumes "type_ok (ucast (t AND 0xff))" and "seq \<le> kMaxSequenceNumber"
  shows "t \<le> PackTag seq kValue \<longleftrightarrow> drop_bit 8 t \<le> seq"
proof -
  have "unat t \<le> unat (PackTag seq kValue) \<longleftrightarrow> unat (drop_bit 8 t) \<le> unat seq"
    using unat_tag [of t] type_ok_unat [OF assms(1)] assms(2)
    by (simp add: unat_PackTag kValue_def) linarith
  then show ?thesis by (simp add: word_le_nat_alt)
qed

lemma lookup_le_ikey:
  assumes "type_ok (itype x)" and "seq \<le> kMaxSequenceNumber"
  shows "\<not> x < IKey k (PackTag seq kValue) \<longleftrightarrow> k < iuser x \<or> k = iuser x \<and> iseq x \<le> seq"
  using tag_le_lookup [of "itag x" seq] assms
  by (auto simp: less_ikey_def itype_def iseq_def not_less)


section \<open>Properties\<close>

text \<open>C3. An internal key gives back the user key, the sequence number and the value type it was
  built from, for every sequence number up to the 56-bit maximum, and the buffer that
  builds it on the stack or on the heap produces the same bytes.\<close>

theorem internal_key_round_trip:
  assumes "seq \<le> kMaxSequenceNumber" and "length inline_buf = kInlineCapacity"
  shows "ExtractUserKey (LookupKeyBuffer inline_buf k seq type) = k \<and>
    ExtractSequence (LookupKeyBuffer inline_buf k seq type) = seq \<and>
    ExtractValueType (LookupKeyBuffer inline_buf k seq type) = type \<and>
    LookupKeyBuffer inline_buf k seq type = EncodeInternalKey k seq type"
  using assms by (simp add: LookupKeyBuffer_eq)

theorem internal_key_round_trip_witness:
  "ExtractSequence (LookupKeyBuffer (replicate 200 7) [97, 98] 5 kValue) = 5"
  using internal_key_round_trip [of 5 "replicate 200 7" "[97, 98]" kValue]
  by (simp add: kMaxSequenceNumber_def kInlineCapacity_def)

text \<open>C2. The comparator orders by user key first and, for one user key, newer sequence numbers
  before older ones; it reports equality only for identical keys.\<close>

theorem newest_version_sorts_first:
  assumes "s \<le> kMaxSequenceNumber" "s' \<le> kMaxSequenceNumber"
  shows "(CompareInternalKey (EncodeInternalKey k s t) (EncodeInternalKey k' s' t') < 0 \<longleftrightarrow>
      k < k' \<or> k = k' \<and> (s' < s \<or> s = s' \<and> t' < t)) \<and>
    (CompareInternalKey (EncodeInternalKey k s t) (EncodeInternalKey k' s' t') = 0 \<longleftrightarrow>
      k = k' \<and> s = s' \<and> t = t')"
proof -
  have bounds: "unat t < 2 ^ LENGTH(8)" "unat t' < 2 ^ LENGTH(8)"
    by (rule unsigned_less)+
  have "PackTag s' t' < PackTag s t \<longleftrightarrow> unat s' * 256 + unat t' < unat s * 256 + unat t"
    by (simp add: word_less_nat_alt unat_PackTag assms)
  also have "\<dots> \<longleftrightarrow> unat s' < unat s \<or> unat s = unat s' \<and> unat t' < unat t"
    using bounds by auto
  finally have "PackTag s' t' < PackTag s t \<longleftrightarrow> s' < s \<or> s = s' \<and> t' < t"
    by (simp add: word_less_nat_alt word_unat_eq_iff)
  moreover have "PackTag s t = PackTag s' t' \<longleftrightarrow> s = s' \<and> t = t'"
    by (metis assms tag_seq_PackTag tag_type_PackTag)
  ultimately show ?thesis
    by (simp add: key_order less_ikey_def)
qed

theorem newest_version_sorts_first_witness:
  "CompareInternalKey (EncodeInternalKey [97] 9 kDeletion) (EncodeInternalKey [97] 8 kValue) < 0"
  using newest_version_sorts_first [of 9 8 "[97]" kDeletion "[97]" kValue]
  by (simp add: kMaxSequenceNumber_def)

text \<open>C1. Seeking to a lookup key separates the versions a reader may see from those it may not:
  among the stored versions of the key, exactly those with a sequence number at or below
  the reader's sort at or after the lookup key.\<close>

theorem lookup_key_separates_visible:
  assumes "type_ok t" "s \<le> kMaxSequenceNumber" "seq \<le> kMaxSequenceNumber"
  shows "0 \<le> CompareInternalKey (EncodeInternalKey k s t) (LookupKey k seq) \<longleftrightarrow> s \<le> seq"
proof -
  have "\<not> IKey k (PackTag s t) < IKey k (PackTag seq kValue) \<longleftrightarrow> s \<le> seq"
    using lookup_le_ikey [of "IKey k (PackTag s t)" seq k] assms
    by (simp add: itype_def iseq_def tag_seq_PackTag)
  then show ?thesis
    by (simp add: LookupKey_def key_order flip: not_less)
qed

theorem lookup_key_separates_visible_witness:
  "0 \<le> CompareInternalKey (EncodeInternalKey [97] 4 kDeletion) (LookupKey [97] 4)"
  using lookup_key_separates_visible [of kDeletion 4 4 "[97]"]
  by (simp add: kMaxSequenceNumber_def type_ok_def)

end
