(* ===== verification/Versions.thy ===== *)
theory Versions
  imports Status Internal_Key
begin

text \<open>
  The specification that every lookup and every cursor of the engine is held
  against. A version is an internal key with its value; a sorted source (memtable,
  block, table, level, merge) is a list of versions in internal key order.

  \<open>resolves S key seq r\<close> says what a lookup of \<open>key\<close> at sequence number \<open>seq\<close>
  may answer when the versions in reach are the set \<open>S\<close>: the newest version that
  is not newer than \<open>seq\<close>, its tombstone read as "deleted", or nothing when no
  version is visible. \<open>seek_lookup\<close> is the way the code finds it in a sorted
  source, and the main lemma of this theory is that the two agree.
\<close>

section \<open>Sorted sources\<close>

type_synonym version = "bytes \<times> bytes"

text \<open>The entries a seek to \<open>target\<close> skips.\<close>

abbreviation below :: "bytes \<Rightarrow> version \<Rightarrow> bool" where
  "below target e \<equiv> ikey_of (fst e) < ikey_of target"

definition keys_sorted :: "version list \<Rightarrow> bool" where
  "keys_sorted es \<longleftrightarrow> sorted_wrt (\<lambda>a b. ikey_of (fst a) < ikey_of (fst b)) es"

lemma keys_sorted_Nil [simp]: "keys_sorted []"
  by (simp add: keys_sorted_def)

lemma keys_sorted_append:
  "keys_sorted (xs @ ys) \<longleftrightarrow> keys_sorted xs \<and> keys_sorted ys \<and>
     (\<forall>x \<in> set xs. \<forall>y \<in> set ys. ikey_of (fst x) < ikey_of (fst y))"
  by (auto simp: keys_sorted_def sorted_wrt_append)

lemma keys_sorted_Cons:
  "keys_sorted (x # xs) \<longleftrightarrow> keys_sorted xs \<and> (\<forall>y \<in> set xs. ikey_of (fst x) < ikey_of (fst y))"
  by (auto simp: keys_sorted_def)

lemma keys_sorted_distinct: "keys_sorted es \<Longrightarrow> distinct (map (ikey_of \<circ> fst) es)"
  by (induction es) (auto simp: keys_sorted_Cons)

text \<open>Sorted sources in which internal keys may repeat.\<close>

definition keys_le :: "version list \<Rightarrow> bool" where
  "keys_le es \<longleftrightarrow> sorted (map (ikey_of \<circ> fst) es)"

lemma keys_sorted_le: "keys_sorted es \<Longrightarrow> keys_le es"
  unfolding keys_sorted_def keys_le_def sorted_map by (auto elim!: sorted_wrt_mono_rel [rotated])

lemma takeWhile_below_skip:
  assumes "keys_sorted es" "i < length es" "i = 0 \<or> below target (es ! i)"
  shows "i + length (takeWhile (below target) (drop i es)) = length (takeWhile (below target) es)"
proof -
  have "below target e" if e: "e \<in> set (take i es)" for e
  proof -
    obtain j where j: "j < i" "e = es ! j" using e assms(2) by (auto simp: in_set_conv_nth)
    then have "ikey_of (fst e) < ikey_of (fst (es ! i))"
      using assms(1,2) by (simp add: keys_sorted_def sorted_wrt_iff_nth_less)
    with assms(3) j show ?thesis by auto
  qed
  then have "takeWhile (below target) (take i es @ drop i es) =
      take i es @ takeWhile (below target) (drop i es)"
    by (rule takeWhile_append2)
  then show ?thesis using assms(2) by simp
qed

lemma dropWhile_below_filter:
  "keys_sorted es \<Longrightarrow> dropWhile (below target) es = filter (\<lambda>e. \<not> below target e) es"
proof (induction es)
  case (Cons e es)
  show ?case
  proof (cases "below target e")
    case True
    then show ?thesis using Cons by (simp add: keys_sorted_Cons)
  next
    case False
    with Cons.prems have "\<forall>x \<in> set es. \<not> below target x" by (fastforce simp: keys_sorted_Cons)
    with False show ?thesis by (simp add: filter_id_conv)
  qed
qed simp

section \<open>Sources made of runs\<close>

text \<open>
  A table is a sequence of blocks and a level a sequence of files, each a
  non-empty run. A binary search for the first run whose last key is not below
  the target finds the run a seek in the whole source would end in.
\<close>

lemma concat_split: "i < length ess \<Longrightarrow> concat ess = concat (take i ess) @ ess ! i @ concat (drop (Suc i) ess)"
  by (metis append_take_drop_id concat.simps(2) concat_append Cons_nth_drop_Suc)

lemma keys_sorted_nth_mono:
  assumes "keys_sorted (concat ess)" "i < j" "j < length ess" "x \<in> set (ess ! i)" "y \<in> set (ess ! j)"
  shows "ikey_of (fst x) < ikey_of (fst y)"
proof -
  have "ess ! i \<in> set (take j ess)" using assms(2,3) by (auto simp: in_set_conv_nth)
  then have "x \<in> set (concat (take j ess))" using assms(4) by auto
  moreover have "keys_sorted (concat (take j ess) @ ess ! j @ concat (drop (Suc j) ess))"
    using assms(1) concat_split [OF assms(3)] by simp
  ultimately show ?thesis using assms(5) by (auto simp: keys_sorted_append)
qed

lemma keys_sorted_last: "keys_sorted es \<Longrightarrow> x \<in> set es \<Longrightarrow> ikey_of (fst x) \<le> ikey_of (fst (last es))"
proof -
  assume a: "keys_sorted es" "x \<in> set es"
  then obtain ys where ys: "es = ys @ [last es]" by (metis append_butlast_last_id empty_iff list.set(1))
  have "x \<in> set ys \<Longrightarrow> ikey_of (fst x) < ikey_of (fst (last es))"
    using a(1) ys by (metis keys_sorted_append list.set_intros(1))
  then show ?thesis using a(2) ys by (metis Un_iff empty_iff insert_iff le_less list.set(1) list.set(2) set_append)
qed

lemma runs_seek:
  assumes srt: "keys_sorted (concat ess)" and ne: "\<And>i. i < length ess \<Longrightarrow> ess ! i \<noteq> []"
    and P: "\<And>i. i < length ess \<Longrightarrow> P i \<longleftrightarrow> below target (last (ess ! i))"
  shows "bisect P 0 (length ess) \<le> length ess \<and> dropWhile (below target) (concat ess) =
    (if bisect P 0 (length ess) < length ess
     then dropWhile (below target) (ess ! bisect P 0 (length ess)) @ concat (drop (Suc (bisect P 0 (length ess))) ess) else []) \<and>
    (bisect P 0 (length ess) < length ess \<longrightarrow> dropWhile (below target) (ess ! bisect P 0 (length ess)) \<noteq> [])"
proof -
  define n where "n = bisect P 0 (length ess)"
  have le: "ikey_of (fst (last (ess ! i))) \<le> ikey_of (fst (last (ess ! j)))" if "i \<le> j" "j < length ess" for i j
    using that keys_sorted_nth_mono [OF srt, of i j "last (ess ! i)" "last (ess ! j)"] ne by (cases "i = j") auto
  have mono: "\<forall>i j. i \<le> j \<longrightarrow> j < length ess \<longrightarrow> P j \<longrightarrow> P i" using P le by (meson le_less_trans order_le_less_trans)
  have b: "n \<le> length ess" "\<And>i. i < n \<Longrightarrow> P i" "\<And>i. n \<le> i \<Longrightarrow> i < length ess \<Longrightarrow> \<not> P i"
    using bisect_spec [OF mono, folded n_def] by blast+
  then have n: "n \<le> length ess" "\<And>i. i < n \<Longrightarrow> below target (last (ess ! i))"
    "\<And>i. n \<le> i \<Longrightarrow> i < length ess \<Longrightarrow> \<not> below target (last (ess ! i))"
    using P by (simp_all add: order_less_le_trans [OF _ b(1)])
  have bs: "keys_sorted (ess ! i)" if "i < length ess" for i
    using srt concat_split [OF that] by (simp add: keys_sorted_append)
  have "below target x" if x: "x \<in> set (concat (take n ess))" for x
  proof -
    from x obtain es where "es \<in> set (take n ess)" "x \<in> set es" by auto
    then obtain i where i: "i < n" "i < length ess" "x \<in> set (ess ! i)"
      using n(1) by (auto simp: in_set_conv_nth [of es])
    then show ?thesis using keys_sorted_last [OF bs [OF i(2)] i(3)] n(2) [OF i(1)] by simp
  qed
  then have d: "dropWhile (below target) (concat (take n ess) @ ys) = dropWhile (below target) ys" for ys
    by (rule dropWhile_append2)
  show ?thesis
  proof (cases "n < length ess")
    case True
    have "last (ess ! n) \<in> set (ess ! n)" "\<not> below target (last (ess ! n))" using True ne n(3) by auto
    then have "dropWhile (below target) (ess ! n @ ys) = dropWhile (below target) (ess ! n) @ ys" for ys
      by (rule dropWhile_append1)
    moreover have "dropWhile (below target) (ess ! n) \<noteq> []"
      using \<open>last (ess ! n) \<in> set (ess ! n)\<close> \<open>\<not> below target (last (ess ! n))\<close> by (auto simp: dropWhile_eq_Nil_conv)
    ultimately show ?thesis unfolding n_def [symmetric] using True d concat_split [OF True] by simp
  next
    case False
    then show ?thesis unfolding n_def [symmetric] using n(1) d [of "[]"] by simp
  qed
qed


section \<open>Stored versions\<close>

text \<open>The keys the engine stores: long enough for a tag, with a known value type.\<close>

definition version_ok :: "version \<Rightarrow> bool" where
  "version_ok e \<longleftrightarrow> ikey_ok (fst e) \<and> type_ok (ExtractValueType (fst e))"

definition versions_ok :: "version list \<Rightarrow> bool" where
  "versions_ok es \<longleftrightarrow> keys_sorted es \<and> (\<forall>e \<in> set es. version_ok e)"

section \<open>What a lookup answers\<close>

text \<open>
  The \<open>bool\<close> result and the two output parameters of the Get functions:
  \<open>None\<close> is \<open>false\<close>, "keep looking"; \<open>Found v\<close> an OK status with the value;
  \<open>Deleted\<close> a NotFound status; \<open>Failed s\<close> any other status.
\<close>

datatype lookup = Found bytes | Deleted | Failed status

definition answer :: "version \<Rightarrow> lookup" where
  "answer e = (if ExtractValueType (fst e) = kDeletion then Deleted else Found (snd e))"

definition visible :: "version set \<Rightarrow> bytes \<Rightarrow> SequenceNumber \<Rightarrow> version set" where
  "visible S key seq = {e \<in> S. ExtractUserKey (fst e) = key \<and> ExtractSequence (fst e) \<le> seq}"

definition newest :: "version set \<Rightarrow> bytes \<Rightarrow> SequenceNumber \<Rightarrow> version \<Rightarrow> bool" where
  "newest S key seq e \<longleftrightarrow> e \<in> visible S key seq \<and>
     (\<forall>e' \<in> visible S key seq. ExtractSequence (fst e') \<le> ExtractSequence (fst e))"

definition resolves :: "version set \<Rightarrow> bytes \<Rightarrow> SequenceNumber \<Rightarrow> lookup option \<Rightarrow> bool" where
  "resolves S key seq r \<longleftrightarrow>
     (case r of None \<Rightarrow> visible S key seq = {}
      | Some a \<Rightarrow> \<exists>e. newest S key seq e \<and> a = answer e)"

lemma visible_Un: "visible (S \<union> T) key seq = visible S key seq \<union> visible T key seq"
  by (auto simp: visible_def)

lemma resolves_None [simp]: "resolves S key seq None \<longleftrightarrow> visible S key seq = {}"
  by (simp add: resolves_def)

lemma resolves_skip: "visible S key seq = {} \<Longrightarrow> resolves (S \<union> T) key seq r \<longleftrightarrow> resolves T key seq r"
  by (simp add: resolves_def newest_def visible_Un split: option.split)

text \<open>
  Sources searched from newer to older: an answer found in the newer one is the
  answer of the union when the older one holds nothing newer for the key.
\<close>

definition shadows :: "version set \<Rightarrow> version set \<Rightarrow> bool" where
  "shadows S T \<longleftrightarrow> (\<forall>e \<in> S. \<forall>e' \<in> T. ExtractUserKey (fst e) = ExtractUserKey (fst e') \<longrightarrow>
     ExtractSequence (fst e') \<le> ExtractSequence (fst e))"

lemma resolves_shadow:
  assumes "resolves S key seq (Some a)" "shadows S T"
  shows "resolves (S \<union> T) key seq (Some a)"
proof -
  obtain e where e: "newest S key seq e" "a = answer e" using assms(1) by (auto simp: resolves_def)
  then have "newest (S \<union> T) key seq e"
    using assms(2) unfolding newest_def visible_Un by (fastforce simp: visible_def shadows_def)
  with e show ?thesis unfolding resolves_def by (simp del: split_paired_Ex) blast
qed

text \<open>With one version per user key and sequence number the answer is unique.\<close>

definition unique_versions :: "version set \<Rightarrow> bool" where
  "unique_versions S \<longleftrightarrow> (\<forall>e \<in> S. \<forall>e' \<in> S. ExtractUserKey (fst e) = ExtractUserKey (fst e') \<longrightarrow>
     ExtractSequence (fst e) = ExtractSequence (fst e') \<longrightarrow> e = e')"

lemma resolves_unique:
  assumes "resolves S key seq r" "resolves S key seq r'" "unique_versions S"
  shows "r = r'"
proof (cases "visible S key seq = {}")
  case True
  then show ?thesis using assms(1,2) by (auto simp: resolves_def newest_def split: option.splits)
next
  case False
  then obtain e e' where "newest S key seq e" "r = Some (answer e)" "newest S key seq e'" "r' = Some (answer e')"
    using assms(1,2) by (auto simp: resolves_def split: option.splits)
  moreover from this have "e \<in> visible S key seq" "e' \<in> visible S key seq"
      "ExtractSequence (fst e) = ExtractSequence (fst e')"
    unfolding newest_def by (blast, blast, meson antisym)
  then have "e = e'" using assms(3) by (simp add: visible_def unique_versions_def)
  ultimately show ?thesis by simp
qed

section \<open>Looking up in a sorted source\<close>

definition seek_lookup :: "version list \<Rightarrow> bytes \<Rightarrow> SequenceNumber \<Rightarrow> lookup option" where
  "seek_lookup es key seq =
     (case dropWhile (below (LookupKey key seq)) es of
        [] \<Rightarrow> None
      | e # _ \<Rightarrow> if ExtractUserKey (fst e) \<noteq> key then None else Some (answer e))"

lemma below_LookupKey:
  assumes "version_ok e" "seq \<le> kMaxSequenceNumber"
  shows "\<not> below (LookupKey key seq) e \<longleftrightarrow>
    key < ExtractUserKey (fst e) \<or> key = ExtractUserKey (fst e) \<and> ExtractSequence (fst e) \<le> seq"
  using lookup_le_ikey [of "ikey_of (fst e)" seq key] assms
  by (simp add: LookupKey_def version_ok_def)

lemma sorted_user_seq:
  assumes "ikey_of a < ikey_of b"
  shows "ExtractUserKey a \<le> ExtractUserKey b \<and>
    (ExtractUserKey a = ExtractUserKey b \<longrightarrow> ExtractSequence b \<le> ExtractSequence a)"
proof -
  have "drop_bit 8 t \<le> (drop_bit 8 t' :: u64)" if "t < t'" for t t' :: u64
    using that by (auto simp: word_less_nat_alt word_le_nat_alt drop_bit_eq_div unat_div div_le_mono)
  then show ?thesis using assms by (auto simp: less_ikey_def ikey_of_def ExtractSequence_def)
qed

lemma seek_lookup_resolves:
  assumes "versions_ok es" "seq \<le> kMaxSequenceNumber"
  shows "resolves (set es) key seq (seek_lookup es key seq)"
proof -
  let ?b = "below (LookupKey key seq)"
  have ok: "\<And>e. e \<in> set es \<Longrightarrow> version_ok e" and srt: "keys_sorted es"
    using assms(1) by (auto simp: versions_ok_def)
  have vis: "visible (set es) key seq = {e \<in> set (dropWhile ?b es). ExtractUserKey (fst e) = key}"
    unfolding dropWhile_below_filter [OF srt] visible_def
    using below_LookupKey [OF ok assms(2)] by auto
  show ?thesis
  proof (cases "dropWhile ?b es")
    case Nil
    have "visible (set es) key seq = {}" unfolding vis Nil by simp
    then show ?thesis unfolding seek_lookup_def Nil by simp
  next
    case (Cons e rest)
    have e: "e \<in> set es" "\<not> ?b e"
      using Cons set_dropWhileD [of e ?b es] hd_dropWhile [of ?b es] by simp_all
    have "keys_sorted (e # rest)"
      using srt unfolding Cons [symmetric] dropWhile_below_filter [OF srt]
      by (simp add: keys_sorted_def sorted_wrt_filter)
    then have after: "ExtractUserKey (fst e) \<le> ExtractUserKey (fst x) \<and>
        (ExtractUserKey (fst e) = ExtractUserKey (fst x) \<longrightarrow>
         ExtractSequence (fst x) \<le> ExtractSequence (fst e))" if "x \<in> set rest" for x
      using that by (intro sorted_user_seq) (simp add: keys_sorted_Cons)
    show ?thesis
    proof (cases "ExtractUserKey (fst e) = key")
      case True
      have "newest (set es) key seq e"
        unfolding newest_def vis Cons using True after by (auto simp del: split_paired_All)
      then show ?thesis unfolding seek_lookup_def Cons resolves_def using True
        by (simp del: split_paired_Ex) blast
    next
      case False
      have "key < ExtractUserKey (fst e)"
        using below_LookupKey [OF ok [OF e(1)] assms(2)] e(2) False by blast
      then have "visible (set es) key seq = {}"
        unfolding vis Cons using after by (auto simp del: split_paired_All simp: not_le [symmetric])
      then show ?thesis unfolding seek_lookup_def Cons using False by simp
    qed
  qed
qed

end
