(* ===== verification/Cursor.thy ===== *)
theory Cursor
  imports Versions
begin

text \<open>
  The contract of \<open>include/lsm/iterator.h\<close>, "uniform cursor over a sorted
  sequence of (internal key, value) pairs", as a locale. Memtable, table, level
  and merging cursors are shown to satisfy it, and the range scan relies on
  nothing else.

  A cursor has a state \<open>'s\<close> and works in an environment \<open>'e\<close> that all cursors of
  a read share (block cache and system calls). \<open>opened s es\<close> says that \<open>s\<close> is a
  cursor over the versions \<open>es\<close> that has not failed; \<open>rep s es rest\<close> that it also
  stands at the head of \<open>rest\<close>, what is left of \<open>es\<close>; \<open>err s n\<close> that a read has
  failed, which its status says from then on, and that at most \<open>n\<close> more entries
  will come: a merge goes on with the children that are left. \<open>good e\<close> is the
  invariant of the environment and \<open>quiet e\<close> says that no system call will fail.
  Seek targets are shorter than 4 GiB, as the length prefixes of the formats
  require. Equal internal keys may repeat: a merge keeps the order of its
  children for them.
\<close>

locale cursor =
  fixes good quiet :: "'e \<Rightarrow> bool"
    and opened :: "'s \<Rightarrow> version list \<Rightarrow> bool"
    and rep :: "'s \<Rightarrow> version list \<Rightarrow> version list \<Rightarrow> bool"
    and err :: "'s \<Rightarrow> nat \<Rightarrow> bool"
    and valid :: "'s \<Rightarrow> bool"
    and key :: "'s \<Rightarrow> bytes"
    and val :: "'s \<Rightarrow> bytes"
    and stat :: "'s \<Rightarrow> status"
    and first :: "'e \<Rightarrow> 's \<Rightarrow> 'e \<times> 's"
    and seek :: "'e \<Rightarrow> 's \<Rightarrow> bytes \<Rightarrow> 'e \<times> 's"
    and step :: "'e \<Rightarrow> 's \<Rightarrow> 'e \<times> 's"
  assumes rep_opened: "rep s es rest \<Longrightarrow> opened s es"
    and opened_sorted: "opened s es \<Longrightarrow> keys_le es"
    and rep_suffix: "rep s es rest \<Longrightarrow> \<exists>used. es = used @ rest"
    and rep_valid: "rep s es rest \<Longrightarrow> valid s \<longleftrightarrow> rest \<noteq> []"
    and rep_head: "rep s es (x # rest) \<Longrightarrow> key s = fst x \<and> val s = snd x"
    and rep_stat: "rep s es rest \<Longrightarrow> ok (stat s)"
    and err_stat: "err s n \<Longrightarrow> \<not> ok (stat s) \<and> (valid s \<longrightarrow> 0 < n)"
    and first_rep: "good e \<Longrightarrow> opened s es \<Longrightarrow> first e s = (e', s') \<Longrightarrow>
      good e' \<and> (quiet e \<longrightarrow> quiet e') \<and> (rep s' es es \<or> err s' (length es) \<and> \<not> quiet e)"
    and seek_rep: "good e \<Longrightarrow> opened s es \<Longrightarrow> length t < 2 ^ 32 \<Longrightarrow> seek e s t = (e', s') \<Longrightarrow>
      good e' \<and> (quiet e \<longrightarrow> quiet e') \<and>
      (rep s' es (dropWhile (below t) es) \<or> err s' (length (dropWhile (below t) es)) \<and> \<not> quiet e)"
    and step_rep: "good e \<Longrightarrow> rep s es (x # rest) \<Longrightarrow> step e s = (e', s') \<Longrightarrow>
      good e' \<and> (quiet e \<longrightarrow> quiet e') \<and> (rep s' es rest \<or> err s' (length rest) \<and> \<not> quiet e)"
    and step_err: "good e \<Longrightarrow> err s n \<Longrightarrow> valid s \<Longrightarrow> step e s = (e', s') \<Longrightarrow>
      good e' \<and> (quiet e \<longrightarrow> quiet e') \<and> err s' (n - 1)"
begin

text \<open>
  Draining a cursor: the loop \<open>for (; it.Valid(); it.Next())\<close>, with a bound on
  the number of rounds. The result is what was seen and where the cursor ended.
\<close>

fun drain :: "nat \<Rightarrow> 'e \<Rightarrow> 's \<Rightarrow> version list \<times> 'e \<times> 's" where
  "drain 0 e s = ([], e, s)"
| "drain (Suc n) e s =
     (if \<not> valid s then ([], e, s)
      else let (e', s') = step e s; (xs, e'', s'') = drain n e' s' in ((key s, val s) # xs, e'', s''))"

lemma err_drain:
  "good e \<Longrightarrow> err s m \<Longrightarrow> m \<le> n \<Longrightarrow> drain n e s = (xs, e', s') \<Longrightarrow>
     good e' \<and> \<not> valid s' \<and> \<not> ok (stat s') \<and> (quiet e \<longrightarrow> quiet e')"
proof (induction n arbitrary: e s m xs)
  case 0
  then show ?case using err_stat [OF "0.prems"(2)] by auto
next
  case (Suc n)
  show ?case
  proof (cases "valid s")
    case True
    obtain e1 s1 where s1: "step e s = (e1, s1)" by force
    obtain ys where ys: "drain n e1 s1 = (ys, e', s')" using Suc.prems(4) True s1 by (auto split: prod.splits)
    note st = step_err [OF Suc.prems(1,2) True s1]
    have "m - 1 \<le> n" using Suc.prems(3) by simp
    from Suc.IH [OF _ _ this ys] st show ?thesis by blast
  qed (use Suc.prems err_stat [OF Suc.prems(2)] in auto)
qed

text \<open>
  A loop that runs to the end of a cursor has seen all that was left, or the
  status reports the failure.
\<close>

lemma drain_rep:
  "good e \<Longrightarrow> rep s es rest \<Longrightarrow> length rest \<le> n \<Longrightarrow> drain n e s = (xs, e', s') \<Longrightarrow>
     good e' \<and> \<not> valid s' \<and> (ok (stat s') \<longrightarrow> xs = rest) \<and> (quiet e \<longrightarrow> quiet e' \<and> ok (stat s'))"
proof (induction rest arbitrary: n e s xs)
  case Nil
  have "\<not> valid s" "ok (stat s)" using rep_valid [OF Nil.prems(2)] rep_stat [OF Nil.prems(2)] by simp_all
  with Nil.prems show ?case by (cases n) auto
next
  case (Cons x rest)
  then obtain m where n: "n = Suc m" by (cases n) auto
  obtain e1 s1 where s1: "step e s = (e1, s1)" by force
  obtain ys where ys: "drain m e1 s1 = (ys, e', s')" "xs = (key s, val s) # ys"
    using Cons.prems n s1 by (auto dest: rep_valid split: prod.splits)
  have x: "(key s, val s) = x" using rep_head [OF Cons.prems(2)] by simp
  from step_rep [OF Cons.prems(1,2) s1] have g: "good e1" "quiet e \<longrightarrow> quiet e1"
    and r: "rep s1 es rest \<or> err s1 (length rest) \<and> \<not> quiet e" by auto
  from r show ?case
  proof
    assume "rep s1 es rest"
    from Cons.IH [OF g(1) this _ ys(1)] Cons.prems(3) n g x ys(2) show ?thesis by auto
  next
    assume e: "err s1 (length rest) \<and> \<not> quiet e"
    have "length rest \<le> m" using Cons.prems(3) n by simp
    from err_drain [OF g(1) conjunct1 [OF e] this ys(1)] e show ?thesis by simp
  qed
qed

end

text \<open>A cursor over one source yields nothing after a failure, so what it has yielded is right.\<close>

locale strict_cursor = cursor +
  assumes err_invalid: "err s n \<Longrightarrow> \<not> valid s"
begin

lemma drain_prefix:
  "good e \<Longrightarrow> rep s es rest \<Longrightarrow> drain n e s = (xs, e', s') \<Longrightarrow> prefix xs rest"
proof (induction n arbitrary: e s rest xs)
  case (Suc n)
  show ?case
  proof (cases rest)
    case Nil
    then show ?thesis using Suc.prems rep_valid [OF Suc.prems(2)] by simp
  next
    case (Cons x rest')
    obtain e1 s1 where s1: "step e s = (e1, s1)" by force
    obtain ys where ys: "drain n e1 s1 = (ys, e', s')" "xs = (key s, val s) # ys"
      using Suc.prems Cons s1 by (auto dest: rep_valid split: prod.splits)
    have x: "(key s, val s) = x" using rep_head [OF Suc.prems(2) [unfolded Cons]] by simp
    have g: "good e1" "rep s1 es rest' \<or> err s1 (length rest')"
      using step_rep [OF Suc.prems(1) Suc.prems(2) [unfolded Cons] s1] by auto
    from g(2) have "prefix ys rest'"
    proof
      assume "err s1 (length rest')"
      then have "\<not> valid s1" by (rule err_invalid)
      then show ?thesis using ys(1) by (cases n) auto
    qed (rule Suc.IH [OF g(1) _ ys(1)])
    then show ?thesis using Cons ys(2) x by simp
  qed
qed simp

end

end
