(* ===== verification/Block.thy ===== *)
theory Block
  imports Cursor
begin

text \<open>
  \<open>src/block.cpp\<close> and \<open>include/lsm/block.h\<close>: prefix-compressed data blocks. The
  builder appends entries and records restart points; the reader is a cursor
  that decodes forward from a restart point. The reader's borrowed pointers are
  the block contents and offsets into them.
\<close>

section \<open>BlockBuilder\<close>

record BlockBuilder =
  bb_restart_interval :: int
  bb_buffer :: bytes
  bb_restarts :: "u32 list"
  bb_last_key :: bytes
  bb_since_restart :: int
  bb_entries :: int

definition new_BlockBuilder :: "int \<Rightarrow> BlockBuilder" where
  "new_BlockBuilder restart_interval =
     \<lparr>bb_restart_interval = (if restart_interval < 1 then 1 else restart_interval),
      bb_buffer = [], bb_restarts = [0], bb_last_key = [], bb_since_restart = 0,
      bb_entries = 0\<rparr>"

text \<open>\<open>while (shared < limit && last_key_[shared] == key[shared]) ++shared\<close>\<close>

fun shared_prefix :: "bytes \<Rightarrow> bytes \<Rightarrow> nat" where
  "shared_prefix (a # as) (b # bs) = (if a = b then Suc (shared_prefix as bs) else 0)"
| "shared_prefix _ _ = 0"

definition bb_Add :: "BlockBuilder \<Rightarrow> bytes \<Rightarrow> bytes \<Rightarrow> BlockBuilder" where
  "bb_Add b key val =
     (let (shared, b) =
        (if bb_since_restart b < bb_restart_interval b
         then (shared_prefix (bb_last_key b) key, b)
         else (0, b\<lparr>bb_restarts := bb_restarts b @ [of_nat (length (bb_buffer b))],
                    bb_since_restart := 0\<rparr>));
        non_shared = length key - shared;
        buffer = PutVarint32 (bb_buffer b) (of_nat shared);
        buffer = PutVarint32 buffer (of_nat non_shared);
        buffer = PutVarint32 buffer (of_nat (length val));
        buffer = buffer @ drop shared key;
        buffer = (if val \<noteq> [] then buffer @ val else buffer)
      in b\<lparr>bb_buffer := buffer, bb_last_key := key,
           bb_since_restart := bb_since_restart b + 1, bb_entries := bb_entries b + 1\<rparr>)"

definition bb_Reset :: "BlockBuilder \<Rightarrow> BlockBuilder" where
  "bb_Reset b = b\<lparr>bb_buffer := [], bb_restarts := [0], bb_last_key := [],
     bb_since_restart := 0, bb_entries := 0\<rparr>"

definition bb_Finish :: "BlockBuilder \<Rightarrow> bytes \<times> BlockBuilder" where
  "bb_Finish b =
     (let buffer = foldl PutFixed32 (bb_buffer b) (bb_restarts b);
          finished = PutFixed32 buffer (of_nat (length (bb_restarts b)))
      in (finished, bb_Reset b))"

definition bb_empty :: "BlockBuilder \<Rightarrow> bool" where
  "bb_empty b \<longleftrightarrow> bb_entries b = 0"

definition CurrentSizeEstimate :: "BlockBuilder \<Rightarrow> nat" where
  "CurrentSizeEstimate b = length (bb_buffer b) + (length (bb_restarts b) + 1) * 4"

section \<open>BlockReader\<close>

text \<open>
  \<open>r_overrun\<close> is not a field of the code: it records that a key or value was
  read past the end of the entry region, which is undefined behaviour. The model
  stops there.
\<close>

record BlockReader =
  r_data :: "bytes option"
  r_entries_size :: u32
  r_num_restarts :: u32
  r_current :: u32
  r_next :: u32
  r_key :: bytes
  r_value :: bytes
  r_valid :: bool
  r_status :: status
  r_overrun :: bool

definition default_BlockReader :: BlockReader where
  "default_BlockReader =
     \<lparr>r_data = None, r_entries_size = 0, r_num_restarts = 0, r_current = 0, r_next = 0,
      r_key = [], r_value = [], r_valid = False, r_status = OK, r_overrun = False\<rparr>"

definition block_data :: "BlockReader \<Rightarrow> bytes" where
  "block_data r = (case r_data r of None \<Rightarrow> [] | Some c \<Rightarrow> c)"

definition RestartOffset :: "BlockReader \<Rightarrow> nat \<Rightarrow> u32" where
  "RestartOffset r index = DecodeFixed32 (drop (unat (r_entries_size r) + index * 4) (block_data r))"

definition new_BlockReader :: "bytes \<Rightarrow> BlockReader" where
  "new_BlockReader contents =
     (let r = default_BlockReader in
      if length contents < 4
      then r\<lparr>r_status := Corruption ''data block shorter than its restart count''\<rparr>
      else let num_restarts = DecodeFixed32 (drop (length contents - 4) contents);
               trailer = (unat num_restarts + 1) * 4
        in if num_restarts = 0 \<or> trailer > length contents
           then r\<lparr>r_status := Corruption ''data block has a malformed restart array''\<rparr>
           else let r = r\<lparr>r_data := Some contents,
                          r_entries_size := of_nat (length contents - trailer),
                          r_num_restarts := num_restarts\<rparr>
             in if \<exists>i \<in> set [0..<unat num_restarts]. RestartOffset r i > r_entries_size r
                then r\<lparr>r_status := Corruption ''data block restart offset out of range'',
                       r_data := None\<rparr>
                else r)"

definition ParseEntryAt :: "BlockReader \<Rightarrow> u32 \<Rightarrow> bool \<times> BlockReader" where
  "ParseEntryAt r offset =
     (if r_entries_size r \<le> offset then (False, r\<lparr>r_valid := False\<rparr>)
      else let region = take (unat (r_entries_size r)) (block_data r);
               p = drop (unat offset) region;
               lengths =
                 (case GetVarint32Ptr p of None \<Rightarrow> None | Some (shared, p) \<Rightarrow>
                 (case GetVarint32Ptr p of None \<Rightarrow> None | Some (non_shared, p) \<Rightarrow>
                 (case GetVarint32Ptr p of None \<Rightarrow> None | Some (value_len, p) \<Rightarrow>
                    if length p < unat (non_shared + value_len) then None
                    else Some (shared, non_shared, value_len, p))))
        in case lengths of
             None \<Rightarrow> (False, r\<lparr>r_status := Corruption ''truncated data block entry'',
                            r_valid := False\<rparr>)
           | Some (shared, non_shared, value_len, p) \<Rightarrow>
               if length (r_key r) < unat shared
               then (False, r\<lparr>r_status := Corruption ''data block entry shares more than it can'',
                             r_valid := False\<rparr>)
               else if length p < unat non_shared + unat value_len
               then (False, r\<lparr>r_overrun := True, r_valid := False\<rparr>)
               else (True, r\<lparr>r_key := take (unat shared) (r_key r) @ take (unat non_shared) p,
                            r_value := take (unat value_len) (drop (unat non_shared) p),
                            r_current := offset,
                            r_next := of_nat (length region - length p) + non_shared + value_len,
                            r_valid := True\<rparr>))"

definition SeekToRestart :: "BlockReader \<Rightarrow> nat \<Rightarrow> BlockReader" where
  "SeekToRestart r index =
     (let r = r\<lparr>r_key := []\<rparr> in snd (ParseEntryAt r (RestartOffset r index)))"

definition br_SeekToFirst :: "BlockReader \<Rightarrow> BlockReader" where
  "br_SeekToFirst r = (if r_data r = None then r else SeekToRestart r 0)"

definition br_Next :: "BlockReader \<Rightarrow> BlockReader" where
  "br_Next r = (if \<not> r_valid r then r else snd (ParseEntryAt r (r_next r)))"

text \<open>
  The binary search over the restart points. The indices are below the restart
  count, a 32-bit number, so \<open>right - left + 1\<close> does not wrap. \<open>None\<close> for the
  index is the early return.
\<close>

function SeekRestarts :: "bytes \<Rightarrow> BlockReader \<Rightarrow> nat \<Rightarrow> nat \<Rightarrow> nat option \<times> BlockReader" where
  "SeekRestarts target r left right =
     (if left < right then
        (let mid = left + (right - left + 1) div 2;
             r = r\<lparr>r_key := []\<rparr>;
             (parsed, r) = ParseEntryAt r (RestartOffset r mid)
         in if \<not> parsed then (None, r\<lparr>r_valid := False\<rparr>)
            else if CompareInternalKey (r_key r) target < 0
            then SeekRestarts target r mid right
            else SeekRestarts target r left (mid - 1))
      else (Some left, r))"
  by pat_completeness auto
termination
  by (relation "measure (\<lambda>(target, r, left, right). right - left)") auto

declare SeekRestarts.simps [simp del]

section \<open>The forward walk\<close>

lemma ParseEntryAt_frame:
  "ParseEntryAt r off = (b, r') \<Longrightarrow> r_data r' = r_data r \<and> r_entries_size r' = r_entries_size r \<and>
     r_num_restarts r' = r_num_restarts r \<and> r_valid r' = b"
  by (auto simp: ParseEntryAt_def Let_def split: if_splits option.splits prod.splits)

lemma GetVarint32Ptr_shrinks: "GetVarint32Ptr p = Some (v, p') \<Longrightarrow> length p' < length p"
  unfolding GetVarint32Ptr_def by (drule GetVarint32Loop_SomeD) auto

text \<open>A parsed entry ends strictly behind its start and inside the entry region.\<close>

lemma unat_add3:
  "a + unat x + unat y < 2 ^ 32 \<Longrightarrow> unat (of_nat a + x + (y :: u32)) = a + unat x + unat y"
  by (simp add: unat_word_ariths unat_of_nat_small)

lemma ParseEntryAt_next:
  assumes "ParseEntryAt r off = (True, r')"
  shows "unat off < unat (r_next r') \<and> unat (r_next r') \<le> unat (r_entries_size r)"
proof -
  define region where "region = take (unat (r_entries_size r)) (block_data r)"
  from assms obtain shared p1 non_shared p2 value_len p where
    v: "GetVarint32Ptr (drop (unat off) region) = Some (shared, p1)"
      "GetVarint32Ptr p1 = Some (non_shared, p2)" "GetVarint32Ptr p2 = Some (value_len, p)" and
    fit: "unat non_shared + unat value_len \<le> length p" and
    n: "r_next r' = of_nat (length region - length p) + non_shared + value_len"
    by (auto simp: ParseEntryAt_def Let_def region_def not_less split: if_splits option.splits)
  have l: "length p < length (drop (unat off) region)"
    using v [THEN GetVarint32Ptr_shrinks] by linarith
  have size: "length region \<le> unat (r_entries_size r)" by (simp add: region_def)
  have "unat (r_entries_size r) < 2 ^ LENGTH(32)" by (rule unsigned_less)
  with size fit l have "length region - length p + unat non_shared + unat value_len < 2 ^ 32" by simp
  then have "unat (r_next r') = length region - length p + unat non_shared + unat value_len"
    unfolding n by (rule unat_add3)
  with l fit size show ?thesis unfolding length_drop by arith
qed

text \<open>\<open>while (valid_ && CompareInternalKey(key_, target) < 0) Next()\<close>\<close>

function SeekWalk :: "bytes \<Rightarrow> BlockReader \<Rightarrow> BlockReader" where
  "SeekWalk target r =
     (if r_valid r \<and> CompareInternalKey (r_key r) target < 0 then SeekWalk target (br_Next r) else r)"
  by pat_completeness auto
termination
proof (relation "measure (\<lambda>(target, r). if r_valid r
    then Suc (unat (r_entries_size r) - unat (r_next r)) else 0)", simp)
  fix target :: bytes and r :: BlockReader
  assume c: "r_valid r \<and> CompareInternalKey (r_key r) target < 0"
  obtain b r' where r': "ParseEntryAt r (r_next r) = (b, r')" by force
  have "b \<Longrightarrow> unat (r_next r) < unat (r_next r') \<and> unat (r_next r') \<le> unat (r_entries_size r)"
    using r' ParseEntryAt_next [of r "r_next r" r'] by simp
  with c r' ParseEntryAt_frame [OF r'] show "((target, br_Next r), target, r) \<in>
      measure (\<lambda>(target, r). if r_valid r then Suc (unat (r_entries_size r) - unat (r_next r)) else 0)"
    by (auto simp: br_Next_def)
qed

declare SeekWalk.simps [simp del]

definition br_Seek :: "BlockReader \<Rightarrow> bytes \<Rightarrow> BlockReader" where
  "br_Seek r target =
     (if r_data r = None then r
      else case SeekRestarts target r 0 (unat (r_num_restarts r - 1)) of
             (None, r) \<Rightarrow> r
           | (Some left, r) \<Rightarrow> SeekWalk target (SeekToRestart r left))"

section \<open>What a block contains\<close>

text \<open>
  An entry as it is stored: the number of bytes it shares with its predecessor,
  its key and its value. \<open>chain\<close> says that the shared bytes are the same bytes.
\<close>

type_synonym stored = "nat \<times> bytes \<times> bytes"

fun enc_stored :: "stored \<Rightarrow> bytes" where
  "enc_stored (shared, key, val) =
     PutVarint32 [] (of_nat shared) @ PutVarint32 [] (of_nat (length key - shared)) @
     PutVarint32 [] (of_nat (length val)) @ drop shared key @ val"

fun linked :: "bytes \<Rightarrow> stored \<Rightarrow> bool" where
  "linked prev (shared, key, val) \<longleftrightarrow>
     shared \<le> length prev \<and> shared \<le> length key \<and> take shared prev = take shared key"

fun chain :: "bytes \<Rightarrow> stored list \<Rightarrow> bool" where
  "chain prev [] \<longleftrightarrow> True"
| "chain prev (p # ps) \<longleftrightarrow> linked prev p \<and> chain (fst (snd p)) ps"

definition last_stored_key :: "bytes \<Rightarrow> stored list \<Rightarrow> bytes" where
  "last_stored_key prev ps = (if ps = [] then prev else fst (snd (last ps)))"

lemma chain_append: "chain prev (ps @ qs) \<longleftrightarrow> chain prev ps \<and> chain (last_stored_key prev ps) qs"
  by (induction prev ps rule: chain.induct) (auto simp: last_stored_key_def)

lemma last_stored_key_snoc [simp]: "last_stored_key prev (ps @ [p]) = fst (snd p)"
  by (simp add: last_stored_key_def)

definition entry_offset :: "stored list \<Rightarrow> nat \<Rightarrow> nat" where
  "entry_offset ps i = length (concat (map enc_stored (take i ps)))"

definition stored_entries :: "stored list \<Rightarrow> version list" where
  "stored_entries ps = map snd ps"

text \<open>
  \<open>builds b ps rs\<close>: the builder has stored the entries \<open>ps\<close>, with restart points
  at the indices \<open>rs\<close>.
\<close>

definition builds :: "BlockBuilder \<Rightarrow> stored list \<Rightarrow> nat list \<Rightarrow> bool" where
  "builds b ps rs \<longleftrightarrow>
     bb_buffer b = concat (map enc_stored ps) \<and> chain [] ps \<and>
     bb_last_key b = last_stored_key [] ps \<and>
     bb_restarts b = map (\<lambda>i. of_nat (entry_offset ps i)) rs \<and>
     rs \<noteq> [] \<and> hd rs = 0 \<and> sorted_wrt (<) rs \<and>
     (\<forall>i \<in> set rs. i < length ps \<or> i = 0) \<and>
     (\<forall>i \<in> set rs. i < length ps \<longrightarrow> fst (ps ! i) = 0) \<and>
     bb_entries b = int (length ps) \<and>
     0 < bb_restart_interval b \<and> 0 \<le> bb_since_restart b \<and> bb_since_restart b \<le> int (length ps)"

lemma builds_new: "builds (new_BlockBuilder ri) [] [0]"
  by (auto simp: builds_def new_BlockBuilder_def last_stored_key_def entry_offset_def)

lemma builds_Reset: "builds b ps rs \<Longrightarrow> builds (bb_Reset b) [] [0]"
  by (auto simp: builds_def bb_Reset_def last_stored_key_def entry_offset_def)

lemma shared_prefix_linked: "linked prev (shared_prefix prev key, key, val)"
  by (induction prev key rule: shared_prefix.induct) auto

lemma offset_append: "i \<le> length ps \<Longrightarrow> entry_offset (ps @ qs) i = entry_offset ps i"
  by (simp add: entry_offset_def)

lemma offset_0 [simp]: "entry_offset ps 0 = 0"
  by (simp add: entry_offset_def)

lemma offset_length: "entry_offset ps (length ps) = length (concat (map enc_stored ps))"
  by (simp add: entry_offset_def)

lemma bb_Add_eq:
  "bb_Add b key val =
     (if bb_since_restart b < bb_restart_interval b
      then b\<lparr>bb_buffer := bb_buffer b @ enc_stored (shared_prefix (bb_last_key b) key, key, val),
             bb_last_key := key, bb_since_restart := bb_since_restart b + 1,
             bb_entries := bb_entries b + 1\<rparr>
      else b\<lparr>bb_buffer := bb_buffer b @ enc_stored (0, key, val),
             bb_restarts := bb_restarts b @ [of_nat (length (bb_buffer b))],
             bb_last_key := key, bb_since_restart := 1, bb_entries := bb_entries b + 1\<rparr>)"
proof -
  have "PutVarint32 (PutVarint32 (PutVarint32 buf x) y) z =
      buf @ PutVarint32 [] x @ PutVarint32 [] y @ PutVarint32 [] z" for buf x y z
    by (metis PutVarint32_append append_assoc)
  then show ?thesis by (simp add: bb_Add_def Let_def)
qed

lemma builds_Add:
  assumes "builds b ps rs"
  shows "\<exists>shared rs'. builds (bb_Add b key val) (ps @ [(shared, key, val)]) rs'"
proof (cases "bb_since_restart b < bb_restart_interval b")
  case True
  let ?x = "(shared_prefix (bb_last_key b) key, key, val)"
  have "builds (bb_Add b key val) (ps @ [?x]) rs"
    using assms True shared_prefix_linked [of "bb_last_key b" key val]
    by (auto simp: builds_def bb_Add_eq chain_append offset_append nth_append last_stored_key_def
        less_Suc_eq_le intro!: offset_append [symmetric] split: if_splits)
  then show ?thesis by blast
next
  case False
  then have "ps \<noteq> []" using assms by (auto simp: builds_def)
  then have "builds (bb_Add b key val) (ps @ [(0, key, val)]) (rs @ [length ps])"
    using assms False
    by (auto simp: builds_def bb_Add_eq chain_append offset_append nth_append sorted_wrt_append
        offset_length intro!: offset_append [symmetric])
  then show ?thesis by blast
qed

lemma builds_foldl:
  assumes "builds b ps rs"
  shows "\<exists>qs rs'. builds (foldl (\<lambda>b (key, val). bb_Add b key val) b es) (ps @ qs) rs' \<and>
    stored_entries qs = es"
  using assms
proof (induction es arbitrary: b ps rs)
  case Nil
  then show ?case by (intro exI [of _ "[]"] exI [of _ rs]) (simp add: stored_entries_def)
next
  case (Cons e es)
  obtain key val where e: "e = (key, val)" by force
  obtain shared rs' where 1: "builds (bb_Add b key val) (ps @ [(shared, key, val)]) rs'"
    using builds_Add [OF Cons.prems] by blast
  obtain qs rs'' where "builds (foldl (\<lambda>b (key, val). bb_Add b key val) (bb_Add b key val) es)
      ((ps @ [(shared, key, val)]) @ qs) rs''" "stored_entries qs = es"
    using Cons.IH [OF 1] by blast
  then show ?case
    by (intro exI [of _ "(shared, key, val) # qs"]) (auto simp: e stored_entries_def)
qed


section \<open>Reading a block back\<close>

definition block_bytes :: "stored list \<Rightarrow> nat list \<Rightarrow> bytes" where
  "block_bytes ps rs = concat (map enc_stored ps) @
     concat (map (\<lambda>i. fixed32 (of_nat (entry_offset ps i))) rs) @ fixed32 (of_nat (length rs))"

definition key_at :: "stored list \<Rightarrow> nat \<Rightarrow> bytes" where
  "key_at ps i = fst (snd (ps ! i))"

definition value_at :: "stored list \<Rightarrow> nat \<Rightarrow> bytes" where
  "value_at ps i = snd (snd (ps ! i))"

text \<open>A block the builder can produce, within the 32-bit limits of the format.\<close>

definition block_ok :: "stored list \<Rightarrow> nat list \<Rightarrow> bool" where
  "block_ok ps rs \<longleftrightarrow>
     chain [] ps \<and> rs \<noteq> [] \<and> hd rs = 0 \<and> sorted_wrt (<) rs \<and>
     (\<forall>i \<in> set rs. i < length ps \<or> i = 0) \<and>
     (\<forall>i \<in> set rs. i < length ps \<longrightarrow> fst (ps ! i) = 0) \<and>
     length (block_bytes ps rs) < 2 ^ 32 \<and>
     (\<forall>(shared, key, val) \<in> set ps. length key < 2 ^ 32 \<and> length val < 2 ^ 32)"

lemma foldl_PutFixed32: "foldl PutFixed32 buf xs = buf @ concat (map fixed32 xs)"
  by (induction xs arbitrary: buf) (simp_all add: PutFixed32_def)

lemma bb_Finish_builds: "builds b ps rs \<Longrightarrow> fst (bb_Finish b) = block_bytes ps rs"
  by (simp add: builds_def bb_Finish_def foldl_PutFixed32 PutFixed32_def block_bytes_def comp_def Let_def)

lemma length_block_bytes:
  "length (block_bytes ps rs) = entry_offset ps (length ps) + (length rs + 1) * 4"
  by (simp add: block_bytes_def entry_offset_def length_concat comp_def sum_list_triv)

text \<open>A reader open on such a block.\<close>

definition reader_on :: "BlockReader \<Rightarrow> stored list \<Rightarrow> nat list \<Rightarrow> bool" where
  "reader_on r ps rs \<longleftrightarrow>
     block_ok ps rs \<and> r_data r = Some (block_bytes ps rs) \<and>
     r_entries_size r = of_nat (entry_offset ps (length ps)) \<and> r_num_restarts r = of_nat (length rs) \<and>
     r_status r = OK \<and> \<not> r_overrun r"

text \<open>The reader stands on entry \<open>i\<close>.\<close>

definition reader_at :: "BlockReader \<Rightarrow> stored list \<Rightarrow> nat \<Rightarrow> bool" where
  "reader_at r ps i \<longleftrightarrow> i < length ps \<and> r_valid r \<and> r_key r = key_at ps i \<and>
     r_value r = value_at ps i \<and> r_next r = of_nat (entry_offset ps (Suc i))"

lemma unat_entries_size: "reader_on r ps rs \<Longrightarrow> unat (r_entries_size r) = entry_offset ps (length ps)"
proof -
  assume r: "reader_on r ps rs"
  then have "entry_offset ps (length ps) < 2 ^ 32"
    by (auto simp: reader_on_def block_ok_def length_block_bytes)
  with r show ?thesis by (simp add: reader_on_def unat_of_nat_small)
qed

lemma offset_mono: "i \<le> j \<Longrightarrow> entry_offset ps i \<le> entry_offset ps j"
proof -
  assume "i \<le> j"
  then have "take j ps = take i ps @ take (j - i) (drop i ps)"
    by (metis le_add_diff_inverse take_add)
  then show ?thesis by (simp add: entry_offset_def)
qed

lemma unat_offset: "reader_on r ps rs \<Longrightarrow> i \<le> length ps \<Longrightarrow> unat (of_nat (entry_offset ps i) :: u32) = entry_offset ps i"
  using offset_mono [of i "length ps" ps]
  by (intro unat_of_nat_small) (auto simp: reader_on_def block_ok_def length_block_bytes)

lemma drop_offset:
  assumes "i < length ps"
  shows "drop (entry_offset ps i) (concat (map enc_stored ps)) =
    enc_stored (ps ! i) @ concat (map enc_stored (drop (Suc i) ps))"
proof -
  have "concat (map enc_stored ps) = concat (map enc_stored (take i ps)) @ concat (map enc_stored (drop i ps))"
    by (metis append_take_drop_id concat_append map_append)
  moreover have "drop i ps = ps ! i # drop (Suc i) ps"
    using assms by (rule Cons_nth_drop_Suc [symmetric])
  ultimately show ?thesis by (simp add: entry_offset_def)
qed

lemma offset_Suc: "i < length ps \<Longrightarrow> entry_offset ps (Suc i) = entry_offset ps i + length (enc_stored (ps ! i))"
  by (simp add: entry_offset_def take_Suc_conv_app_nth)

lemma length_varint_pos: "0 < length (PutVarint32 [] v)"
  by simp

lemma length_enc_pos: "0 < length (enc_stored p)"
  by (cases p) simp

lemma offset_less: "i < j \<Longrightarrow> j \<le> length ps \<Longrightarrow> entry_offset ps i < entry_offset ps j"
  using offset_mono [of "Suc i" j ps] offset_Suc [of i ps] length_enc_pos [of "ps ! i"] by linarith

text \<open>Decoding the entry at the offset of entry \<open>i\<close>, with a key in hand it can build on.\<close>

lemma ParseEntryAt_entry:
  assumes r: "reader_on r ps rs" and i: "i < length ps" and l: "linked (r_key r) (ps ! i)"
  shows "\<exists>r'. ParseEntryAt r (of_nat (entry_offset ps i)) = (True, r') \<and> reader_on r' ps rs \<and> reader_at r' ps i"
proof -
  obtain shared key val where p: "ps ! i = (shared, key, val)" by (cases "ps ! i")
  define n where "n = length key - shared"
  from r i p have small: "length key < 2 ^ 32" "length val < 2 ^ 32"
    by (auto simp: reader_on_def block_ok_def dest!: nth_mem)
  from l p have sh: "shared \<le> length (r_key r)" "shared \<le> length key"
    "take shared (r_key r) = take shared key" by auto
  then have n_le: "n \<le> length key" "length (drop shared key) = n" by (simp_all add: n_def)
  have u: "unat (of_nat shared :: u32) = shared" "unat (of_nat (length val) :: u32) = length val"
    "unat (of_nat n :: u32) = n"
    using small sh n_le by (simp_all add: unat_of_nat_small)
  define entries where "entries = concat (map enc_stored ps)"
  define q where "q = drop shared key @ val @ concat (map enc_stored (drop (Suc i) ps))"
  have total: "entry_offset ps (length ps) = length entries" by (simp add: entries_def offset_length)
  have region: "take (unat (r_entries_size r)) (block_data r) = entries"
    using r unat_entries_size [OF r] total
    by (simp add: reader_on_def block_data_def block_bytes_def entries_def)
  have d: "drop (entry_offset ps i) entries =
      PutVarint32 [] (of_nat shared) @ PutVarint32 [] (of_nat n) @ PutVarint32 [] (of_nat (length val)) @ q"
    using drop_offset [OF i] p by (simp add: q_def n_def entries_def)
  have end_eq: "length entries - length q + n + length val = entry_offset ps (Suc i)"
    using arg_cong [OF d, of length] offset_mono [of i "length ps" ps] offset_Suc [OF i] p i n_le(2) total
    by (simp add: q_def n_def [symmetric])
  have fits: "entry_offset ps (Suc i) < 2 ^ 32"
    using offset_mono [of "Suc i" "length ps" ps] i r
    by (auto simp: reader_on_def block_ok_def length_block_bytes)
  have sum: "unat ((of_nat n :: u32) + of_nat (length val)) = n + length val"
    using end_eq fits by (simp add: unat_word_ariths u)
  have lt: "\<not> r_entries_size r \<le> of_nat (entry_offset ps i)"
    using unat_entries_size [OF r] unat_offset [OF r, of i] offset_less [of i "length ps" ps] i
    by (simp add: word_le_nat_alt)
  have next_eq: "(of_nat (length entries - length q) :: u32) + of_nat n + of_nat (length val) =
      of_nat (entry_offset ps (Suc i))"
    unfolding end_eq [symmetric] of_nat_add ..
  let ?r' = "r\<lparr>r_key := take shared (r_key r) @ drop shared key, r_value := val,
    r_current := of_nat (entry_offset ps i), r_next := of_nat (entry_offset ps (Suc i)), r_valid := True\<rparr>"
  have q: "n + length val \<le> length q" "take n q = drop shared key" "take (length val) (drop n q) = val"
    using n_le(2) by (simp_all add: q_def)
  have "ParseEntryAt r (of_nat (entry_offset ps i)) = (True, ?r')"
    using lt sh(1) q
    by (simp add: ParseEntryAt_def Let_def region unat_offset [OF r less_imp_le [OF i]] d
        GetVarint32Ptr_Put u sum next_eq not_less del: of_nat_diff)
  moreover have "reader_on ?r' ps rs" using r by (simp add: reader_on_def)
  moreover have "reader_at ?r' ps i" using i p sh by (simp add: reader_at_def key_at_def value_at_def)
  ultimately show ?thesis by blast
qed

lemma ParseEntryAt_end:
  assumes "reader_on r ps rs"
  shows "ParseEntryAt r (of_nat (entry_offset ps (length ps))) = (False, r\<lparr>r_valid := False\<rparr>)"
  using assms by (simp add: ParseEntryAt_def reader_on_def)

lemma drop_fixed32_array:
  "j < length xs \<Longrightarrow> drop (j * 4) (concat (map fixed32 xs) @ tail) =
     fixed32 (xs ! j) @ concat (map fixed32 (drop (Suc j) xs)) @ tail"
proof (induction xs arbitrary: j)
  case (Cons x xs)
  then show ?case by (cases j) simp_all
qed simp

lemma RestartOffset_reads:
  assumes "reader_on r ps rs" "j < length rs"
  shows "RestartOffset r j = of_nat (entry_offset ps (rs ! j))"
  using assms drop_fixed32_array [of j "map (\<lambda>i. of_nat (entry_offset ps i)) rs" "fixed32 (of_nat (length rs))"]
    unat_entries_size [OF assms(1)]
  by (simp add: RestartOffset_def reader_on_def block_data_def block_bytes_def comp_def offset_length
      flip: drop_drop)

text \<open>A key is no longer than the bytes stored up to it.\<close>

lemma chain_length:
  "chain prev ps \<Longrightarrow> (shared, key, val) \<in> set ps \<Longrightarrow>
     length key \<le> length prev + length (concat (map enc_stored ps)) \<and>
     length val \<le> length (concat (map enc_stored ps))"
proof (induction prev ps rule: chain.induct)
  case (2 prev p ps)
  then show ?case by (cases p) (force simp del: length_concat)
qed simp

lemma block_ok_builds:
  assumes b: "builds b ps rs" and size: "length (block_bytes ps rs) < 2 ^ 32"
  shows "block_ok ps rs"
proof -
  have "length (concat (map enc_stored ps)) < 2 ^ 32" using size by (simp add: block_bytes_def)
  then have "\<forall>(shared, key, val) \<in> set ps. length key < 2 ^ 32 \<and> length val < 2 ^ 32"
    using b chain_length [of "[]" ps] by (fastforce simp: builds_def simp del: length_concat)
  with b size show ?thesis by (auto simp: builds_def block_ok_def)
qed

lemma new_BlockReader_ok:
  assumes "4 \<le> length c" and "DecodeFixed32 (drop (length c - 4) c) = n" and "n \<noteq> 0"
    and "length c = esz + (unat n + 1) * 4"
    and "r = default_BlockReader\<lparr>r_data := Some c, r_entries_size := of_nat esz, r_num_restarts := n\<rparr>"
    and "\<And>i. i < unat n \<Longrightarrow> RestartOffset r i \<le> of_nat esz"
  shows "new_BlockReader c = r"
proof -
  have "length c - (unat n + 1) * 4 = esz" "\<not> length c < (unat n + 1) * 4" using assms(4) by simp_all
  moreover have "\<not> (\<exists>i \<in> set [0..<unat n]. RestartOffset r i > r_entries_size r)"
    using assms(5,6) by (auto simp: not_less)
  ultimately show ?thesis
    unfolding new_BlockReader_def Let_def assms(2) using assms(1,3,5) by simp
qed

lemma reads_new:
  assumes ok: "block_ok ps rs"
  shows "reader_on (new_BlockReader (block_bytes ps rs)) ps rs \<and> \<not> r_valid (new_BlockReader (block_bytes ps rs))"
proof -
  let ?n = "length rs" and ?c = "block_bytes ps rs"
  have len: "length ?c = entry_offset ps (length ps) + (?n + 1) * 4" by (rule length_block_bytes)
  have total: "length ?c < 2 ^ 32" and ne: "?n \<noteq> 0" using ok by (auto simp: block_ok_def)
  have un: "unat (of_nat ?n :: u32) = ?n" using total len by (simp add: unat_of_nat_small)
  then have nz: "(of_nat ?n :: u32) \<noteq> 0" using ne by (metis unsigned_0)
  have cnt: "DecodeFixed32 (drop (length ?c - 4) ?c) = of_nat ?n"
    using DecodeFixed32_append [of "of_nat ?n" "[]"] by (simp add: block_bytes_def)
  let ?r = "default_BlockReader\<lparr>r_data := Some ?c,
    r_entries_size := of_nat (entry_offset ps (length ps)), r_num_restarts := of_nat ?n\<rparr>"
  have rd: "reader_on ?r ps rs" using ok by (simp add: reader_on_def default_BlockReader_def)
  have in_range: "RestartOffset ?r i \<le> of_nat (entry_offset ps (length ps))" if "i < ?n" for i
  proof -
    have i: "rs ! i \<le> length ps" using ok nth_mem [OF that] by (auto simp: block_ok_def)
    show ?thesis
      unfolding RestartOffset_reads [OF rd that] word_le_nat_alt unat_offset [OF rd i] unat_offset [OF rd order_refl]
      by (rule offset_mono [OF i])
  qed
  have "new_BlockReader ?c = ?r"
    by (rule new_BlockReader_ok [OF _ cnt nz _ refl]) (use len un in_range in simp_all)
  with rd show ?thesis by (simp add: default_BlockReader_def)
qed

text \<open>
  \<open>block_at r ps rs i\<close>: the reader stands on entry \<open>i\<close>, or is past the end when
  there is no such entry.
\<close>

definition block_at :: "BlockReader \<Rightarrow> stored list \<Rightarrow> nat list \<Rightarrow> nat \<Rightarrow> bool" where
  "block_at r ps rs i \<longleftrightarrow> reader_on r ps rs \<and> i \<le> length ps \<and>
     (if i < length ps then reader_at r ps i else \<not> r_valid r)"

lemma chain_nth:
  "chain prev ps \<Longrightarrow> i < length ps \<Longrightarrow> linked (if i = 0 then prev else key_at ps (i - 1)) (ps ! i)"
proof (induction prev ps arbitrary: i rule: chain.induct)
  case (2 prev p ps)
  then show ?case by (cases i) (fastforce simp: key_at_def split: if_splits)+
qed simp

lemma linked_zero: "fst p = 0 \<Longrightarrow> linked k p"
  by (cases p) simp

lemma ParseEntryAt_restart:
  assumes r: "reader_on r ps rs" and j: "j < length rs" and i: "rs ! j < length ps"
  shows "\<exists>r'. ParseEntryAt (r\<lparr>r_key := []\<rparr>) (RestartOffset (r\<lparr>r_key := []\<rparr>) j) = (True, r') \<and>
    reader_on r' ps rs \<and> reader_at r' ps (rs ! j)"
proof -
  have r0: "reader_on (r\<lparr>r_key := []\<rparr>) ps rs" using r by (simp add: reader_on_def)
  have "fst (ps ! (rs ! j)) = 0" using r i nth_mem [OF j] by (auto simp: reader_on_def block_ok_def)
  from ParseEntryAt_entry [OF r0 i linked_zero [OF this]] RestartOffset_reads [OF r0 j]
  show ?thesis by simp
qed

lemma SeekToRestart_at:
  assumes r: "reader_on r ps rs" and j: "j < length rs"
  shows "block_at (SeekToRestart r j) ps rs (rs ! j)"
proof (cases "rs ! j < length ps")
  case True
  with ParseEntryAt_restart [OF r j] show ?thesis
    by (auto simp: SeekToRestart_def block_at_def Let_def)
next
  case False
  then have i: "rs ! j = 0" "ps = []"
    using r nth_mem [OF j] by (fastforce simp: reader_on_def block_ok_def)+
  have r0: "reader_on (r\<lparr>r_key := []\<rparr>) ps rs" using r by (simp add: reader_on_def)
  have "SeekToRestart r j = r\<lparr>r_key := [], r_valid := False\<rparr>"
    using ParseEntryAt_end [OF r0] RestartOffset_reads [OF r0 j] i by (simp add: SeekToRestart_def Let_def)
  with r0 i show ?thesis by (simp add: block_at_def reader_on_def)
qed

lemma br_SeekToFirst_at:
  assumes "reader_on r ps rs"
  shows "block_at (br_SeekToFirst r) ps rs 0"
  using SeekToRestart_at [OF assms, of 0] assms
  by (auto simp: br_SeekToFirst_def reader_on_def block_ok_def hd_conv_nth)

lemma br_Next_at:
  assumes a: "block_at r ps rs i" and i: "i < length ps"
  shows "block_at (br_Next r) ps rs (Suc i)"
proof -
  have r: "reader_on r ps rs" and at: "reader_at r ps i" using a i by (auto simp: block_at_def)
  show ?thesis
  proof (cases "Suc i < length ps")
    case True
    have "linked (r_key r) (ps ! Suc i)"
      using chain_nth [of "[]" ps "Suc i"] True r at by (simp add: reader_on_def block_ok_def reader_at_def)
    from ParseEntryAt_entry [OF r True this] at True show ?thesis
      by (auto simp: br_Next_def reader_at_def block_at_def)
  next
    case False
    then have "Suc i = length ps" using i by simp
    with ParseEntryAt_end [OF r] at r show ?thesis
      by (auto simp: br_Next_def reader_at_def block_at_def reader_on_def)
  qed
qed

lemma br_Next_end: "block_at r ps rs (length ps) \<Longrightarrow> br_Next r = r"
  by (simp add: block_at_def br_Next_def)

section \<open>Seek\<close>

lemma stored_entries_nth: "i < length ps \<Longrightarrow> stored_entries ps ! i = (key_at ps i, value_at ps i)"
  by (simp add: stored_entries_def key_at_def value_at_def)

lemma length_stored_entries [simp]: "length (stored_entries ps) = length ps"
  by (simp add: stored_entries_def)

lemma SeekWalk_at:
  "block_at r ps rs i \<Longrightarrow>
     block_at (SeekWalk target r) ps rs (i + length (takeWhile (below target) (drop i (stored_entries ps))))"
proof (induction "length ps - i" arbitrary: r i)
  case 0
  then have "i = length ps" by (simp add: block_at_def)
  with 0 show ?case by (simp add: SeekWalk.simps [of target r] block_at_def)
next
  case (Suc n)
  then have i: "i < length ps" by simp
  then have d: "drop i (stored_entries ps) = (key_at ps i, value_at ps i) # drop (Suc i) (stored_entries ps)"
    by (metis Cons_nth_drop_Suc length_stored_entries stored_entries_nth)
  have r: "r_valid r" "r_key r = key_at ps i" using Suc.prems i by (auto simp: block_at_def reader_at_def)
  show ?case
  proof (cases "ikey_of (key_at ps i) < ikey_of target")
    case True
    with Suc.hyps(1) [of "Suc i" "br_Next r"] br_Next_at [OF Suc.prems i] Suc.hyps(2) r show ?thesis
      by (simp add: SeekWalk.simps [of target r] key_order d)
  next
    case False
    with r Suc.prems show ?thesis by (simp add: SeekWalk.simps [of target r] key_order d)
  qed
qed

text \<open>
  The search keeps \<open>left\<close> at the first restart point or at one whose key is
  below the target.
\<close>

lemma SeekRestarts_reads:
  assumes "reader_on r ps rs" "left \<le> right" "right < length rs"
    "left = 0 \<or> ikey_of (key_at ps (rs ! left)) < ikey_of target"
  shows "\<exists>l r'. SeekRestarts target r left right = (Some l, r') \<and> reader_on r' ps rs \<and> l < length rs \<and>
    (l = 0 \<or> ikey_of (key_at ps (rs ! l)) < ikey_of target)"
  using assms
proof (induction "right - left" arbitrary: r left right rule: less_induct)
  case less
  show ?case
  proof (cases "left < right")
    case False
    with less.prems show ?thesis by (subst SeekRestarts.simps) auto
  next
    case True
    define mid where "mid = left + (right - left + 1) div 2"
    have mid: "left < mid" "mid \<le> right" using True by (auto simp: mid_def)
    then have "rs ! 0 < rs ! mid"
      using less.prems by (auto simp: reader_on_def block_ok_def sorted_wrt_iff_nth_less)
    then have "rs ! mid < length ps"
      using less.prems mid nth_mem [of mid rs] by (auto simp: reader_on_def block_ok_def)
    then obtain r1 where r1:
      "ParseEntryAt (r\<lparr>r_key := []\<rparr>) (RestartOffset (r\<lparr>r_key := []\<rparr>) mid) = (True, r1)"
      "reader_on r1 ps rs" "reader_at r1 ps (rs ! mid)"
      using ParseEntryAt_restart [OF less.prems(1), of mid] less.prems mid by auto
    have step: "SeekRestarts target r left right =
        (if ikey_of (key_at ps (rs ! mid)) < ikey_of target
         then SeekRestarts target r1 mid right else SeekRestarts target r1 left (mid - 1))"
      unfolding SeekRestarts.simps [of target r left right] Let_def mid_def [symmetric]
      using True r1 by (simp add: key_order reader_at_def)
    show ?thesis
    proof (cases "ikey_of (key_at ps (rs ! mid)) < ikey_of target")
      case True
      with less.hyps [of right mid r1] less.prems r1 mid step show ?thesis by auto
    next
      case False
      with less.hyps [of "mid - 1" left r1] less.prems r1 mid step show ?thesis by auto
    qed
  qed
qed

lemma br_Seek_at:
  assumes r: "reader_on r ps rs" and srt: "keys_sorted (stored_entries ps)"
  shows "block_at (br_Seek r target) ps rs (length (takeWhile (below target) (stored_entries ps)))"
proof -
  have n: "unat (r_num_restarts r - 1) = length rs - 1" "0 < length rs"
  proof -
    have "0 < length rs" "length rs < 2 ^ 32"
      using r by (auto simp: reader_on_def block_ok_def length_block_bytes)
    then show "unat (r_num_restarts r - 1) = length rs - 1" "0 < length rs"
      using r unat_of_nat_small [of "length rs - 1", where ?'a = 32] of_nat_diff [of 1 "length rs", where ?'a = u32]
      by (simp_all add: reader_on_def Suc_le_eq del: of_nat_diff)
  qed
  obtain l r1 where l: "SeekRestarts target r 0 (unat (r_num_restarts r - 1)) = (Some l, r1)"
    "reader_on r1 ps rs" "l < length rs" "l = 0 \<or> ikey_of (key_at ps (rs ! l)) < ikey_of target"
    using SeekRestarts_reads [OF r, of 0 "length rs - 1" target] n by auto
  have eq: "br_Seek r target = SeekWalk target (SeekToRestart r1 l)"
    using r l by (simp add: br_Seek_def reader_on_def)
  have w: "block_at (br_Seek r target) ps rs
      (rs ! l + length (takeWhile (below target) (drop (rs ! l) (stored_entries ps))))"
    unfolding eq by (rule SeekWalk_at [OF SeekToRestart_at [OF l(2,3)]])
  show ?thesis
  proof (cases "rs ! l < length ps")
    case True
    have "rs ! l = 0 \<or> below target (stored_entries ps ! (rs ! l))"
      using l(4) r True by (auto simp: reader_on_def block_ok_def hd_conv_nth stored_entries_nth)
    with w takeWhile_below_skip [OF srt, of "rs ! l" target] True show ?thesis by simp
  next
    case False
    then have "rs ! l = 0" using r nth_mem [OF l(3)] by (auto simp: reader_on_def block_ok_def)
    with w show ?thesis by simp
  qed
qed

section \<open>Builder and reader together\<close>

text \<open>The bytes of a block built from \<open>es\<close>, as FlushDataBlock writes them.\<close>

definition build_block :: "int \<Rightarrow> version list \<Rightarrow> bytes" where
  "build_block restart_interval es =
     fst (bb_Finish (foldl (\<lambda>b (key, val). bb_Add b key val) (new_BlockBuilder restart_interval) es))"

lemma build_block_reads:
  assumes "length (build_block ri es) < 2 ^ 32"
  shows "\<exists>ps rs. reader_on (new_BlockReader (build_block ri es)) ps rs \<and> stored_entries ps = es"
proof -
  obtain ps rs where b: "builds (foldl (\<lambda>b (key, val). bb_Add b key val) (new_BlockBuilder ri) es) ps rs"
    and es: "stored_entries ps = es"
    using builds_foldl [OF builds_new [of ri], of es] by auto
  have eq: "build_block ri es = block_bytes ps rs" unfolding build_block_def by (rule bb_Finish_builds [OF b])
  have "block_ok ps rs" using block_ok_builds [OF b] assms eq by simp
  from reads_new [OF this] eq es show ?thesis by auto
qed

text \<open>\<open>shows_entries r es\<close>: what is left to read from \<open>r\<close> on is \<open>es\<close>.\<close>

definition shows_entry :: "BlockReader \<Rightarrow> version list \<Rightarrow> bool" where
  "shows_entry r es \<longleftrightarrow> r_status r = OK \<and> \<not> r_overrun r \<and>
     (case es of [] \<Rightarrow> \<not> r_valid r
      | (key, val) # _ \<Rightarrow> r_valid r \<and> r_key r = key \<and> r_value r = val)"

lemma block_at_shows: "block_at r ps rs i \<Longrightarrow> shows_entry r (drop i (stored_entries ps))"
proof -
  assume a: "block_at r ps rs i"
  show ?thesis
  proof (cases "i < length ps")
    case True
    then have "drop i (stored_entries ps) = (key_at ps i, value_at ps i) # drop (Suc i) (stored_entries ps)"
      by (metis Cons_nth_drop_Suc length_stored_entries stored_entries_nth)
    with a True show ?thesis by (auto simp: shows_entry_def block_at_def reader_at_def reader_on_def)
  next
    case False
    with a show ?thesis by (auto simp: shows_entry_def block_at_def reader_on_def)
  qed
qed

lemma funpow_Next_at:
  "block_at r ps rs 0 \<Longrightarrow> block_at ((br_Next ^^ n) r) ps rs (min n (length ps))"
proof (induction n)
  case (Suc n)
  show ?case
  proof (cases "n < length ps")
    case True
    with br_Next_at [of "(br_Next ^^ n) r" ps rs n] Suc show ?thesis by simp
  next
    case False
    then have "min n (length ps) = length ps" "min (Suc n) (length ps) = length ps" by simp_all
    with br_Next_end [of "(br_Next ^^ n) r" ps rs] Suc show ?thesis by simp
  qed
qed simp

text \<open>The reader satisfies the cursor contract; it has no environment and never fails.\<close>

definition block_rep :: "BlockReader \<Rightarrow> version list \<Rightarrow> version list \<Rightarrow> bool" where
  "block_rep r es rest \<longleftrightarrow> keys_sorted es \<and>
     (\<exists>ps rs i. block_at r ps rs i \<and> es = stored_entries ps \<and> rest = drop i es)"

definition block_opened :: "BlockReader \<Rightarrow> version list \<Rightarrow> bool" where
  "block_opened r es \<longleftrightarrow> keys_sorted es \<and> (\<exists>ps rs. reader_on r ps rs \<and> es = stored_entries ps)"

lemma block_rep_first: "block_opened r es \<Longrightarrow> block_rep (br_SeekToFirst r) es es"
  unfolding block_opened_def block_rep_def by (metis br_SeekToFirst_at drop0)

lemma block_rep_seek: "block_opened r es \<Longrightarrow> block_rep (br_Seek r t) es (dropWhile (below t) es)"
  unfolding block_opened_def block_rep_def by (metis br_Seek_at dropWhile_eq_drop)

lemma block_rep_next:
  assumes "block_rep r es (x # rest)"
  shows "block_rep (br_Next r) es rest"
proof -
  from assms obtain ps rs i where a: "block_at r ps rs i" "es = stored_entries ps" "x # rest = drop i es"
    and srt: "keys_sorted es"
    unfolding block_rep_def by blast
  have i: "i < length ps" using a by (metis drop_all length_stored_entries list.distinct(1) not_less)
  have "rest = drop (Suc i) es" using a(3) by (metis drop_Suc list.sel(3) tl_drop)
  then show ?thesis unfolding block_rep_def using br_Next_at [OF a(1) i] a(2) srt by blast
qed

lemma block_rep_shows: "block_rep r es rest \<Longrightarrow> shows_entry r rest"
  unfolding block_rep_def by (metis block_at_shows)

lemma block_rep_opened: "block_rep r es rest \<Longrightarrow> block_opened r es"
  unfolding block_rep_def block_opened_def block_at_def by blast

interpretation block_cursor: strict_cursor "\<lambda>e :: unit. True" "\<lambda>e. True" block_opened block_rep
  "\<lambda>r n. False" r_valid r_key r_value r_status "\<lambda>e r. (e, br_SeekToFirst r)"
  "\<lambda>e r t. (e, br_Seek r t)" "\<lambda>e r. (e, br_Next r)"
proof
  show "\<And>s es rest. block_rep s es rest \<Longrightarrow> \<exists>used. es = used @ rest"
    unfolding block_rep_def by (metis append_take_drop_id)
  show "\<And>s es. block_opened s es \<Longrightarrow> keys_le es" by (simp add: block_opened_def keys_sorted_le)
qed (auto simp: block_rep_first block_rep_seek block_rep_next shows_entry_def
    split: list.splits dest: block_rep_opened block_rep_shows)

text \<open>C12. A data block reads back as it was built, whatever the restart interval:
  from SeekToFirst the n-th Next stands on the n-th entry added, with its full key
  rebuilt from the shared prefixes, and past the last entry the reader is invalid
  with an OK status. The block must be shorter than 4 GiB, as its 32-bit offsets
  require.\<close>

theorem block_round_trip:
  assumes "length (build_block restart_interval es) < 2 ^ 32"
  shows "shows_entry ((br_Next ^^ n) (br_SeekToFirst (new_BlockReader (build_block restart_interval es))))
    (drop n es)"
proof -
  obtain ps rs where r: "reader_on (new_BlockReader (build_block restart_interval es)) ps rs"
    and es: "stored_entries ps = es"
    using build_block_reads [OF assms] by blast
  from block_at_shows [OF funpow_Next_at [OF br_SeekToFirst_at [OF r], of n]] show ?thesis
    using es by (cases "n \<le> length ps") (auto simp: min_def)
qed

theorem block_round_trip_witness:
  "r_key ((br_Next ^^ 1) (br_SeekToFirst (new_BlockReader
     (build_block 16 [([97, 98, 99], [1]), ([97, 98, 100], [2])])))) = [97, 98, 100]"
proof -
  have "length (build_block 16 [([97, 98, 99], [1]), ([97, 98, 100], [2])]) = 20"
    by code_simp
  then show ?thesis
    using block_round_trip [of 16 "[([97, 98, 99], [1]), ([97, 98, 100], [2])]" 1]
    by (simp add: shows_entry_def)
qed

text \<open>C11. Seek in a data block whose entries were added in internal key order stands on
  the first entry at or after the target, or is invalid with an OK status when every
  entry is below it: the binary search over the restart points and the walk from
  there skip exactly the entries below the target.\<close>

theorem block_seek_finds_first_not_below:
  assumes "length (build_block restart_interval es) < 2 ^ 32" and "keys_sorted es"
  shows "shows_entry (br_Seek (new_BlockReader (build_block restart_interval es)) target)
    (dropWhile (\<lambda>(key, val). CompareInternalKey key target < 0) es)"
proof -
  obtain ps rs where r: "reader_on (new_BlockReader (build_block restart_interval es)) ps rs"
    and es: "stored_entries ps = es"
    using build_block_reads [OF assms(1)] by blast
  have b: "(\<lambda>(key, val). CompareInternalKey key target < 0) = below target"
    by (auto simp: key_order)
  from block_at_shows [OF br_Seek_at [OF r, of target]] assms(2) es show ?thesis
    by (simp add: b dropWhile_eq_drop)
qed

theorem block_seek_finds_first_not_below_witness:
  "r_value (br_Seek (new_BlockReader (build_block 1
     [(EncodeInternalKey [97] 1 kValue, [1]), (EncodeInternalKey [98] 1 kValue, [2]),
      (EncodeInternalKey [99] 1 kValue, [3])])) (LookupKey [98] 7)) = [2]"
proof -
  let ?es = "[(EncodeInternalKey [97] 1 kValue, [1]), (EncodeInternalKey [98] 1 kValue, [2]),
      (EncodeInternalKey [99] 1 kValue, [3 :: byte])]"
  have "length (build_block 1 ?es) = 55" by code_simp
  then have 1: "length (build_block 1 ?es) < 2 ^ 32" by simp
  have 2: "keys_sorted ?es" by (simp add: keys_sorted_def less_ikey_def)
  have 3: "dropWhile (\<lambda>(key, val). CompareInternalKey key (LookupKey [98] 7) < 0) ?es =
    [(EncodeInternalKey [98] 1 kValue, [2]), (EncodeInternalKey [99] 1 kValue, [3])]" by code_simp
  from block_seek_finds_first_not_below [OF 1 2, of "LookupKey [98] 7"] 3 show ?thesis
    by (simp add: shows_entry_def)
qed

text \<open>C17. The bounds check of ParseEntryAt adds the two lengths in 32 bits, so it can be
  passed by lengths that do not fit: there is a block that the constructor accepts
  and whose first entry is read past the end of the block.\<close>

theorem length_sum_wraps_past_check:
  "\<exists>contents. r_status (new_BlockReader contents) = OK \<and>
     r_overrun (br_SeekToFirst (new_BlockReader contents))"
proof -
  let ?c = "[0, 0xff, 0xff, 0xff, 0xff, 0x0f, 1, 0, 0, 0, 0, 1, 0, 0, 0] :: bytes"
  let ?r = "default_BlockReader\<lparr>r_data := Some ?c, r_entries_size := 7, r_num_restarts := 1\<rparr>"
  have zero: "RestartOffset ?r 0 = 0" by code_simp
  have cnt: "DecodeFixed32 (drop (length ?c - 4) ?c) = 1" by code_simp
  have new: "new_BlockReader ?c = ?r"
    by (rule new_BlockReader_ok [where n = 1 and esz = 7]) (use cnt zero in simp_all)
  have v: "GetVarint32Ptr [0, 0xff, 0xff, 0xff, 0xff, 0x0f, 1] = Some (0, [0xff, 0xff, 0xff, 0xff, 0x0f, 1])"
    "GetVarint32Ptr [0xff, 0xff, 0xff, 0xff, 0x0f, 1] = Some (0xffffffff, [1])"
    "GetVarint32Ptr [1] = Some (1, [])"
    by code_simp+
  have "ParseEntryAt (?r\<lparr>r_key := []\<rparr>) 0 = (False, ?r\<lparr>r_key := [], r_overrun := True, r_valid := False\<rparr>)"
    by (simp add: ParseEntryAt_def block_data_def v default_BlockReader_def)
  then have "r_overrun (br_SeekToFirst ?r)"
    using zero by (simp add: br_SeekToFirst_def SeekToRestart_def RestartOffset_def block_data_def)
  with new show ?thesis by (intro exI [of _ ?c]) (simp add: default_BlockReader_def)
qed

end
