(* ===== verification/Block_Cache.thy ===== *)
theory Block_Cache
  imports Prelude "HOL-Library.Multiset"
begin

text \<open>
  \<open>src/cache.cpp\<close> and \<open>include/lsm/cache.h\<close>: the sharded LRU cache of data
  blocks. A \<open>std::list\<close> is a list of nodes, each with an identity (what an
  iterator into the list holds), and the \<open>std::unordered_map\<close> maps a key to such
  an identity. A handle is the block's bytes, which are never modified. Each
  operation runs under the lock of its one shard, so the operations are
  atomic steps on the shard. Sizes are natural numbers: they are sizes of objects
  in memory.
\<close>

section \<open>Definitions\<close>

record Key =
  ck_file :: u64
  ck_offset :: u64

record Entry =
  ekey :: Key
  evalue :: bytes
  echarge :: nat

type_synonym cnode = "nat \<times> Entry"

record Shard =
  sh_order :: "cnode list"
  sh_index :: "Key \<Rightarrow> nat option"
  sh_charge :: nat
  sh_capacity :: nat
  sh_fresh :: nat

record BlockCache =
  bc_capacity :: nat
  bc_shards :: "Shard list"
  bc_hits :: u64
  bc_misses :: u64
  bc_evictions :: u64

definition KeyHash :: "Key \<Rightarrow> u64" where
  "KeyHash k =
     (let h = ck_file k * 0x9e3779b97f4a7c15;
          h = h XOR (ck_offset k + 0x9e3779b97f4a7c15 + push_bit 6 h + drop_bit 2 h)
      in h)"

definition ShardFor :: "BlockCache \<Rightarrow> Key \<Rightarrow> nat" where
  "ShardFor c key = unat (KeyHash key) mod length (bc_shards c)"

definition empty_shard :: "nat \<Rightarrow> Shard" where
  "empty_shard cap = \<lparr>sh_order = [], sh_index = Map.empty, sh_charge = 0, sh_capacity = cap, sh_fresh = 0\<rparr>"

definition new_BlockCache :: "nat \<Rightarrow> int \<Rightarrow> BlockCache" where
  "new_BlockCache cap num_shards =
     (let n = nat (max 1 num_shards); per_shard = cap div n
      in \<lparr>bc_capacity = cap, bc_shards = replicate n (empty_shard per_shard),
          bc_hits = 0, bc_misses = 0, bc_evictions = 0\<rparr>)"

text \<open>\<open>list::splice\<close> of one node to the front, and the entry an iterator points at.\<close>

definition touch :: "nat \<Rightarrow> cnode list \<Rightarrow> cnode list" where
  "touch i ns = filter (\<lambda>n. fst n = i) ns @ filter (\<lambda>n. fst n \<noteq> i) ns"

definition deref :: "nat \<Rightarrow> cnode list \<Rightarrow> Entry" where
  "deref i ns = the (map_of ns i)"

definition bc_Lookup :: "BlockCache \<Rightarrow> u64 \<Rightarrow> u64 \<Rightarrow> bytes option \<times> BlockCache" where
  "bc_Lookup c file off =
     (let key = \<lparr>ck_file = file, ck_offset = off\<rparr>; j = ShardFor c key; shard = bc_shards c ! j
      in case sh_index shard key of
           None \<Rightarrow> (None, c\<lparr>bc_misses := bc_misses c + 1\<rparr>)
         | Some it \<Rightarrow>
             (Some (evalue (deref it (sh_order shard))),
              c\<lparr>bc_shards := (bc_shards c)[j := shard\<lparr>sh_order := touch it (sh_order shard)\<rparr>],
                bc_hits := bc_hits c + 1\<rparr>))"

text \<open>The eviction loop, with the number of evictions it counts.\<close>

function Evict :: "Shard \<Rightarrow> Shard \<times> nat" where
  "Evict s =
     (if sh_capacity s < sh_charge s \<and> sh_order s \<noteq> [] then
        (let victim = last (sh_order s) in
         if length (sh_order s) = 1 then (s, 0)
         else let (s', n) = Evict (s\<lparr>sh_charge := sh_charge s - echarge (snd victim),
                                     sh_index := (sh_index s)(ekey (snd victim) := None),
                                     sh_order := butlast (sh_order s)\<rparr>)
              in (s', n + 1))
      else (s, 0))"
  by pat_completeness auto
termination
  by (relation "measure (\<lambda>s. length (sh_order s))") auto

declare Evict.simps [simp del]

definition bc_Insert :: "BlockCache \<Rightarrow> u64 \<Rightarrow> u64 \<Rightarrow> bytes \<Rightarrow> bytes \<times> BlockCache" where
  "bc_Insert c file off block =
     (let key = \<lparr>ck_file = file, ck_offset = off\<rparr>; j = ShardFor c key; shard = bc_shards c ! j
      in case sh_index shard key of
           Some existing \<Rightarrow>
             (evalue (deref existing (sh_order shard)),
              c\<lparr>bc_shards := (bc_shards c)[j := shard\<lparr>sh_order := touch existing (sh_order shard)\<rparr>]\<rparr>)
         | None \<Rightarrow>
             (let i = sh_fresh shard;
                  shard = shard\<lparr>sh_order := (i, \<lparr>ekey = key, evalue = block, echarge = length block\<rparr>) # sh_order shard,
                                sh_index := (sh_index shard)(key \<mapsto> i),
                                sh_charge := sh_charge shard + length block, sh_fresh := i + 1\<rparr>;
                  (shard, n) = Evict shard
              in (block, c\<lparr>bc_shards := (bc_shards c)[j := shard], bc_evictions := bc_evictions c + of_nat n\<rparr>)))"

fun EraseNodes :: "u64 \<Rightarrow> cnode list \<Rightarrow> Shard \<Rightarrow> Shard" where
  "EraseNodes file [] s = s"
| "EraseNodes file (n # ns) s =
     (if ck_file (ekey (snd n)) = file
      then EraseNodes file ns (s\<lparr>sh_charge := sh_charge s - echarge (snd n),
                                sh_index := (sh_index s)(ekey (snd n) := None),
                                sh_order := filter (\<lambda>m. fst m \<noteq> fst n) (sh_order s)\<rparr>)
      else EraseNodes file ns s)"

definition EraseFile :: "BlockCache \<Rightarrow> u64 \<Rightarrow> BlockCache" where
  "EraseFile c file = c\<lparr>bc_shards := map (\<lambda>s. EraseNodes file (sh_order s) s) (bc_shards c)\<rparr>"

definition charge_bytes :: "BlockCache \<Rightarrow> nat" where
  "charge_bytes c = foldl (\<lambda>total s. total + sh_charge s) 0 (bc_shards c)"

section \<open>Shard invariant\<close>

text \<open>
  The list and the index describe the same entries, every entry is charged its
  size, and the shard's charge is their sum.
\<close>

definition total_charge :: "cnode list \<Rightarrow> nat" where
  "total_charge ns = sum_list (map (echarge \<circ> snd) ns)"

definition index_ok :: "cnode list \<Rightarrow> (Key \<Rightarrow> nat option) \<Rightarrow> bool" where
  "index_ok ns m \<longleftrightarrow> distinct (map fst ns) \<and> distinct (map (ekey \<circ> snd) ns) \<and>
     (\<forall>k i. m k = Some i \<longleftrightarrow> (\<exists>e. (i, e) \<in> set ns \<and> ekey e = k))"

definition shard_ok :: "Shard \<Rightarrow> bool" where
  "shard_ok s \<longleftrightarrow> index_ok (sh_order s) (sh_index s) \<and> sh_charge s = total_charge (sh_order s) \<and>
     (\<forall>n \<in> set (sh_order s). fst n < sh_fresh s \<and> echarge (snd n) = length (evalue (snd n)))"

text \<open>A shard is within budget, or holds the one entry that exceeds it alone.\<close>

definition shard_bounded :: "Shard \<Rightarrow> bool" where
  "shard_bounded s \<longleftrightarrow> sh_charge s \<le> sh_capacity s \<or> length (sh_order s) \<le> 1"

definition shard_get :: "Shard \<Rightarrow> Key \<Rightarrow> bytes option" where
  "shard_get s k = map_of (map (\<lambda>n. (ekey (snd n), evalue (snd n))) (sh_order s)) k"

lemma mset_touch: "mset (touch i ns) = mset ns"
  by (induction ns) (auto simp: touch_def)

lemma set_touch [simp]: "set (touch i ns) = set ns"
  using mset_touch by (metis set_mset_mset)

lemma length_touch [simp]: "length (touch i ns) = length ns"
  using mset_touch by (metis size_mset)

lemma distinct_map_touch: "distinct (map f (touch i ns)) \<longleftrightarrow> distinct (map f ns)"
  by (metis mset_touch mset_map mset_eq_imp_distinct_iff)

lemma total_touch [simp]: "total_charge (touch i ns) = total_charge ns"
  unfolding total_charge_def by (metis mset_touch mset_map sum_mset_sum_list)

lemma index_ok_touch [simp]: "index_ok (touch i ns) m \<longleftrightarrow> index_ok ns m"
  by (simp add: index_ok_def distinct_map_touch)

lemma shard_get_iff:
  assumes "shard_ok s"
  shows "shard_get s k = Some v \<longleftrightarrow> (\<exists>i e. (i, e) \<in> set (sh_order s) \<and> ekey e = k \<and> evalue e = v)"
proof -
  have d: "distinct (map fst (map (\<lambda>n. (ekey (snd n), evalue (snd n))) (sh_order s)))"
    using assms by (simp add: shard_ok_def index_ok_def comp_def)
  show ?thesis unfolding shard_get_def map_of_eq_Some_iff [OF d] by force
qed

lemma index_get:
  assumes "shard_ok s"
  shows "(sh_index s k = None \<longleftrightarrow> shard_get s k = None) \<and>
    (\<forall>i. sh_index s k = Some i \<longrightarrow> shard_get s k = Some (evalue (deref i (sh_order s))))"
proof -
  have ix: "\<And>i. sh_index s k = Some i \<longleftrightarrow> (\<exists>e. (i, e) \<in> set (sh_order s) \<and> ekey e = k)"
    and d: "distinct (map fst (sh_order s))"
    using assms by (simp_all add: shard_ok_def index_ok_def)
  have "(\<exists>i. sh_index s k = Some i) \<longleftrightarrow> (\<exists>v. shard_get s k = Some v)"
    unfolding ix shard_get_iff [OF assms, of k] by blast
  then have none: "sh_index s k \<noteq> None \<longleftrightarrow> shard_get s k \<noteq> None" unfolding not_None_eq .
  have val: "shard_get s k = Some (evalue (deref i (sh_order s)))" if "sh_index s k = Some i" for i
  proof -
    from that have "\<exists>e. (i, e) \<in> set (sh_order s) \<and> ekey e = k" by (simp only: ix)
    then obtain e where e: "(i, e) \<in> set (sh_order s)" "ekey e = k" by blast
    have "map_of (sh_order s) i = Some e" by (rule map_of_is_SomeI [OF d e(1)])
    then have "deref i (sh_order s) = e" by (simp add: deref_def)
    then show ?thesis unfolding shard_get_iff [OF assms] using e by blast
  qed
  show ?thesis using none by (intro conjI allI impI val) argo
qed

lemma shard_ok_touch [simp]: "shard_ok (s\<lparr>sh_order := touch i (sh_order s)\<rparr>) \<longleftrightarrow> shard_ok s"
  by (simp add: shard_ok_def)

lemma shard_bounded_touch [simp]: "shard_bounded (s\<lparr>sh_order := touch i (sh_order s)\<rparr>) \<longleftrightarrow> shard_bounded s"
  by (simp add: shard_bounded_def)

lemma shard_get_touch:
  assumes "shard_ok s"
  shows "shard_get (s\<lparr>sh_order := touch i (sh_order s)\<rparr>) k = shard_get s k"
proof -
  have "shard_ok (s\<lparr>sh_order := touch i (sh_order s)\<rparr>)" using assms by simp
  note shard_get_iff [OF this, of k] shard_get_iff [OF assms, of k]
  then have "shard_get (s\<lparr>sh_order := touch i (sh_order s)\<rparr>) k = Some v \<longleftrightarrow> shard_get s k = Some v" for v
    by simp
  then show ?thesis by (metis option.exhaust)
qed

text \<open>Taking one node out, as the eviction loop and EraseFile do.\<close>

definition remove_node :: "Shard \<Rightarrow> cnode \<Rightarrow> Shard" where
  "remove_node s n = s\<lparr>sh_charge := sh_charge s - echarge (snd n),
     sh_index := (sh_index s)(ekey (snd n) := None),
     sh_order := filter (\<lambda>m. fst m \<noteq> fst n) (sh_order s)\<rparr>"

lemma filter_other: "fst n \<notin> fst ` set xs \<Longrightarrow> filter (\<lambda>m. fst m \<noteq> fst n) xs = xs"
  by (induction xs) auto

lemma filter_ids:
  "distinct (map fst ns) \<Longrightarrow> n \<in> set ns \<Longrightarrow> m \<in> set (filter (\<lambda>m. fst m \<noteq> fst n) ns) \<longleftrightarrow> m \<in> set ns \<and> m \<noteq> n"
  by (auto simp: distinct_map inj_on_def)

lemma total_filter:
  "distinct (map fst ns) \<Longrightarrow> n \<in> set ns \<Longrightarrow>
     total_charge (filter (\<lambda>m. fst m \<noteq> fst n) ns) + echarge (snd n) = total_charge ns"
proof (induction ns)
  case (Cons x ns)
  show ?case
  proof (cases "fst x = fst n")
    case True
    then have "x = n" using Cons.prems by force
    moreover from this have "filter (\<lambda>m. fst m \<noteq> fst n) ns = ns"
      using Cons.prems by (intro filter_other) simp
    ultimately show ?thesis by (simp add: total_charge_def)
  next
    case False
    then have "n \<in> set ns" using Cons.prems by auto
    with False Cons show ?thesis by (simp add: total_charge_def)
  qed
qed simp

lemma index_ok_remove:
  assumes "index_ok ns m" "n \<in> set ns"
  shows "index_ok (filter (\<lambda>m. fst m \<noteq> fst n) ns) (m(ekey (snd n) := None))"
proof -
  have d: "distinct (map fst ns)" and k: "distinct (map (ekey \<circ> snd) ns)"
    and m: "\<And>k i. m k = Some i \<longleftrightarrow> (\<exists>e. (i, e) \<in> set ns \<and> ekey e = k)"
    using assms(1) by (simp_all add: index_ok_def)
  have "(m(ekey (snd n) := None)) k = Some i \<longleftrightarrow>
      (\<exists>e. (i, e) \<in> set (filter (\<lambda>m. fst m \<noteq> fst n) ns) \<and> ekey e = k)" for k i
  proof (cases "k = ekey (snd n)")
    case True
    have "x = n" if "x \<in> set ns" "ekey (snd x) = k" for x
      using that k assms(2) True by (auto simp: distinct_map inj_on_def)
    then show ?thesis using True filter_ids [OF d assms(2)] by auto
  next
    case False
    then show ?thesis by (simp only: fun_upd_apply m if_False filter_ids [OF d assms(2)]) auto
  qed
  then show ?thesis using d k by (simp add: index_ok_def distinct_map_filter)
qed

lemma shard_ok_remove:
  assumes "shard_ok s" "n \<in> set (sh_order s)"
  shows "shard_ok (remove_node s n)"
proof -
  have "distinct (map fst (sh_order s))" using assms(1) by (simp add: shard_ok_def index_ok_def)
  from total_filter [OF this assms(2)] assms index_ok_remove [of "sh_order s" "sh_index s" n]
  show ?thesis by (auto simp: shard_ok_def remove_node_def)
qed

lemma remove_last:
  assumes "shard_ok s" "sh_order s = xs @ [n]"
  shows "s\<lparr>sh_charge := sh_charge s - echarge (snd n),
     sh_index := (sh_index s)(ekey (snd n) := None), sh_order := butlast (sh_order s)\<rparr> = remove_node s n"
proof -
  have "filter (\<lambda>m. fst m \<noteq> fst n) xs = xs"
    using assms by (intro filter_other) (simp add: shard_ok_def index_ok_def)
  then show ?thesis using assms(2) by (simp add: remove_node_def)
qed

lemma sh_order_remove_last: "shard_ok s \<Longrightarrow> sh_order s = xs @ [n] \<Longrightarrow> sh_order (remove_node s n) = xs"
  using remove_last [of s xs n] by (metis Shard.select_convs(1) Shard.surjective Shard.update_convs(1) butlast_snoc)

lemma remove_node_fields [simp]:
  "sh_capacity (remove_node s n) = sh_capacity s" "sh_fresh (remove_node s n) = sh_fresh s"
  by (simp_all add: remove_node_def)

text \<open>
  Eviction keeps the most recently used entries: a prefix of the list, the
  longest one that fits the budget, and never less than one entry.
\<close>

lemma Evict_spec:
  assumes "shard_ok s" "Evict s = (s', n)"
  shows "shard_ok s' \<and> sh_capacity s' = sh_capacity s \<and> n \<le> length (sh_order s) \<and>
    sh_order s' = take (length (sh_order s) - n) (sh_order s) \<and> (sh_order s \<noteq> [] \<longrightarrow> sh_order s' \<noteq> []) \<and>
    shard_bounded s' \<and>
    (n \<noteq> 0 \<longrightarrow> sh_capacity s < total_charge (take (length (sh_order s) - n + 1) (sh_order s)))"
  using assms
proof (induction "length (sh_order s)" arbitrary: s n rule: less_induct)
  case less
  show ?case
  proof (cases "sh_capacity s < sh_charge s \<and> 1 < length (sh_order s)")
    case False
    then have "sh_capacity s < sh_charge s \<Longrightarrow> sh_order s = [] \<or> length (sh_order s) = 1"
      by (cases "sh_order s") auto
    then have "s' = s \<and> n = 0"
      using less.prems(2) by (subst (asm) Evict.simps) (auto simp: Let_def split: if_splits)
    with False less.prems show ?thesis by (auto simp: shard_bounded_def)
  next
    case True
    then have ne: "sh_order s \<noteq> []" by auto
    define v xs where "v = last (sh_order s)" and "xs = butlast (sh_order s)"
    have o: "sh_order s = xs @ [v]" using ne by (simp add: v_def xs_def)
    obtain m where ev: "Evict (remove_node s v) = (s', m)" "n = m + 1"
      using less.prems(2) True ne remove_last [OF less.prems(1) o]
      by (subst (asm) Evict.simps) (auto simp: Let_def o split: prod.splits)
    have ok': "shard_ok (remove_node s v)" using shard_ok_remove [OF less.prems(1)] o by simp
    have ord: "sh_order (remove_node s v) = xs" by (rule sh_order_remove_last [OF less.prems(1) o])
    have c: "sh_charge s = total_charge (sh_order s)" using less.prems(1) by (simp add: shard_ok_def)
    have xs: "xs \<noteq> []" using True o by auto
    from less.hyps [OF _ ok' ev(1)] ord o xs True c ev(2) show ?thesis
      by (cases m) (auto simp: Suc_diff_le)
  qed
qed

lemma shard_get_sub:
  assumes "shard_ok s" "shard_ok s'" "set (sh_order s') \<subseteq> set (sh_order s)" "shard_get s' k = Some v"
  shows "shard_get s k = Some v"
  using assms(3,4) unfolding shard_get_iff [OF assms(1)] shard_get_iff [OF assms(2)] by blast

section \<open>The cache as a partial map\<close>

definition cache_ok :: "BlockCache \<Rightarrow> bool" where
  "cache_ok c \<longleftrightarrow> bc_shards c \<noteq> [] \<and>
     (\<forall>s \<in> set (bc_shards c). shard_ok s \<and> shard_bounded s)"

definition cache_get :: "BlockCache \<Rightarrow> u64 \<Rightarrow> u64 \<Rightarrow> bytes option" where
  "cache_get c file off = (let k = \<lparr>ck_file = file, ck_offset = off\<rparr> in shard_get (bc_shards c ! ShardFor c k) k)"

lemma ShardFor_less: "bc_shards c \<noteq> [] \<Longrightarrow> ShardFor c k < length (bc_shards c)"
  by (simp add: ShardFor_def)

lemma ShardFor_update [simp]: "ShardFor (c\<lparr>bc_shards := (bc_shards c)[j := s]\<rparr>) k = ShardFor c k"
  "ShardFor (c\<lparr>bc_misses := m\<rparr>) k = ShardFor c k" "ShardFor (c\<lparr>bc_hits := h\<rparr>) k = ShardFor c k"
  "ShardFor (c\<lparr>bc_evictions := n\<rparr>) k = ShardFor c k"
  by (simp_all add: ShardFor_def)

lemma cache_ok_shard: "cache_ok c \<Longrightarrow> shard_ok (bc_shards c ! ShardFor c k) \<and> shard_bounded (bc_shards c ! ShardFor c k)"
  using ShardFor_less by (auto simp: cache_ok_def)

lemma cache_ok_update:
  "cache_ok c \<Longrightarrow> shard_ok s \<Longrightarrow> shard_bounded s \<Longrightarrow> bc_shards c' = (bc_shards c)[j := s] \<Longrightarrow> cache_ok c'"
  using set_update_subset_insert [of "bc_shards c" j s] by (auto simp: cache_ok_def)

lemma cache_get_update:
  assumes "cache_ok c" "bc_shards c' = (bc_shards c)[j := s]" "j < length (bc_shards c)"
  shows "cache_get c' file off = (let k = \<lparr>ck_file = file, ck_offset = off\<rparr> in
    if ShardFor c k = j then shard_get s k else cache_get c file off)"
  using assms by (auto simp: cache_get_def Let_def ShardFor_def)

lemma cache_new:
  "cache_ok (new_BlockCache cap n)" "cache_get (new_BlockCache cap n) file off = None"
proof -
  have e: "shard_ok (empty_shard p) \<and> shard_bounded (empty_shard p)" for p
    by (auto simp: shard_ok_def shard_bounded_def empty_shard_def index_ok_def total_charge_def)
  then show "cache_ok (new_BlockCache cap n)" by (auto simp: cache_ok_def new_BlockCache_def Let_def)
  have "ShardFor (new_BlockCache cap n) k < nat (max 1 n)" for k
    by (simp add: ShardFor_def new_BlockCache_def Let_def)
  then show "cache_get (new_BlockCache cap n) file off = None"
    by (simp add: cache_get_def new_BlockCache_def Let_def shard_get_def empty_shard_def)
qed

lemma bc_Lookup_spec:
  assumes "cache_ok c" "bc_Lookup c file off = (r, c')"
  shows "cache_ok c' \<and> r = cache_get c file off \<and> cache_get c' = cache_get c"
proof -
  define k where "k = \<lparr>ck_file = file, ck_offset = off\<rparr>"
  define s where "s = bc_shards c ! ShardFor c k"
  have s: "shard_ok s" "shard_bounded s" using cache_ok_shard [OF assms(1)] by (auto simp: s_def)
  have get: "cache_get c file off = shard_get s k" by (simp add: cache_get_def k_def s_def Let_def)
  show ?thesis
  proof (cases "sh_index s k")
    case None
    with assms get index_get [OF s(1), of k] show ?thesis
      by (auto simp: bc_Lookup_def Let_def k_def [symmetric] s_def [symmetric] cache_ok_def cache_get_def fun_eq_iff)
  next
    case (Some i)
    let ?s' = "s\<lparr>sh_order := touch i (sh_order s)\<rparr>"
    have c': "c' = c\<lparr>bc_shards := (bc_shards c)[ShardFor c k := ?s'], bc_hits := bc_hits c + 1\<rparr>"
      and r: "r = shard_get s k"
      using assms(2) Some index_get [OF s(1), of k]
      by (auto simp: bc_Lookup_def Let_def k_def [symmetric] s_def [symmetric])
    have "cache_ok c'" by (rule cache_ok_update [OF assms(1), of ?s']) (use s c' in simp_all)
    moreover have "cache_get c' = cache_get c"
    proof (intro ext)
      fix f o'
      show "cache_get c' f o' = cache_get c f o'"
        using cache_get_update [OF assms(1), of c' "ShardFor c k" ?s' f o'] c' ShardFor_less assms(1)
          shard_get_touch [OF s(1), of i]
        by (auto simp: Let_def cache_ok_def cache_get_def s_def)
    qed
    ultimately show ?thesis using r get by simp
  qed
qed

text \<open>Inserting keeps an entry that is already there, and evicts but never changes others.\<close>

lemma shard_ok_push:
  assumes "shard_ok s" "sh_index s k = None"
  shows "shard_ok (s\<lparr>sh_order := (sh_fresh s, \<lparr>ekey = k, evalue = b, echarge = length b\<rparr>) # sh_order s,
    sh_index := (sh_index s)(k \<mapsto> sh_fresh s), sh_charge := sh_charge s + length b,
    sh_fresh := sh_fresh s + 1\<rparr>)"
proof -
  have m: "\<And>k i. sh_index s k = Some i \<longleftrightarrow> (\<exists>e. (i, e) \<in> set (sh_order s) \<and> ekey e = k)"
    and new: "\<And>n. n \<in> set (sh_order s) \<Longrightarrow> fst n < sh_fresh s"
    using assms(1) by (simp_all add: shard_ok_def index_ok_def)
  have k: "ekey e \<noteq> k" if "(i, e) \<in> set (sh_order s)" for i e
    using m [of k i] assms(2) that by auto
  have i: "sh_fresh s \<notin> fst ` set (sh_order s)" using new by force
  have k': "k \<notin> (ekey \<circ> snd) ` set (sh_order s)" using k by force
  have "((sh_index s)(k \<mapsto> sh_fresh s)) k' = Some i' \<longleftrightarrow>
    (\<exists>e. (i', e) \<in> set ((sh_fresh s, \<lparr>ekey = k, evalue = b, echarge = length b\<rparr>) # sh_order s) \<and> ekey e = k')"
    for k' i' using m [of k' i'] k by (cases "k' = k") (auto simp del: m)
  then have "index_ok ((sh_fresh s, \<lparr>ekey = k, evalue = b, echarge = length b\<rparr>) # sh_order s)
      ((sh_index s)(k \<mapsto> sh_fresh s))"
    using assms(1) i k' by (simp add: index_ok_def shard_ok_def)
  then show ?thesis using assms(1) by (auto simp: shard_ok_def total_charge_def less_Suc_eq)
qed

lemma bc_Insert_spec:
  assumes "cache_ok c" "bc_Insert c file off block = (r, c')"
  shows "cache_ok c' \<and> r = (case cache_get c file off of None \<Rightarrow> block | Some v \<Rightarrow> v) \<and>
    cache_get c' file off = Some r \<and>
    (\<forall>f o' v. cache_get c' f o' = Some v \<longrightarrow> f = file \<and> o' = off \<and> v = r \<or> cache_get c f o' = Some v)"
proof -
  define k where "k = \<lparr>ck_file = file, ck_offset = off\<rparr>"
  define j s where "j = ShardFor c k" and "s = bc_shards c ! j"
  have s: "shard_ok s" "shard_bounded s" using cache_ok_shard [OF assms(1)] by (auto simp: s_def j_def)
  have j: "j < length (bc_shards c)" using ShardFor_less assms(1) by (auto simp: cache_ok_def j_def)
  have get: "cache_get c file off = shard_get s k" by (simp add: cache_get_def k_def s_def j_def Let_def)
  have get': "cache_get c f o' = shard_get s \<lparr>ck_file = f, ck_offset = o'\<rparr>"
    if "ShardFor c \<lparr>ck_file = f, ck_offset = o'\<rparr> = j" for f o'
    using that by (simp add: cache_get_def s_def Let_def)
  have lift: ?thesis
    if c': "bc_shards c' = (bc_shards c)[j := s']" and ok': "shard_ok s'" "shard_bounded s'"
      and r: "r = (case shard_get s k of None \<Rightarrow> block | Some v \<Rightarrow> v)" "shard_get s' k = Some r"
      and sub: "\<And>k' v. shard_get s' k' = Some v \<Longrightarrow> k' \<noteq> k \<Longrightarrow> shard_get s k' = Some v" for s'
  proof -
    note g = cache_get_update [OF assms(1) c' j, unfolded Let_def]
    have "f = file \<and> o' = off \<and> v = r \<or> cache_get c f o' = Some v" if "cache_get c' f o' = Some v" for f o' v
    proof (cases "\<lparr>ck_file = f, ck_offset = o'\<rparr> = k")
      case True
      then show ?thesis using that g [of f o'] r(2) by (simp add: k_def j_def)
    next
      case False
      then show ?thesis using that g [of f o'] sub get' [of f o'] by (auto split: if_splits)
    qed
    then show ?thesis
      using cache_ok_update [OF assms(1) ok' c'] g [of "file" "off"] r get by (simp add: k_def j_def)
  qed
  show ?thesis
  proof (cases "sh_index s k")
    case (Some i)
    show ?thesis
      by (rule lift [of "s\<lparr>sh_order := touch i (sh_order s)\<rparr>"])
        (use s assms(2) Some index_get [OF s(1), of k] shard_get_touch [OF s(1), of i] in
          \<open>auto simp: bc_Insert_def Let_def k_def [symmetric] j_def [symmetric] s_def [symmetric]\<close>)
  next
    case None
    define n where "n = (sh_fresh s, \<lparr>ekey = k, evalue = block, echarge = length block\<rparr>)"
    let ?s1 = "s\<lparr>sh_order := n # sh_order s, sh_index := (sh_index s)(k \<mapsto> sh_fresh s),
      sh_charge := sh_charge s + length block, sh_fresh := sh_fresh s + 1\<rparr>"
    obtain s' m where ev: "Evict ?s1 = (s', m)" by force
    have ok1: "shard_ok ?s1" unfolding n_def by (rule shard_ok_push [OF s(1) None])
    from Evict_spec [OF ok1 ev] have ok': "shard_ok s'" "shard_bounded s'"
      and "sh_order s' \<noteq> []" "\<exists>l. sh_order s' = take l (n # sh_order s)" by auto
    then obtain l where o: "sh_order s' = n # take l (sh_order s)" by (metis take_Cons' take_eq_Nil2 list.distinct(1))
    have none: "shard_get s k = None" using index_get [OF s(1), of k] None by simp
    have c': "bc_shards c' = (bc_shards c)[j := s']" and r: "r = block"
      using assms(2) None ev
      by (auto simp: bc_Insert_def Let_def k_def [symmetric] j_def [symmetric] s_def [symmetric] n_def)
    have g': "shard_get s' k = Some r" using o r by (simp add: shard_get_def n_def)
    have sub: "shard_get s k' = Some v" if "shard_get s' k' = Some v" "k' \<noteq> k" for k' v
      using that set_take_subset [of l "sh_order s"]
      unfolding shard_get_iff [OF s(1)] shard_get_iff [OF ok'(1)] by (auto simp: o n_def)
    show ?thesis by (rule lift [OF c' ok' _ g']) (use r none sub in auto)
  qed
qed

lemma EraseNodes_spec:
  assumes "shard_ok s" "set ns \<subseteq> set (sh_order s)" "distinct (map fst ns)"
  shows "shard_ok (EraseNodes file ns s) \<and> sh_capacity (EraseNodes file ns s) = sh_capacity s \<and>
    set (sh_order (EraseNodes file ns s)) =
      {m \<in> set (sh_order s). \<not> (m \<in> set ns \<and> ck_file (ekey (snd m)) = file)} \<and>
    length (sh_order (EraseNodes file ns s)) \<le> length (sh_order s)"
  using assms
proof (induction ns arbitrary: s)
  case (Cons n ns)
  show ?case
  proof (cases "ck_file (ekey (snd n)) = file")
    case False
    with Cons show ?thesis by auto
  next
    case True
    have n: "n \<in> set (sh_order s)" using Cons.prems by simp
    have d: "distinct (map fst (sh_order s))" using Cons.prems(1) by (simp add: shard_ok_def index_ok_def)
    have o: "set (sh_order (remove_node s n)) = set (sh_order s) - {n}"
      using filter_ids [OF d n] by (auto simp: remove_node_def)
    have "n \<notin> set ns" using Cons.prems(3) by force
    then have "set ns \<subseteq> set (sh_order (remove_node s n))" using o Cons.prems(2) by auto
    note IH = Cons.IH [OF shard_ok_remove [OF Cons.prems(1) n] this]
    have "length (sh_order (remove_node s n)) \<le> length (sh_order s)" by (simp add: remove_node_def)
    moreover have "EraseNodes file (n # ns) s = EraseNodes file ns (remove_node s n)"
      using True by (simp add: remove_node_def)
    ultimately show ?thesis using IH Cons.prems(3) o True \<open>n \<notin> set ns\<close> by auto
  qed
qed simp

lemma total_charge_mono:
  "set xs \<subseteq> set ys \<Longrightarrow> distinct xs \<Longrightarrow> distinct ys \<Longrightarrow> total_charge xs \<le> total_charge ys"
  by (simp add: total_charge_def sum_list_distinct_conv_sum_set sum_mono2)

lemma bc_EraseFile_spec:
  assumes "cache_ok c"
  shows "cache_ok (EraseFile c file) \<and>
    cache_get (EraseFile c file) f off = (if f = file then None else cache_get c f off)"
proof -
  define er where "er s = EraseNodes file (sh_order s) s" for s
  have er: "shard_ok (er s) \<and> sh_capacity (er s) = sh_capacity s \<and>
      set (sh_order (er s)) = {m \<in> set (sh_order s). ck_file (ekey (snd m)) \<noteq> file} \<and>
      length (sh_order (er s)) \<le> length (sh_order s)" if "shard_ok s" for s
    using EraseNodes_spec [OF that, of "sh_order s" "file"] that
    by (auto simp: er_def shard_ok_def index_ok_def)
  have "shard_bounded (er s)" if s: "shard_ok s" "shard_bounded s" for s
  proof -
    have "distinct (sh_order (er s))" "distinct (sh_order s)"
      using er [OF s(1)] s(1) by (auto simp: shard_ok_def index_ok_def distinct_map)
    then have "total_charge (sh_order (er s)) \<le> total_charge (sh_order s)"
      using er [OF s(1)] by (intro total_charge_mono) auto
    then show ?thesis using er [OF s(1)] s by (auto simp: shard_bounded_def shard_ok_def)
  qed
  then have 1: "cache_ok (EraseFile c file)"
    using assms er by (auto simp: cache_ok_def EraseFile_def er_def [symmetric])
  define k where "k = \<lparr>ck_file = f, ck_offset = off\<rparr>"
  define s where "s = bc_shards c ! ShardFor c k"
  have s: "shard_ok s" using cache_ok_shard [OF assms] by (simp add: s_def)
  have "cache_get (EraseFile c file) f off = shard_get (er s) k"
    using ShardFor_less assms
    by (auto simp: cache_get_def EraseFile_def Let_def k_def s_def er_def ShardFor_def cache_ok_def)
  moreover have "shard_get (er s) k = Some v \<longleftrightarrow> f \<noteq> file \<and> shard_get s k = Some v" for v
  proof -
    have "ck_file k = f" and "set (sh_order (er s)) = {m \<in> set (sh_order s). ck_file (ekey (snd m)) \<noteq> file}"
      using er [OF s] by (simp_all add: k_def)
    then show ?thesis
      unfolding shard_get_iff [OF s] shard_get_iff [OF conjunct1 [OF er [OF s]]] by (simp, blast)
  qed
  then have "shard_get (er s) k = (if f = file then None else shard_get s k)" by (intro option_ext) simp
  moreover have "cache_get c f off = shard_get s k" by (simp add: cache_get_def k_def s_def Let_def)
  ultimately show ?thesis using 1 by simp
qed

section \<open>The contract a table reader relies on\<close>

text \<open>
  A cache is a partial map that may forget. \<open>coherent F c\<close> says that what it holds
  agrees with \<open>F\<close>, the blocks as they are on disk.
\<close>

locale block_store =
  fixes inv :: "'c \<Rightarrow> bool"
    and get :: "'c \<Rightarrow> u64 \<Rightarrow> u64 \<Rightarrow> bytes option"
    and look :: "'c \<Rightarrow> u64 \<Rightarrow> u64 \<Rightarrow> bytes option \<times> 'c"
    and ins :: "'c \<Rightarrow> u64 \<Rightarrow> u64 \<Rightarrow> bytes \<Rightarrow> bytes \<times> 'c"
  assumes look_spec: "inv c \<Longrightarrow> look c f p = (r, c') \<Longrightarrow> inv c' \<and> r = get c f p \<and> get c' = get c"
    and ins_spec: "inv c \<Longrightarrow> ins c f p b = (h, c') \<Longrightarrow>
      inv c' \<and> h = (case get c f p of None \<Rightarrow> b | Some v \<Rightarrow> v) \<and> get c' f p = Some h \<and>
      (\<forall>f' p' v. get c' f' p' = Some v \<longrightarrow> f' = f \<and> p' = p \<and> v = h \<or> get c f' p' = Some v)"
begin

definition coherent :: "(u64 \<Rightarrow> u64 \<Rightarrow> bytes option) \<Rightarrow> 'c \<Rightarrow> bool" where
  "coherent F c \<longleftrightarrow> inv c \<and> (\<forall>f p v. get c f p = Some v \<longrightarrow> F f p = Some v)"

lemma coherent_look:
  "coherent F c \<Longrightarrow> look c f p = (r, c') \<Longrightarrow> coherent F c' \<and> (\<forall>v. r = Some v \<longrightarrow> F f p = Some v)"
  using look_spec [of c f p r c'] by (auto simp: coherent_def)

lemma coherent_ins:
  assumes "coherent F c" "F f p = Some b" "ins c f p b = (h, c')"
  shows "coherent F c' \<and> h = b"
proof -
  have F: "\<And>f p v. get c f p = Some v \<Longrightarrow> F f p = Some v" and "inv c"
    using assms(1) by (simp_all add: coherent_def)
  note i = ins_spec [OF this(2) assms(3)]
  then have "h = b" using F [of f p] assms(2) by (auto split: option.splits)
  then have "F f' p' = Some v" if "get c' f' p' = Some v" for f' p' v
    using that i F [of f' p' v] assms(2) by blast
  with i \<open>h = b\<close> show ?thesis by (simp add: coherent_def)
qed

end

interpretation lru: block_store cache_ok cache_get bc_Lookup bc_Insert
  by unfold_locales (rule bc_Lookup_spec bc_Insert_spec; assumption)+

section \<open>Runs of the cache\<close>

text \<open>
  The states a cache of the given capacity and shard count reaches when every
  block inserted for a fno and offset is the one \<open>F\<close> gives.
\<close>

inductive cache_run :: "(u64 \<Rightarrow> u64 \<Rightarrow> bytes) \<Rightarrow> nat \<Rightarrow> int \<Rightarrow> BlockCache \<Rightarrow> bool" for F cap n where
  run_new: "cache_run F cap n (new_BlockCache cap n)"
| run_lookup: "cache_run F cap n c \<Longrightarrow> cache_run F cap n (snd (bc_Lookup c fno off))"
| run_insert: "cache_run F cap n c \<Longrightarrow> cache_run F cap n (snd (bc_Insert c fno off (F fno off)))"
| run_erase: "cache_run F cap n c \<Longrightarrow> cache_run F cap n (EraseFile c fno)"

lemma cache_run_coherent: "cache_run F cap n c \<Longrightarrow> lru.coherent (\<lambda>f p. Some (F f p)) c"
proof (induction rule: cache_run.induct)
  case run_new
  then show ?case using cache_new [of cap n] by (simp add: lru.coherent_def)
next
  case (run_lookup c fno off)
  then show ?case using lru.coherent_look by (metis prod.collapse)
next
  case (run_insert c fno off)
  then show ?case using lru.coherent_ins by (metis prod.collapse)
next
  case (run_erase c fno)
  then show ?case using bc_EraseFile_spec [of c] by (auto simp: lru.coherent_def)
qed

text \<open>Every cached value is the block of some file and offset.\<close>

definition own_blocks :: "(u64 \<Rightarrow> u64 \<Rightarrow> bytes) \<Rightarrow> Shard \<Rightarrow> bool" where
  "own_blocks F s \<longleftrightarrow> (\<forall>m \<in> set (sh_order s). \<exists>f p. evalue (snd m) = F f p)"

lemma own_blocks_touch [simp]: "own_blocks F (s\<lparr>sh_order := touch i (sh_order s)\<rparr>) \<longleftrightarrow> own_blocks F s"
  by (simp add: own_blocks_def)

lemma bc_Insert_shards:
  assumes "cache_ok c"
  shows "\<exists>j s'. bc_shards (snd (bc_Insert c fno off b)) = (bc_shards c)[j := s'] \<and>
    (j < length (bc_shards c) \<longrightarrow> sh_capacity s' = sh_capacity (bc_shards c ! j) \<and>
      (\<forall>m \<in> set (sh_order s'). m \<in> set (sh_order (bc_shards c ! j)) \<or> evalue (snd m) = b))"
proof -
  define k where "k = \<lparr>ck_file = fno, ck_offset = off\<rparr>"
  define j s where "j = ShardFor c k" and "s = bc_shards c ! j"
  have s: "shard_ok s" using cache_ok_shard [OF assms] by (simp add: s_def j_def)
  show ?thesis
  proof (cases "sh_index s k")
    case None
    let ?x = "(sh_fresh s, \<lparr>ekey = k, evalue = b, echarge = length b\<rparr>)"
    obtain s' m where ev: "Evict (s\<lparr>sh_order := ?x # sh_order s,
        sh_index := (sh_index s)(k \<mapsto> sh_fresh s), sh_charge := sh_charge s + length b,
        sh_fresh := sh_fresh s + 1\<rparr>) = (s', m)" by force
    have e: "sh_capacity s' = sh_capacity s" "\<exists>l. sh_order s' = take l (?x # sh_order s)"
      using Evict_spec [OF shard_ok_push [OF s None] ev] by auto
    then have "\<forall>m \<in> set (sh_order s'). m \<in> set (sh_order s) \<or> evalue (snd m) = b"
      by (metis Entry.select_convs(2) in_set_takeD set_ConsD snd_conv)
    moreover have "bc_shards (snd (bc_Insert c fno off b)) = (bc_shards c)[j := s']"
      using None ev by (simp add: bc_Insert_def Let_def k_def [symmetric] j_def [symmetric] s_def [symmetric])
    ultimately show ?thesis using e(1) s_def by blast
  next
    case (Some i)
    then have "bc_shards (snd (bc_Insert c fno off b)) = (bc_shards c)[j := s\<lparr>sh_order := touch i (sh_order s)\<rparr>]"
      by (simp add: bc_Insert_def Let_def k_def [symmetric] j_def [symmetric] s_def [symmetric])
    then show ?thesis using s_def
      by (intro exI [of _ j] exI [of _ "s\<lparr>sh_order := touch i (sh_order s)\<rparr>"]) simp
  qed
qed

lemma cache_run_values: "cache_run F cap n c \<Longrightarrow> \<forall>s \<in> set (bc_shards c). own_blocks F s"
proof (induction rule: cache_run.induct)
  case run_new
  then show ?case by (simp add: new_BlockCache_def Let_def own_blocks_def empty_shard_def)
next
  case (run_lookup c fno off)
  let ?j = "ShardFor c \<lparr>ck_file = fno, ck_offset = off\<rparr>"
  have "cache_ok c" using cache_run_coherent [OF run_lookup(1)] by (simp add: lru.coherent_def)
  then have "own_blocks F (bc_shards c ! ?j)" using run_lookup(2) ShardFor_less by (simp add: cache_ok_def)
  then show ?case using run_lookup(2)
    by (auto simp: bc_Lookup_def Let_def split: option.split dest!: set_update_subset_insert [THEN subsetD])
next
  case (run_insert c fno off)
  have "cache_ok c" using cache_run_coherent [OF run_insert(1)] by (simp add: lru.coherent_def)
  then obtain j s' where u: "bc_shards (snd (bc_Insert c fno off (F fno off))) = (bc_shards c)[j := s']"
    and s': "j < length (bc_shards c) \<longrightarrow>
      (\<forall>m \<in> set (sh_order s'). m \<in> set (sh_order (bc_shards c ! j)) \<or> evalue (snd m) = F fno off)"
    using bc_Insert_shards by blast
  show ?case
  proof (cases "j < length (bc_shards c)")
    case True
    then have "own_blocks F s'" using s' run_insert(2) by (fastforce simp: own_blocks_def)
    then show ?thesis using run_insert(2) u set_update_subset_insert [of "bc_shards c" j s'] by auto
  qed (use u run_insert(2) in \<open>simp add: list_update_beyond\<close>)
next
  case (run_erase c fno)
  have ok: "cache_ok c" using cache_run_coherent [OF run_erase(1)] by (simp add: lru.coherent_def)
  have "own_blocks F (EraseNodes fno (sh_order s) s)" if "s \<in> set (bc_shards c)" for s
    using EraseNodes_spec [of s "sh_order s" fno] ok run_erase(2) that
    by (auto simp: cache_ok_def shard_ok_def index_ok_def own_blocks_def)
  then show ?case by (simp add: EraseFile_def)
qed

lemma foldl_add_charge: "foldl (\<lambda>total s. total + sh_charge s) a ss = a + sum_list (map sh_charge ss)"
  by (induction ss arbitrary: a) auto

text \<open>Shard count and shard capacities never change.\<close>

definition shape :: "BlockCache \<Rightarrow> nat \<times> nat list" where
  "shape c = (bc_capacity c, map sh_capacity (bc_shards c))"

lemma shape_ops:
  assumes "cache_ok c"
  shows "shape (snd (bc_Lookup c fno off)) = shape c" "shape (snd (bc_Insert c fno off b)) = shape c"
    "shape (EraseFile c fno) = shape c"
proof -
  have upd: "shape (c\<lparr>bc_shards := (bc_shards c)[j := s]\<rparr>) = shape c"
    if "j < length (bc_shards c) \<longrightarrow> sh_capacity s = sh_capacity (bc_shards c ! j)" for j s
    using that by (cases "j < length (bc_shards c)") (auto simp: shape_def map_update list_update_same_conv list_update_beyond)
  have ext: "shape (c'\<lparr>bc_hits := h\<rparr>) = shape c'" "shape (c'\<lparr>bc_misses := h\<rparr>) = shape c'"
    "shape (c'\<lparr>bc_evictions := h\<rparr>) = shape c'" for c' h by (simp_all add: shape_def)
  show "shape (snd (bc_Lookup c fno off)) = shape c"
    by (auto simp: bc_Lookup_def Let_def ext upd split: option.split)
  obtain j s' where "bc_shards (snd (bc_Insert c fno off b)) = (bc_shards c)[j := s']"
    "j < length (bc_shards c) \<longrightarrow> sh_capacity s' = sh_capacity (bc_shards c ! j)"
    using bc_Insert_shards [OF assms] by blast
  moreover have "bc_capacity (snd (bc_Insert c fno off b)) = bc_capacity c"
    by (simp add: bc_Insert_def Let_def split: option.split prod.split)
  ultimately show "shape (snd (bc_Insert c fno off b)) = shape c" using upd [of j s'] by (simp add: shape_def)
  have "sh_capacity (EraseNodes fno (sh_order s) s) = sh_capacity s" if "s \<in> set (bc_shards c)" for s
    using EraseNodes_spec [of s "sh_order s" "fno"] assms that
    by (auto simp: cache_ok_def shard_ok_def index_ok_def)
  then show "shape (EraseFile c fno) = shape c" by (simp add: shape_def EraseFile_def)
qed

lemma cache_run_shape:
  "cache_run F cap n c \<Longrightarrow> shape c = (cap, replicate (nat (max 1 n)) (cap div nat (max 1 n)))"
proof (induction rule: cache_run.induct)
  case run_new
  then show ?case by (simp add: shape_def new_BlockCache_def Let_def empty_shard_def map_replicate)
qed (use shape_ops cache_run_coherent in \<open>auto simp: lru.coherent_def\<close>)

section \<open>Least recently used\<close>

text \<open>
  What a shard promises: a list of keys and blocks, the most recently used first. A
  lookup moves its entry to the front; an insertion puts the block in front and
  keeps, of the others, the longest prefix that fits into what is left of the
  capacity; erasing a file removes its blocks.
\<close>

datatype cache_op = CLookup u64 u64 | CInsert u64 u64 bytes | CErase u64

type_synonym lru = "(Key \<times> bytes) list"

definition to_front :: "Key \<Rightarrow> lru \<Rightarrow> lru" where
  "to_front k xs = filter (\<lambda>x. fst x = k) xs @ filter (\<lambda>x. fst x \<noteq> k) xs"

fun fitting :: "nat \<Rightarrow> lru \<Rightarrow> lru" where
  "fitting room [] = []"
| "fitting room (x # xs) = (if length (snd x) \<le> room then x # fitting (room - length (snd x)) xs else [])"

fun lru_step :: "nat \<Rightarrow> lru \<Rightarrow> cache_op \<Rightarrow> lru" where
  "lru_step cap xs (CLookup f p) = to_front \<lparr>ck_file = f, ck_offset = p\<rparr> xs"
| "lru_step cap xs (CInsert f p b) =
     (let k = \<lparr>ck_file = f, ck_offset = p\<rparr> in
      if k \<in> fst ` set xs then to_front k xs
      else (k, b) # (if length b \<le> cap then fitting (cap - length b) xs else []))"
| "lru_step cap xs (CErase f) = filter (\<lambda>x. ck_file (fst x) \<noteq> f) xs"

fun cache_step :: "BlockCache \<Rightarrow> cache_op \<Rightarrow> BlockCache" where
  "cache_step c (CLookup f p) = snd (bc_Lookup c f p)"
| "cache_step c (CInsert f p b) = snd (bc_Insert c f p b)"
| "cache_step c (CErase f) = EraseFile c f"

text \<open>The operations that reach shard \<open>j\<close> of \<open>m\<close>.\<close>

fun reaches :: "nat \<Rightarrow> nat \<Rightarrow> cache_op \<Rightarrow> bool" where
  "reaches m j (CLookup f p) \<longleftrightarrow> unat (KeyHash \<lparr>ck_file = f, ck_offset = p\<rparr>) mod m = j"
| "reaches m j (CInsert f p b) \<longleftrightarrow> unat (KeyHash \<lparr>ck_file = f, ck_offset = p\<rparr>) mod m = j"
| "reaches m j (CErase f) \<longleftrightarrow> True"

definition shard_items :: "Shard \<Rightarrow> lru" where
  "shard_items s = map (\<lambda>n. (ekey (snd n), evalue (snd n))) (sh_order s)"

lemma shard_get_items: "shard_get s k = map_of (shard_items s) k"
  by (simp add: shard_get_def shard_items_def)

lemma touch_to_front:
  assumes "shard_ok s" "sh_index s k = Some i"
  shows "shard_items (s\<lparr>sh_order := touch i (sh_order s)\<rparr>) = to_front k (shard_items s)"
proof -
  have d: "distinct (map fst (sh_order s))" "distinct (map (ekey \<circ> snd) (sh_order s))"
    and "\<exists>e. (i, e) \<in> set (sh_order s) \<and> ekey e = k"
    using assms by (auto simp: shard_ok_def index_ok_def)
  then obtain e where e: "(i, e) \<in> set (sh_order s)" "ekey e = k" by blast
  have "fst n = i \<longleftrightarrow> ekey (snd n) = k" if "n \<in> set (sh_order s)" for n
    using inj_on_eq_iff [of fst "set (sh_order s)" n "(i, e)"] inj_on_eq_iff [of "ekey \<circ> snd" "set (sh_order s)" n "(i, e)"] that e d
    by (simp add: distinct_map)
  then have "filter (\<lambda>n. fst n = i) (sh_order s) = filter (\<lambda>n. ekey (snd n) = k) (sh_order s)"
    "filter (\<lambda>n. fst n \<noteq> i) (sh_order s) = filter (\<lambda>n. ekey (snd n) \<noteq> k) (sh_order s)"
    by (auto intro!: filter_cong)
  then show ?thesis by (simp add: shard_items_def touch_def to_front_def filter_map comp_def)
qed

lemma to_front_absent: "k \<notin> fst ` set xs \<Longrightarrow> to_front k xs = xs"
proof -
  assume "k \<notin> fst ` set xs"
  then have "filter (\<lambda>x. fst x = k) xs = []" "filter (\<lambda>x. fst x \<noteq> k) xs = xs"
    by (auto simp: filter_empty_conv filter_id_conv image_iff)
  then show ?thesis by (simp add: to_front_def)
qed

lemma fitting_longest:
  assumes "sum_list (map (length \<circ> snd) (take l xs)) \<le> room" "l \<le> length xs"
    and "l < length xs \<Longrightarrow> room < sum_list (map (length \<circ> snd) (take (l + 1) xs))"
  shows "fitting room xs = take l xs"
  using assms
proof (induction xs arbitrary: l room)
  case (Cons x xs)
  show ?case
  proof (cases l)
    case 0
    then show ?thesis using Cons.prems by simp
  next
    case (Suc l')
    have "fitting (room - length (snd x)) xs = take l' xs"
      by (rule Cons.IH) (use Cons.prems Suc in \<open>simp_all add: less_diff_conv2\<close>)
    with Suc Cons.prems(1) show ?thesis by simp
  qed
qed simp

lemma total_items:
  "shard_ok s \<Longrightarrow> total_charge (take l (sh_order s)) = sum_list (map (length \<circ> snd) (take l (shard_items s)))"
  unfolding total_charge_def shard_items_def take_map map_map
  by (rule arg_cong [where f = sum_list], rule map_cong)
    (auto simp: shard_ok_def dest: in_set_takeD)

lemma Evict_fits:
  assumes "shard_ok s" "shard_items s = x # xs"
  shows "shard_items (fst (Evict s)) =
    x # (if length (snd x) \<le> sh_capacity s then fitting (sh_capacity s - length (snd x)) xs else [])"
proof -
  obtain s' n where ev: "Evict s = (s', n)" by force
  define l where "l = length (sh_order s) - n"
  note sp = Evict_spec [OF assms(1) ev, folded l_def]
  have len: "length (sh_order s) = Suc (length xs)" using arg_cong [OF assms(2), of length] by (simp add: shard_items_def)
  then have "sh_order s' \<noteq> []" using sp by auto
  then obtain m where m: "l = Suc m" "m \<le> length xs" using sp len by (cases l) (auto simp: l_def)
  have items: "shard_items s' = take l (shard_items s)" using sp by (simp add: shard_items_def take_map)
  have bound: "sum_list (map (length \<circ> snd) (take l (shard_items s))) \<le> sh_capacity s \<or> m = 0"
  proof -
    have "sh_charge s' = total_charge (take l (sh_order s))" using sp by (simp add: shard_ok_def)
    then show ?thesis using sp total_items [OF assms(1), of l] len m by (auto simp: shard_bounded_def)
  qed
  have next_one: "sh_capacity s < sum_list (map (length \<circ> snd) (take (l + 1) (shard_items s)))" if "m < length xs"
    using sp that m len total_items [OF assms(1), of "l + 1"] by (auto simp: l_def)
  show ?thesis
  proof (cases "length (snd x) \<le> sh_capacity s")
    case True
    have "fitting (sh_capacity s - length (snd x)) xs = take m xs"
      by (rule fitting_longest) (use bound next_one m assms(2) True in auto)
    then show ?thesis using items ev m assms(2) True by simp
  next
    case False
    then have "m = 0" using bound m assms(2) by auto
    then show ?thesis using items ev m assms(2) False by simp
  qed
qed

lemma EraseNodes_order:
  "sh_order (EraseNodes f ns s) = filter (\<lambda>m. \<not> (\<exists>n \<in> set ns. fst n = fst m \<and> ck_file (ekey (snd n)) = f)) (sh_order s)"
  by (induction f ns s rule: EraseNodes.induct) (auto intro!: filter_cong)

lemma EraseNodes_items:
  assumes "shard_ok s"
  shows "shard_items (EraseNodes f (sh_order s) s) = filter (\<lambda>x. ck_file (fst x) \<noteq> f) (shard_items s)"
proof -
  have "distinct (map fst (sh_order s))" using assms by (simp add: shard_ok_def index_ok_def)
  then have "n = m" if "n \<in> set (sh_order s)" "m \<in> set (sh_order s)" "fst n = fst m" for n m
    using that by (auto simp: distinct_map inj_on_def)
  then have "sh_order (EraseNodes f (sh_order s) s) = filter (\<lambda>m. ck_file (ekey (snd m)) \<noteq> f) (sh_order s)"
    unfolding EraseNodes_order by (intro filter_cong) auto
  then show ?thesis by (simp add: shard_items_def filter_map comp_def)
qed

lemma index_items: "shard_ok s \<Longrightarrow> sh_index s k = None \<longleftrightarrow> k \<notin> fst ` set (shard_items s)"
  using index_get [of s k] by (simp add: shard_get_items map_of_eq_None_iff)

text \<open>One operation, seen from one shard.\<close>

lemma cache_step_shard:
  assumes "cache_ok c" "j < length (bc_shards c)"
  shows "shard_items (bc_shards (cache_step c x) ! j) =
    (if reaches (length (bc_shards c)) j x
     then lru_step (sh_capacity (bc_shards c ! j)) (shard_items (bc_shards c ! j)) x
     else shard_items (bc_shards c ! j))"
proof -
  have ok: "shard_ok (bc_shards c ! j)" using assms by (auto simp: cache_ok_def)
  note front = touch_to_front [OF ok]
  have absent: "shard_items (bc_shards c ! j) = to_front k (shard_items (bc_shards c ! j))"
    if "sh_index (bc_shards c ! j) k = None" for k
    using that to_front_absent index_items [OF ok] by metis
  show ?thesis
  proof (cases x)
    case (CLookup f p)
    show ?thesis using assms(2) front absent
      by (auto simp: CLookup bc_Lookup_def ShardFor_def Let_def nth_list_update split: option.split)
  next
    case (CErase f)
    show ?thesis using assms(2) EraseNodes_items [OF ok] by (simp add: CErase EraseFile_def)
  next
    case (CInsert f p b)
    define k where "k = \<lparr>ck_file = f, ck_offset = p\<rparr>"
    define s where "s = bc_shards c ! j"
    show ?thesis
    proof (cases "unat (KeyHash k) mod length (bc_shards c) = j")
      case False
      then show ?thesis using CInsert
        by (auto simp: bc_Insert_def ShardFor_def Let_def k_def [symmetric] split: option.split prod.split)
    next
      case True
      show ?thesis
      proof (cases "sh_index s k")
        case None
        let ?s = "s\<lparr>sh_order := (sh_fresh s, \<lparr>ekey = k, evalue = b, echarge = length b\<rparr>) # sh_order s,
          sh_index := (sh_index s)(k \<mapsto> sh_fresh s), sh_charge := sh_charge s + length b, sh_fresh := sh_fresh s + 1\<rparr>"
        have "shard_ok ?s" using ok None by (intro shard_ok_push) (simp_all add: s_def)
        moreover have "shard_items ?s = (k, b) # shard_items s" by (simp add: shard_items_def)
        ultimately have "shard_items (fst (Evict ?s)) =
            (k, b) # (if length b \<le> sh_capacity s then fitting (sh_capacity s - length b) (shard_items s) else [])"
          using Evict_fits [of ?s] by simp
        moreover have "k \<notin> fst ` set (shard_items s)" using None index_items [OF ok] by (simp add: s_def)
        ultimately show ?thesis using CInsert True None assms(2)
          by (simp add: bc_Insert_def ShardFor_def Let_def k_def [symmetric] s_def [symmetric] case_prod_beta)
      next
        case (Some i)
        moreover have "k \<in> fst ` set (shard_items s)" using Some index_items [OF ok] by (metis option.distinct(1) s_def)
        ultimately show ?thesis using CInsert True assms(2) front [of k i]
          by (simp add: bc_Insert_def ShardFor_def Let_def k_def [symmetric] s_def [symmetric])
      qed
    qed
  qed
qed

lemma cache_step_ok: "cache_ok c \<Longrightarrow> cache_ok (cache_step c x) \<and> shape (cache_step c x) = shape c"
  using bc_Lookup_spec [of c] bc_Insert_spec [of c] bc_EraseFile_spec [of c] shape_ops [of c]
  by (cases x) (metis cache_step.simps prod.collapse)+

lemma shape_shards:
  "shape c' = shape c \<Longrightarrow> length (bc_shards c') = length (bc_shards c) \<and>
    (j < length (bc_shards c) \<longrightarrow> sh_capacity (bc_shards c' ! j) = sh_capacity (bc_shards c ! j))"
  unfolding shape_def by (metis length_map nth_map prod.inject)

lemma cache_steps_shard:
  assumes "cache_ok c" "j < length (bc_shards c)"
  shows "shard_items (bc_shards (foldl cache_step c ops) ! j) =
      foldl (lru_step (sh_capacity (bc_shards c ! j))) (shard_items (bc_shards c ! j)) (filter (reaches (length (bc_shards c)) j) ops) \<and>
    cache_ok (foldl cache_step c ops) \<and> length (bc_shards (foldl cache_step c ops)) = length (bc_shards c)"
  using assms
proof (induction ops arbitrary: c)
  case (Cons x ops)
  note st = cache_step_ok [OF Cons.prems(1), of x] shape_shards [of "cache_step c x" c j]
  from Cons.IH [of "cache_step c x"] cache_step_shard [OF Cons.prems, of x] st Cons.prems show ?case by auto
qed simp

section \<open>Properties\<close>

text \<open>C19. The block cache is transparent: after any sequence of lookups, insertions and
  erasures in which each file and offset is only ever given its own block, a hit returns
  that block, an insertion returns that block, and a block just inserted is found.\<close>

theorem cache_is_transparent:
  assumes "cache_run F cap n c"
  shows "(\<forall>v. fst (bc_Lookup c fno off) = Some v \<longrightarrow> v = F fno off) \<and>
    fst (bc_Insert c fno off (F fno off)) = F fno off \<and>
    fst (bc_Lookup (snd (bc_Insert c fno off (F fno off))) fno off) = Some (F fno off)"
proof -
  have c: "lru.coherent (\<lambda>f p. Some (F f p)) c" by (rule cache_run_coherent [OF assms])
  obtain r c1 where l: "bc_Lookup c fno off = (r, c1)" by force
  obtain h c2 where i: "bc_Insert c fno off (F fno off) = (h, c2)" by force
  obtain r' c3 where l': "bc_Lookup c2 fno off = (r', c3)" by force
  have h: "h = F fno off" "lru.coherent (\<lambda>f p. Some (F f p)) c2"
    using lru.coherent_ins [OF c refl i] by auto
  have "cache_get c2 fno off = Some h" using bc_Insert_spec [OF _ i] c by (simp add: lru.coherent_def)
  then have "r' = Some h" using bc_Lookup_spec [OF _ l'] h(2) by (simp add: lru.coherent_def)
  then show ?thesis using lru.coherent_look [OF c l] l i l' h by auto
qed

theorem cache_is_transparent_witness:
  "fst (bc_Lookup (snd (bc_Insert (new_BlockCache 100 4) 3 0 [7, 7])) 3 0) = Some [7, 7]"
  using cache_is_transparent [OF run_new [of "\<lambda>f p. [7, 7]" 100 4], of 3 0] by simp

text \<open>C20. The cache stays within its budget: as long as no block is larger than the share of
  one shard, the bytes it charges never exceed the capacity it was created with.\<close>

theorem cache_stays_within_capacity:
  assumes "cache_run F cap n c" and "\<forall>f p. length (F f p) \<le> cap div nat (max 1 n)"
  shows "charge_bytes c \<le> bc_capacity c"
proof -
  let ?m = "nat (max 1 n)"
  have coh: "lru.coherent (\<lambda>f p. Some (F f p)) c" by (rule cache_run_coherent [OF assms(1)])
  have shp: "bc_capacity c = cap" "map sh_capacity (bc_shards c) = replicate ?m (cap div ?m)"
    using cache_run_shape [OF assms(1)] by (auto simp: shape_def)
  have len: "length (bc_shards c) = ?m" using shp(2) by (metis length_map length_replicate)
  have le: "sh_charge s \<le> cap div ?m" if "s \<in> set (bc_shards c)" for s
  proof -
    have "sh_capacity s \<in> set (replicate ?m (cap div ?m))" unfolding shp(2) [symmetric] using that by simp
    then have cap: "sh_capacity s = cap div ?m" by simp
    have s: "shard_ok s" "shard_bounded s" using coh that by (auto simp: lru.coherent_def cache_ok_def)
    show ?thesis
    proof (cases "sh_charge s \<le> sh_capacity s")
      case False
      then obtain x where x: "sh_order s = [x]"
        using s by (cases "sh_order s") (auto simp: shard_bounded_def shard_ok_def total_charge_def)
      have own: "\<forall>m \<in> set (sh_order s). length (evalue (snd m)) \<le> cap div ?m"
        using cache_run_values [OF assms(1)] that assms(2) unfolding own_blocks_def by metis
      then show ?thesis using x s by (simp add: shard_ok_def total_charge_def)
    qed (use cap in simp)
  qed
  have "charge_bytes c = sum_list (map sh_charge (bc_shards c))"
    by (simp add: charge_bytes_def foldl_add_charge)
  also have "\<dots> \<le> sum_list (map (\<lambda>s. cap div ?m) (bc_shards c))" by (rule sum_list_mono) (use le in auto)
  also have "\<dots> \<le> cap" using len by (simp add: sum_list_triv)
  finally show ?thesis using shp(1) by simp
qed

theorem cache_stays_within_capacity_witness:
  "charge_bytes (snd (bc_Insert (new_BlockCache 8 4) 3 0 [7, 7])) \<le>
   bc_capacity (snd (bc_Insert (new_BlockCache 8 4) 3 0 [7, 7]))"
  by (rule cache_stays_within_capacity [OF run_insert [OF run_new, of "\<lambda>f p. [7, 7]" 8 4 3 0]]) simp

text \<open>C21. The cache is least-recently-used. After any sequence of lookups, insertions and erasures
  on a new cache, each shard holds what the reference list holds after the operations that reach
  the shard: entries in the order of their last use, an insertion keeping exactly the longest prefix
  that fits beside the new block. A lookup answers from that list.\<close>

theorem cache_is_lru:
  assumes "k = \<lparr>ck_file = f, ck_offset = p\<rparr>" and "c = foldl cache_step (new_BlockCache cap n) ops"
    and "m = nat (max 1 n)" and "j = unat (KeyHash k) mod m"
  shows "shard_items (bc_shards c ! j) = foldl (lru_step (cap div m)) [] (filter (reaches m j) ops) \<and>
    fst (bc_Lookup c f p) = map_of (foldl (lru_step (cap div m)) [] (filter (reaches m j) ops)) k"
proof -
  let ?c = "new_BlockCache cap n"
  have m: "m \<noteq> 0" using assms(3) by simp
  then have j: "j < m" using assms(4) by simp
  have len: "length (bc_shards ?c) = m" by (simp add: assms(3) new_BlockCache_def Let_def)
  have s: "bc_shards ?c ! j = empty_shard (cap div m)" using j by (simp add: assms(3) new_BlockCache_def Let_def)
  from cache_steps_shard [OF cache_new(1) j [folded len], of ops] s len assms(2)
  have st: "shard_items (bc_shards c ! j) = foldl (lru_step (cap div m)) [] (filter (reaches m j) ops)"
    "cache_ok c" "length (bc_shards c) = m"
    by (simp_all add: empty_shard_def shard_items_def)
  have "fst (bc_Lookup c f p) = cache_get c f p"
    using bc_Lookup_spec [OF st(2), of f p] by (metis prod.collapse)
  then have "fst (bc_Lookup c f p) = map_of (shard_items (bc_shards c ! j)) k"
    using assms(1,4) st(3) by (simp add: cache_get_def Let_def ShardFor_def shard_get_items)
  then show ?thesis using st(1) by simp
qed

text \<open>Two of three blocks fit; the one not used since is evicted, not the oldest.\<close>

theorem cache_is_lru_witness:
  "let c = foldl cache_step (new_BlockCache 4 1) [CInsert 1 0 [7, 7], CInsert 2 0 [8, 8], CLookup 1 0, CInsert 3 0 [9, 9]]
   in fst (bc_Lookup c 1 0) = Some [7, 7] \<and> fst (bc_Lookup c 2 0) = None \<and>
     shard_items (bc_shards c ! 0) = [(\<lparr>ck_file = 3, ck_offset = 0\<rparr>, [9, 9]), (\<lparr>ck_file = 1, ck_offset = 0\<rparr>, [7, 7])]"
  using cache_is_lru [OF refl refl refl refl, where cap = 4 and n = 1 and f = 1 and p = 0 and
      ops = "[CInsert 1 0 [7, 7], CInsert 2 0 [8, 8], CLookup 1 0, CInsert 3 0 [9, 9]]"]
    cache_is_lru [OF refl refl refl refl, where cap = 4 and n = 1 and f = 2 and p = 0 and
      ops = "[CInsert 1 0 [7, 7], CInsert 2 0 [8, 8], CLookup 1 0, CInsert 3 0 [9, 9]]"]
  by (simp add: Let_def to_front_def)

end
