(* ===== verification/Arena.thy ===== *)
theory Arena
  imports Prelude
begin

text \<open>
  \<open>src/arena.cpp\<close> and \<open>include/lsm/arena.h\<close>: the bump allocator under the
  memtable. A block obtained from \<open>new char[n]\<close> is known by its index in
  \<open>blocks_\<close>; a pointer is a block index with an offset, and \<open>base\<close>, an argument
  of the definitions that look at an address, gives the address of each block.
  That \<open>new\<close> returns storage aligned for \<open>std::max_align_t\<close> is a hypothesis on
  \<open>base\<close> where it is used.
\<close>

section \<open>Definitions\<close>

type_synonym ptr = "nat \<times> nat"

record Arena =
  ar_ptr :: "ptr option"
  ar_remaining :: nat
  ar_blocks :: "nat list"
  ar_usage :: nat

definition new_Arena :: Arena where
  "new_Arena = \<lparr>ar_ptr = None, ar_remaining = 0, ar_blocks = [], ar_usage = 0\<rparr>"

definition kBlockSize :: nat where "kBlockSize = 4096"

definition kAlign :: nat where "kAlign = 16"

fun ptr_add :: "ptr option \<Rightarrow> nat \<Rightarrow> ptr option" where
  "ptr_add None n = None"
| "ptr_add (Some (b, off)) n = Some (b, off + n)"

fun ptr_addr :: "(nat \<Rightarrow> nat) \<Rightarrow> ptr option \<Rightarrow> nat" where
  "ptr_addr base None = 0"
| "ptr_addr base (Some (b, off)) = base b + off"

text \<open>\<open>sizeof(std::unique_ptr<char[]>)\<close> is 8.\<close>

definition AllocateNewBlock :: "Arena \<Rightarrow> nat \<Rightarrow> ptr option \<times> Arena" where
  "AllocateNewBlock a block_bytes =
     (Some (length (ar_blocks a), 0),
      a\<lparr>ar_blocks := ar_blocks a @ [block_bytes], ar_usage := ar_usage a + (block_bytes + 8)\<rparr>)"

definition AllocateFallback :: "Arena \<Rightarrow> nat \<Rightarrow> ptr option \<times> Arena" where
  "AllocateFallback a bytes =
     (if kBlockSize div 4 < bytes then AllocateNewBlock a bytes
      else let (p, a) = AllocateNewBlock a kBlockSize;
               a = a\<lparr>ar_ptr := p, ar_remaining := kBlockSize\<rparr>;
               result = ar_ptr a
           in (result, a\<lparr>ar_ptr := ptr_add (ar_ptr a) bytes, ar_remaining := ar_remaining a - bytes\<rparr>))"

definition Allocate :: "Arena \<Rightarrow> nat \<Rightarrow> ptr option \<times> Arena" where
  "Allocate a bytes =
     (if bytes \<le> ar_remaining a
      then (ar_ptr a, a\<lparr>ar_ptr := ptr_add (ar_ptr a) bytes, ar_remaining := ar_remaining a - bytes\<rparr>)
      else AllocateFallback a bytes)"

definition AllocateAligned :: "(nat \<Rightarrow> nat) \<Rightarrow> Arena \<Rightarrow> nat \<Rightarrow> ptr option \<times> Arena" where
  "AllocateAligned base a bytes =
     (let current = ptr_addr base (ar_ptr a) mod kAlign;
          slop = (if current = 0 then 0 else kAlign - current)
      in if bytes + slop \<le> ar_remaining a
         then (ptr_add (ar_ptr a) slop,
               a\<lparr>ar_ptr := ptr_add (ar_ptr a) (bytes + slop), ar_remaining := ar_remaining a - (bytes + slop)\<rparr>)
         else AllocateFallback a bytes)"

section \<open>Runs\<close>

text \<open>
  \<open>arena_run base a regs\<close>: the arena \<open>a\<close> is reached by requests that were given
  the regions \<open>regs\<close>, each a block, an offset, a length and whether the request
  asked for alignment. Requests for zero bytes, which may be given a null
  pointer, hand out no region.
\<close>

type_synonym region = "nat \<times> nat \<times> nat \<times> bool"

inductive arena_run :: "(nat \<Rightarrow> nat) \<Rightarrow> Arena \<Rightarrow> region list \<Rightarrow> bool" for base where
  start: "arena_run base new_Arena []"
| plain: "arena_run base a regs \<Longrightarrow> 0 < n \<Longrightarrow> Allocate a n = (Some (b, off), a') \<Longrightarrow>
    arena_run base a' ((b, off, n, False) # regs)"
| aligned: "arena_run base a regs \<Longrightarrow> 0 < n \<Longrightarrow> AllocateAligned base a n = (Some (b, off), a') \<Longrightarrow>
    arena_run base a' ((b, off, n, True) # regs)"

fun apart :: "region \<Rightarrow> region \<Rightarrow> bool" where
  "apart (b, off, n, _) (b', off', n', _) \<longleftrightarrow> b \<noteq> b' \<or> off + n \<le> off' \<or> off' + n' \<le> off"

fun inside :: "nat list \<Rightarrow> region \<Rightarrow> bool" where
  "inside blocks (b, off, n, _) \<longleftrightarrow> b < length blocks \<and> off + n \<le> blocks ! b"

text \<open>A region lies before the free tail of the current block.\<close>

definition used :: "Arena \<Rightarrow> region \<Rightarrow> bool" where
  "used a r \<longleftrightarrow> (case ar_ptr a of None \<Rightarrow> True
     | Some (b, off) \<Rightarrow> (case r of (b', off', n', _) \<Rightarrow> b' = b \<longrightarrow> off' + n' \<le> off))"

definition tail_ok :: "Arena \<Rightarrow> bool" where
  "tail_ok a \<longleftrightarrow> (case ar_ptr a of None \<Rightarrow> ar_remaining a = 0
     | Some (b, off) \<Rightarrow> b < length (ar_blocks a) \<and> off + ar_remaining a = ar_blocks a ! b)"

definition arena_inv :: "(nat \<Rightarrow> nat) \<Rightarrow> Arena \<Rightarrow> region list \<Rightarrow> bool" where
  "arena_inv base a regs \<longleftrightarrow> tail_ok a \<and> (\<forall>r \<in> set regs. inside (ar_blocks a) r \<and> used a r) \<and>
     pairwise apart (set regs) \<and> distinct regs \<and>
     (\<forall>(b, off, n, al) \<in> set regs. 0 < n \<and> (al \<longrightarrow> (base b + off) mod kAlign = 0)) \<and>
     ar_usage a = sum_list (ar_blocks a) + 8 * length (ar_blocks a)"

lemma apart_sym: "apart r r' \<longleftrightarrow> apart r' r"
  by (cases r; cases r') auto

lemma arena_inv_add:
  assumes "arena_inv base a regs" and "tail_ok a'" and "ar_usage a' = sum_list (ar_blocks a') + 8 * length (ar_blocks a')"
    and "\<And>r. inside (ar_blocks a) r \<Longrightarrow> used a r \<Longrightarrow> inside (ar_blocks a') r \<and> used a' r \<and> apart (b, off, n, al) r"
    and "inside (ar_blocks a') (b, off, n, al)" "used a' (b, off, n, al)"
    and "0 < n" "al \<longrightarrow> (base b + off) mod kAlign = 0"
  shows "arena_inv base a' ((b, off, n, al) # regs)"
proof -
  let ?r = "(b, off, n, al)"
  have new: "apart ?r r" "inside (ar_blocks a') r" "used a' r" if "r \<in> set regs" for r
    using assms(1,4) that by (auto simp: arena_inv_def)
  have "?r \<notin> set regs" using new(1) [of ?r] assms(7) by auto
  moreover have "pairwise apart (set (?r # regs))"
    using assms(1) new(1) apart_sym by (auto simp: arena_inv_def pairwise_insert)
  ultimately show ?thesis using assms(1-3) new assms(5-) by (auto simp: arena_inv_def)
qed

lemma bump_inv:
  assumes "arena_inv base a regs" "ar_ptr a = Some (b, off)" "slop + n \<le> ar_remaining a" "0 < n"
    "al \<longrightarrow> (base b + (off + slop)) mod kAlign = 0"
  shows "arena_inv base (a\<lparr>ar_ptr := Some (b, off + (n + slop)), ar_remaining := ar_remaining a - (n + slop)\<rparr>)
    ((b, off + slop, n, al) # regs)"
  by (rule arena_inv_add [OF assms(1)])
    (use assms in \<open>auto simp: arena_inv_def tail_ok_def used_def split: option.splits\<close>)

lemma fallback_inv:
  assumes "arena_inv base a regs" "AllocateFallback a n = (Some (b, off), a')" "0 < n"
    "\<And>i. base i mod kAlign = 0"
  shows "arena_inv base a' ((b, off, n, al) # regs)"
proof (rule arena_inv_add [OF assms(1)])
  note d = AllocateFallback_def AllocateNewBlock_def kBlockSize_def
  show "tail_ok a'" using assms(1,2)
    by (auto simp: d arena_inv_def tail_ok_def nth_append split: option.splits if_splits)
  show "ar_usage a' = sum_list (ar_blocks a') + 8 * length (ar_blocks a')"
    using assms(1,2) by (auto simp: d arena_inv_def split: if_splits)
  show "inside (ar_blocks a') r \<and> used a' r \<and> apart (b, off, n, al) r"
    if "inside (ar_blocks a) r" "used a r" for r
    using that assms(2)
    by (cases r) (auto simp: d used_def nth_append split: option.splits if_splits)
  show "inside (ar_blocks a') (b, off, n, al)" "used a' (b, off, n, al)"
    using assms(1,2) by (auto simp: d used_def arena_inv_def tail_ok_def split: option.splits if_splits)
  show "al \<longrightarrow> (base b + off) mod kAlign = 0"
    using assms(2,4) by (auto simp: d split: if_splits)
qed (rule assms(3))

lemma slop_aligns: "(x + (if x mod kAlign = 0 then 0 else kAlign - x mod kAlign)) mod kAlign = 0"
  unfolding kAlign_def by presburger

lemma arena_run_inv:
  assumes "arena_run base a regs" and base: "\<And>i. base i mod kAlign = 0"
  shows "arena_inv base a regs"
  using assms(1)
proof (induction rule: arena_run.induct)
  case start
  show ?case by (simp add: new_Arena_def arena_inv_def tail_ok_def)
next
  case (plain a regs n b off a')
  show ?case
  proof (cases "n \<le> ar_remaining a")
    case True
    with plain.hyps(3) have "ar_ptr a = Some (b, off)"
      "a' = a\<lparr>ar_ptr := Some (b, off + (n + 0)), ar_remaining := ar_remaining a - (n + 0)\<rparr>"
      by (auto simp: Allocate_def)
    with bump_inv [OF plain.IH, of b off 0 n False] True plain.hyps(2) show ?thesis by simp
  next
    case False
    then show ?thesis using fallback_inv [OF plain.IH _ plain.hyps(2) base] plain.hyps(3) by (simp add: Allocate_def)
  qed
next
  case (aligned a regs n b off a')
  define slop where "slop = (if ptr_addr base (ar_ptr a) mod kAlign = 0 then 0
    else kAlign - ptr_addr base (ar_ptr a) mod kAlign)"
  show ?case
  proof (cases "n + slop \<le> ar_remaining a")
    case True
    with aligned.hyps(3) have 1: "ptr_add (ar_ptr a) slop = Some (b, off)"
      "a' = a\<lparr>ar_ptr := ptr_add (ar_ptr a) (n + slop), ar_remaining := ar_remaining a - (n + slop)\<rparr>"
      by (simp_all add: AllocateAligned_def Let_def slop_def)
    then obtain o0 where o0: "ar_ptr a = Some (b, o0)" "off = o0 + slop"
      by (cases "ar_ptr a") auto
    have "(base b + (o0 + slop)) mod kAlign = 0"
      unfolding slop_def o0(1) ptr_addr.simps add.assoc [symmetric] by (rule slop_aligns)
    with bump_inv [OF aligned.IH o0(1), of slop n True] 1 o0 True aligned.hyps(2) show ?thesis by simp
  next
    case False
    then show ?thesis using fallback_inv [OF aligned.IH _ aligned.hyps(2) base] aligned.hyps(3)
      by (simp add: AllocateAligned_def Let_def slop_def)
  qed
qed

section \<open>Properties\<close>



end
