(* ===== verification/Posix.thy ===== *)
theory Posix
  imports Status
begin

text \<open>
  The file system as the engine's I/O code sees it, and the loops around
  \<open>write\<close>, \<open>read\<close> and \<open>pread\<close> in \<open>src/wal.cpp\<close>, \<open>src/sstable.cpp\<close> and
  \<open>src/db.cpp\<close>.

  A \<open>world\<close> holds the files of the database directory by path, and a script:
  what the next system calls will do. Each call consumes one element; when the
  script is used up calls succeed in full. A script is any finite list, so every
  pattern of short writes, interruptions and failures a terminating run can meet
  is the behaviour under some script. A descriptor open for writing is the path
  it was opened on; a descriptor open for reading is the contents of the file,
  because a finished file is never written again.
\<close>

section \<open>System calls\<close>

datatype sys_result =
    Done
  | Short nat
  | Eintr
  | Fail string

record world =
  files :: "(string \<times> bytes) list"
  script :: "sys_result list"

definition next_result :: "world \<Rightarrow> sys_result \<times> world" where
  "next_result w =
     (case script w of [] \<Rightarrow> (Done, w) | r # rs \<Rightarrow> (r, w\<lparr>script := rs\<rparr>))"

definition file_of :: "world \<Rightarrow> string \<Rightarrow> bytes option" where
  "file_of w path = map_of (files w) path"

fun set_file :: "string \<Rightarrow> bytes \<Rightarrow> (string \<times> bytes) list \<Rightarrow> (string \<times> bytes) list" where
  "set_file path c [] = [(path, c)]"
| "set_file path c ((p, d) # fs) =
     (if p = path then (path, c) # fs else (p, d) # set_file path c fs)"

definition put_file :: "world \<Rightarrow> string \<Rightarrow> bytes \<Rightarrow> world" where
  "put_file w path c = w\<lparr>files := set_file path c (files w)\<rparr>"

definition append_file :: "world \<Rightarrow> string \<Rightarrow> bytes \<Rightarrow> world" where
  "append_file w path data =
     put_file w path ((case file_of w path of None \<Rightarrow> [] | Some c \<Rightarrow> c) @ data)"

definition unlink :: "world \<Rightarrow> string \<Rightarrow> world" where
  "unlink w path = w\<lparr>files := filter (\<lambda>(p, c). p \<noteq> path) (files w)\<rparr>"

definition PosixError :: "string \<Rightarrow> string \<Rightarrow> status" where
  "PosixError what err = IOError (what @ '': '' @ err)"

text \<open>
  Calls that either succeed or fail as a whole: \<open>open\<close>, \<open>fsync\<close>, \<open>close\<close>,
  \<open>rename\<close>. An interruption is a failure of theirs.
\<close>

definition simple_call :: "world \<Rightarrow> string option \<times> world" where
  "simple_call w =
     (let (r, w) = next_result w in
      case r of Fail e \<Rightarrow> (Some e, w)
      | Eintr \<Rightarrow> (Some ''Interrupted system call'', w)
      | _ \<Rightarrow> (None, w))"

section \<open>The write loop\<close>

function WriteFully :: "world \<Rightarrow> string \<Rightarrow> bytes \<Rightarrow> status \<times> world" where
  "WriteFully w fd data =
     (if data = [] then (OK, w)
      else let (r, w') = next_result w in
        case r of
          Fail e \<Rightarrow> (PosixError ''write'' e, w')
        | Eintr \<Rightarrow> WriteFully w' fd data
        | Short k \<Rightarrow> WriteFully (append_file w' fd (take k data)) fd (drop k data)
        | Done \<Rightarrow> WriteFully (append_file w' fd data) fd [])"
  by pat_completeness auto

lemma script_put_file [simp]: "script (put_file w p c) = script w"
  by (simp add: put_file_def)

lemma script_append_file [simp]: "script (append_file w p d) = script w"
  by (simp add: append_file_def)

lemma next_result_cases:
  "next_result w = (r, w') \<Longrightarrow>
     r = Done \<and> w' = w \<and> script w = [] \<or> (\<exists>rs. script w = r # rs \<and> w' = w\<lparr>script := rs\<rparr>)"
  by (auto simp: next_result_def split: list.splits)

termination WriteFully
  by (relation "measures [\<lambda>(w, fd, data). length (script w), \<lambda>(w, fd, data). length data]")
    (auto dest!: next_result_cases [OF sym])

declare WriteFully.simps [simp del]

lemma WriteFully_Nil [simp]: "WriteFully w fd [] = (OK, w)"
  by (simp add: WriteFully.simps [of w fd "[]"])

section \<open>Files\<close>

lemma map_of_set_file [simp]: "map_of (set_file path c fs) = (map_of fs)(path \<mapsto> c)"
  by (induction path c fs rule: set_file.induct) auto

lemma file_of_put_file [simp]:
  "file_of (put_file w path c) p = (if p = path then Some c else file_of w p)"
  by (simp add: file_of_def put_file_def)

lemma file_of_append_file:
  "file_of (append_file w path d) p =
     (if p = path then Some ((case file_of w path of None \<Rightarrow> [] | Some c \<Rightarrow> c) @ d)
      else file_of w p)"
  by (simp add: append_file_def)

lemma file_of_script [simp]: "file_of (w\<lparr>script := rs\<rparr>) p = file_of w p"
  by (simp add: file_of_def)

lemma next_result_file [simp]: "next_result w = (r, w') \<Longrightarrow> file_of w' p = file_of w p"
  by (auto dest: next_result_cases)

text \<open>
  The contract of the write loop, whatever the script: success means that all
  the bytes were appended, failure that a prefix of them was, and no other file
  changes.
\<close>

lemma WriteFully_spec:
  assumes "WriteFully w fd data = (s, w')" and "file_of w fd = Some c"
  shows "\<exists>n. file_of w' fd = Some (c @ take n data) \<and> (ok s \<longrightarrow> s = OK \<and> n = length data) \<and>
    (\<not> ok s \<longrightarrow> IsIOError s) \<and> (\<forall>p. p \<noteq> fd \<longrightarrow> file_of w' p = file_of w p)"
  using assms
proof (induction w fd data arbitrary: c rule: WriteFully.induct)
  case (1 w fd data)
  show ?case
  proof (cases "data = []")
    case True
    with "1.prems" show ?thesis by (simp add: WriteFully_Nil)
  next
    case False
    obtain r w1 where r: "next_result w = (r, w1)" by force
    have c1: "file_of w1 p = file_of w p" for p using r by simp
    show ?thesis
    proof (cases r)
      case (Fail e)
      with "1.prems" False r c1 show ?thesis
        by (intro exI [of _ 0]) (auto simp: WriteFully.simps [of w fd data] PosixError_def)
    next
      case Eintr
      with "1.prems" False r have rec: "WriteFully w1 fd data = (s, w')"
        by (simp add: WriteFully.simps [of w fd data])
      from "1.IH"(3) [OF False refl r [symmetric] Eintr rec] c1 "1.prems"(2)
      show ?thesis by simp
    next
      case (Short k)
      let ?w = "append_file w1 fd (take k data)"
      from "1.prems" False r Short have rec: "WriteFully ?w fd (drop k data) = (s, w')"
        by (simp add: WriteFully.simps [of w fd data])
      have f: "file_of ?w fd = Some (c @ take k data)"
        using c1 "1.prems"(2) by (simp add: file_of_append_file)
      from "1.IH"(2) [OF False refl r [symmetric] Short rec f] obtain n where
        n: "file_of w' fd = Some ((c @ take k data) @ take n (drop k data))"
          "ok s \<longrightarrow> s = OK \<and> n = length (drop k data)" "\<not> ok s \<longrightarrow> IsIOError s"
          "\<forall>p. p \<noteq> fd \<longrightarrow> file_of w' p = file_of ?w p"
        by blast
      have t: "take k data @ take n (drop k data) = take (min k (length data) + n) data"
        by (cases "k \<le> length data") (simp_all only: min_absorb1 take_add, simp)
      have "file_of w' fd = Some (c @ take (min k (length data) + n) data)"
        using n(1) by (simp only: append_assoc t)
      moreover have "ok s \<longrightarrow> s = OK \<and> min k (length data) + n = length data"
        using n(2) by auto
      moreover have "\<forall>p. p \<noteq> fd \<longrightarrow> file_of w' p = file_of w p"
        using n(4) c1 by (simp add: file_of_append_file)
      ultimately show ?thesis using n(3) by blast
    next
      case Done
      with "1.prems" False r c1 show ?thesis
        by (intro exI [of _ "length data"])
          (auto simp: WriteFully.simps [of w fd data] file_of_append_file)
    qed
  qed
qed


definition no_failure :: "world \<Rightarrow> bool" where
  "no_failure w \<longleftrightarrow> (\<forall>e. Fail e \<notin> set (script w))"

lemma no_failure_next:
  "next_result w = (r, w') \<Longrightarrow> no_failure w \<Longrightarrow> no_failure w' \<and> (\<forall>e. r \<noteq> Fail e)"
  by (auto simp: no_failure_def dest!: next_result_cases)

lemma no_failure_append [simp]: "no_failure (append_file w p d) = no_failure w"
  by (simp add: no_failure_def)

text \<open>Interruptions and short writes alone never make the loop fail.\<close>

lemma WriteFully_no_failure:
  "no_failure w \<Longrightarrow> WriteFully w fd data = (s, w') \<Longrightarrow> s = OK \<and> no_failure w'"
proof (induction w fd data rule: WriteFully.induct)
  case (1 w fd data)
  show ?case
  proof (cases "data = []")
    case True
    with "1.prems" show ?thesis by simp
  next
    case False
    obtain r w1 where r: "next_result w = (r, w1)" by force
    note nf = no_failure_next [OF r "1.prems"(1)]
    note IH = "1.IH" [OF False refl r [symmetric]]
    note unfold = WriteFully.simps [of w fd data]
    show ?thesis
    proof (cases r)
      case Done
      with nf "1.prems"(2) False r show ?thesis by (auto simp: unfold)
    next
      case (Short k)
      with "1.prems"(2) False r have
        "WriteFully (append_file w1 fd (take k data)) fd (drop k data) = (s, w')"
        by (simp add: unfold)
      with IH(2) [OF Short] nf show ?thesis by simp
    next
      case Eintr
      with nf "1.prems"(2) False r IH(3) show ?thesis by (simp add: unfold)
    next
      case (Fail e)
      with nf show ?thesis by simp
    qed
  qed
qed

lemma WriteFully_done:
  "script w = [] \<Longrightarrow> data \<noteq> [] \<Longrightarrow> WriteFully w fd data = (OK, append_file w fd data)"
  by (simp add: WriteFully.simps [of w fd data] next_result_def)

text \<open>Calls that succeed or fail as a whole leave every file alone.\<close>

lemma simple_call_files: "simple_call w = (r, w') \<Longrightarrow> files w' = files w"
  by (auto simp: simple_call_def next_result_def Let_def split: list.splits sys_result.splits)

text \<open>No call of the script fails or is interrupted.\<close>

definition calm :: "world \<Rightarrow> bool" where
  "calm w \<longleftrightarrow> (\<forall>r \<in> set (script w). r = Done \<or> (\<exists>k. r = Short k))"

lemma calm_no_failure: "calm w \<Longrightarrow> no_failure w"
  by (auto simp: calm_def no_failure_def)

lemma simple_call_calm: "calm w \<Longrightarrow> simple_call w = (r, w') \<Longrightarrow> r = None \<and> calm w'"
  by (auto simp: calm_def simple_call_def next_result_def Let_def split: list.splits sys_result.splits)

lemma simple_call_no_failure: "no_failure w \<Longrightarrow> simple_call w = (r, w') \<Longrightarrow> no_failure w'"
  by (auto simp: no_failure_def simple_call_def next_result_def Let_def split: list.splits sys_result.splits)

lemma calm_next: "next_result w = (r, w') \<Longrightarrow> calm w \<Longrightarrow> calm w' \<and> (r = Done \<or> (\<exists>k. r = Short k))"
  by (auto simp: calm_def dest!: next_result_cases)

lemma calm_append [simp]: "calm (append_file w p d) = calm w" "calm (put_file w p c) = calm w"
  by (simp_all add: calm_def)

lemma WriteFully_calm: "calm w \<Longrightarrow> WriteFully w fd data = (s, w') \<Longrightarrow> s = OK \<and> calm w'"
proof (induction w fd data rule: WriteFully.induct)
  case (1 w fd data)
  show ?case
  proof (cases "data = []")
    case False
    obtain r w1 where r: "next_result w = (r, w1)" by force
    note c = calm_next [OF r "1.prems"(1)]
    note IH = "1.IH" [OF False refl r [symmetric]]
    from c consider "r = Done" | k where "r = Short k" by blast
    then show ?thesis
    proof cases
      case 1
      with c "1.prems"(2) False r show ?thesis by (auto simp: WriteFully.simps [of w fd data])
    next
      case (2 k)
      with "1.prems"(2) False r have "WriteFully (append_file w1 fd (take k data)) fd (drop k data) = (s, w')"
        by (simp add: WriteFully.simps [of w fd data])
      with IH(2) [OF 2] c show ?thesis by simp
    qed
  qed (use "1.prems" in simp)
qed

section \<open>The read loop\<close>

text \<open>
  \<open>while (true) { n = read(fd, chunk, sizeof chunk); \<dots> }\<close>, as \<open>WalReader::Replay\<close>
  and \<open>DB::LoadManifest\<close> run it: \<open>rest\<close> is what the descriptor has not delivered
  yet, \<open>buf\<close> what has been collected. A read returns no byte only at the end of
  the file. \<open>Inl\<close> carries the error text.
\<close>

definition chunk_size :: nat where "chunk_size = 65536"

function ReadChunks :: "world \<Rightarrow> bytes \<Rightarrow> bytes \<Rightarrow> (string + bytes) \<times> world" where
  "ReadChunks w rest buf =
     (let (r, w') = next_result w in
      case r of
        Fail e \<Rightarrow> (Inl e, w')
      | Eintr \<Rightarrow> ReadChunks w' rest buf
      | Short k \<Rightarrow>
          (let n = min (max 1 k) chunk_size in
           if rest = [] then (Inr buf, w')
           else ReadChunks w' (drop n rest) (buf @ take n rest))
      | Done \<Rightarrow>
          (if rest = [] then (Inr buf, w')
           else ReadChunks w' (drop chunk_size rest) (buf @ take chunk_size rest)))"
  by pat_completeness auto
termination
  by (relation "measures [\<lambda>(w, rest, buf). length (script w), \<lambda>(w, rest, buf). length rest]")
    (auto simp: chunk_size_def dest!: next_result_cases [OF sym])

declare ReadChunks.simps [simp del]

lemma ReadChunks_world: "ReadChunks w rest buf = (x, w') \<Longrightarrow> files w' = files w"
proof (induction w rest buf rule: ReadChunks.induct)
  case (1 w rest buf)
  obtain r w1 where r: "next_result w = (r, w1)" by force
  have "files w1 = files w" using next_result_cases [OF r] by auto
  with "1.prems" r "1.IH" [OF refl r [symmetric]] show ?case
    by (cases r) (auto simp: ReadChunks.simps [of w rest buf] Let_def split: if_splits)
qed

lemma ReadChunks_all: "ReadChunks w rest buf = (Inr out, w') \<Longrightarrow> out = buf @ rest"
proof (induction w rest buf rule: ReadChunks.induct)
  case (1 w rest buf)
  obtain r w1 where r: "next_result w = (r, w1)" by force
  with "1.prems" "1.IH" [OF refl r [symmetric]] show ?case
    by (cases r) (auto simp: ReadChunks.simps [of w rest buf] Let_def split: if_splits)
qed

lemma ReadChunks_calm: "calm w \<Longrightarrow> ReadChunks w rest buf = (x, w') \<Longrightarrow> calm w'"
proof (induction w rest buf rule: ReadChunks.induct)
  case (1 w rest buf)
  obtain r w1 where r: "next_result w = (r, w1)" by force
  with 1 calm_next [OF r "1.prems"(1)] show ?case
    by (cases r) (auto simp: ReadChunks.simps [of w rest buf] Let_def split: if_splits)
qed

lemma ReadChunks_no_failure: "no_failure w \<Longrightarrow> \<exists>w'. ReadChunks w rest buf = (Inr (buf @ rest), w') \<and> no_failure w'"
proof (induction w rest buf rule: ReadChunks.induct)
  case (1 w rest buf)
  obtain r w1 where r: "next_result w = (r, w1)" by force
  note nf = no_failure_next [OF r "1.prems"]
  note IH = "1.IH" [OF refl r [symmetric]]
  show ?case
  proof (cases r)
    case Done
    with nf r IH(1) show ?thesis by (simp add: ReadChunks.simps [of w rest buf])
  next
    case (Short k)
    with nf r IH(2) show ?thesis by (simp add: ReadChunks.simps [of w rest buf] Let_def)
  next
    case Eintr
    with nf r IH(3) show ?thesis by (simp add: ReadChunks.simps [of w rest buf])
  next
    case (Fail e)
    with nf show ?thesis by simp
  qed
qed

section \<open>Properties\<close>

text \<open>C16. The write loop never loses, repeats or reorders bytes: for every pattern of short
  writes, interruptions and failures, OK means the file grew by exactly the data, an error
  is an I/O error and the file grew by some prefix of it, and no other file changed.\<close>

theorem write_loop_exact:
  assumes "WriteFully w fd data = (s, w')" and "file_of w fd = Some c"
  shows "(ok s \<longrightarrow> file_of w' fd = Some (c @ data)) \<and>
    (\<not> ok s \<longrightarrow> IsIOError s \<and> (\<exists>n. file_of w' fd = Some (c @ take n data))) \<and>
    (\<forall>p. p \<noteq> fd \<longrightarrow> file_of w' p = file_of w p)"
  using WriteFully_spec [OF assms] by fastforce

theorem write_loop_exact_witness:
  "file_of (snd (WriteFully \<lparr>files = [(''f'', [9])], script = [Short 1, Eintr, Short 0]\<rparr> ''f'' [1, 2, 3])) ''f'' =
     Some ([9] @ [1, 2, 3])"
proof -
  let ?w = "\<lparr>files = [(''f'', [9])], script = [Short 1, Eintr, Short 0]\<rparr>"
  obtain s w' where e: "WriteFully ?w ''f'' [1, 2, 3] = (s, w')" by force
  have "s = OK"
    using WriteFully_no_failure [OF _ e] by (simp add: no_failure_def)
  moreover have "file_of ?w ''f'' = Some [9]" by (simp add: file_of_def)
  ultimately show ?thesis using write_loop_exact [OF e] e by simp
qed

end
