(* ===== verification/Write_Batch.thy ===== *)
theory Write_Batch
  imports Internal_Key Status
begin

text \<open>
  \<open>src/write_batch.cpp\<close> and \<open>include/lsm/write_batch.h\<close>: a batch is a byte
  string of encoded entries and a count. The decoder calls a handler once per
  entry; here it returns the list of calls it made together with its status,
  because an error half way through does not undo the calls before it.
\<close>

section \<open>Definitions\<close>

type_synonym entry = "ValueType \<times> bytes \<times> bytes"

record WriteBatch =
  rep :: bytes
  count :: u32

definition empty_batch :: WriteBatch where
  "empty_batch = \<lparr>rep = [], count = 0\<rparr>"

definition EncodeEntry :: "bytes \<Rightarrow> ValueType \<Rightarrow> bytes \<Rightarrow> bytes \<Rightarrow> bytes" where
  "EncodeEntry dst type key val =
     (let dst = dst @ [type];
          dst = PutVarint32 dst (of_nat (length key));
          dst = (if key \<noteq> [] then dst @ key else dst);
          dst = PutVarint32 dst (of_nat (length val));
          dst = (if val \<noteq> [] then dst @ val else dst)
      in dst)"

definition Put :: "WriteBatch \<Rightarrow> bytes \<Rightarrow> bytes \<Rightarrow> WriteBatch" where
  "Put b key val = b\<lparr>rep := EncodeEntry (rep b) kValue key val, count := count b + 1\<rparr>"

definition Delete :: "WriteBatch \<Rightarrow> bytes \<Rightarrow> WriteBatch" where
  "Delete b key = b\<lparr>rep := EncodeEntry (rep b) kDeletion key [], count := count b + 1\<rparr>"

definition Append :: "WriteBatch \<Rightarrow> WriteBatch \<Rightarrow> WriteBatch" where
  "Append b other = b\<lparr>rep := rep b @ rep other, count := count b + count other\<rparr>"

definition Clear :: "WriteBatch \<Rightarrow> WriteBatch" where
  "Clear b = b\<lparr>rep := [], count := 0\<rparr>"

definition ApproximateSize :: "WriteBatch \<Rightarrow> nat" where
  "ApproximateSize b = length (rep b)"

definition batch_empty :: "WriteBatch \<Rightarrow> bool" where
  "batch_empty b \<longleftrightarrow> count b = 0"

fun DecodeLoop :: "nat \<Rightarrow> bytes \<Rightarrow> entry list \<times> status" where
  "DecodeLoop 0 p =
     (if p \<noteq> [] then ([], Corruption ''write batch has trailing bytes'') else ([], OK))"
| "DecodeLoop (Suc i) p =
     (if p = [] then ([], Corruption ''write batch ended early'')
      else let type = hd p in
        if type \<noteq> kValue \<and> type \<noteq> kDeletion
        then ([], Corruption ''write batch has an unknown entry type'')
        else (case GetVarint32Ptr (tl p) of
          None \<Rightarrow> ([], Corruption ''write batch has a truncated key'')
        | Some (key_len, p) \<Rightarrow>
            if length p < unat key_len then ([], Corruption ''write batch has a truncated key'')
            else let key = take (unat key_len) p; p = drop (unat key_len) p in
              (case GetVarint32Ptr p of
                None \<Rightarrow> ([], Corruption ''write batch has a truncated value'')
              | Some (value_len, p) \<Rightarrow>
                  if length p < unat value_len
                  then ([], Corruption ''write batch has a truncated value'')
                  else let val = take (unat value_len) p; p = drop (unat value_len) p;
                           (calls, s) = DecodeLoop i p
                    in ((type, key, val) # calls, s))))"

definition Decode :: "bytes \<Rightarrow> u32 \<Rightarrow> entry list \<times> status" where
  "Decode entries n = DecodeLoop (unat n) entries"

definition ForEach :: "WriteBatch \<Rightarrow> entry list \<times> status" where
  "ForEach b = Decode (rep b) (count b)"

section \<open>What a batch contains\<close>

fun enc_entry :: "entry \<Rightarrow> bytes" where
  "enc_entry (type, key, val) =
     type # PutVarint32 [] (of_nat (length key)) @ key @ PutVarint32 [] (of_nat (length val)) @ val"

fun entry_ok :: "entry \<Rightarrow> bool" where
  "entry_ok (type, key, val) \<longleftrightarrow>
     type_ok type \<and> length key < 2 ^ 32 \<and> length val < 2 ^ 32"

text \<open>\<open>batch_holds b es\<close>: the batch is the encoding of the entries \<open>es\<close>, in order.\<close>

definition batch_holds :: "WriteBatch \<Rightarrow> entry list \<Rightarrow> bool" where
  "batch_holds b es \<longleftrightarrow>
     rep b = concat (map enc_entry es) \<and> count b = of_nat (length es) \<and>
     length es < 2 ^ 32 \<and> (\<forall>e \<in> set es. entry_ok e)"

lemma EncodeEntry_eq: "EncodeEntry dst type key val = dst @ enc_entry (type, key, val)"
proof -
  have 1: "EncodeEntry dst type key val =
      PutVarint32 (PutVarint32 (dst @ [type]) (of_nat (length key)) @ key) (of_nat (length val)) @ val"
    by (simp add: EncodeEntry_def Let_def)
  show ?thesis
    unfolding 1
    by (subst PutVarint32_append, subst PutVarint32_append [of "dst @ [type]"]) simp
qed

lemma batch_holds_empty [simp]: "batch_holds empty_batch []"
  by (simp add: batch_holds_def empty_batch_def)

lemma batch_holds_Clear: "batch_holds (Clear b) []"
  by (simp add: batch_holds_def Clear_def)

lemma batch_holds_Put:
  assumes "batch_holds b es" "length es + 1 < 2 ^ 32" "length key < 2 ^ 32" "length val < 2 ^ 32"
  shows "batch_holds (Put b key val) (es @ [(kValue, key, val)])"
  using assms by (simp add: batch_holds_def Put_def EncodeEntry_eq type_ok_def)

lemma batch_holds_Delete:
  assumes "batch_holds b es" "length es + 1 < 2 ^ 32" "length key < 2 ^ 32"
  shows "batch_holds (Delete b key) (es @ [(kDeletion, key, [])])"
  using assms by (simp add: batch_holds_def Delete_def EncodeEntry_eq type_ok_def)

lemma batch_holds_Append:
  assumes "batch_holds b es" "batch_holds b' es'" "length es + length es' < 2 ^ 32"
  shows "batch_holds (Append b b') (es @ es')"
  using assms by (auto simp: batch_holds_def Append_def)

lemma DecodeLoop_enc:
  assumes "\<forall>e \<in> set es. entry_ok e"
  shows "DecodeLoop (length es) (concat (map enc_entry es)) = (es, OK)"
  using assms
proof (induction es)
  case (Cons e es)
  obtain type key val where e: "e = (type, key, val)" by (cases e)
  from Cons.prems have ok: "type_ok type" "length key < 2 ^ 32" "length val < 2 ^ 32"
    by (auto simp: e)
  then have "type = kValue \<or> type = kDeletion" by (auto simp: type_ok_def)
  with ok Cons show ?case
    by (simp add: e unat_of_nat_small Let_def)
qed simp

lemma ForEach_holds: "batch_holds b es \<Longrightarrow> ForEach b = (es, OK)"
  by (simp add: batch_holds_def ForEach_def Decode_def unat_of_nat_small DecodeLoop_enc)

lemma Decode_holds:
  "batch_holds b es \<Longrightarrow> Decode (rep b) (count b) = (es, OK)"
  using ForEach_holds by (simp add: ForEach_def)

lemma batch_empty_holds: "batch_holds b es \<Longrightarrow> batch_empty b \<longleftrightarrow> es = []"
proof -
  assume h: "batch_holds b es"
  then have "unat (count b) = length es"
    by (simp add: batch_holds_def unat_of_nat_small)
  then show ?thesis by (metis batch_empty_def length_0_conv unat_0 unat_eq_zero)
qed

text \<open>
  What the decoder accepts: entries whose lengths are varints of any form the varint
  decoder takes, not only the shortest one the encoder writes.
\<close>

type_synonym frame = "ValueType \<times> bytes \<times> bytes \<times> bytes \<times> bytes"

fun frame_bytes :: "frame \<Rightarrow> bytes" where
  "frame_bytes (type, kl, key, vl, val) = type # kl @ key @ vl @ val"

fun frame_entry :: "frame \<Rightarrow> entry" where
  "frame_entry (type, kl, key, vl, val) = (type, key, val)"

definition varint_of :: "bytes \<Rightarrow> nat \<Rightarrow> bool" where
  "varint_of p n \<longleftrightarrow> n < 2 ^ 32 \<and> GetVarint32Ptr p = Some (of_nat n, [])"

fun frame_ok :: "frame \<Rightarrow> bool" where
  "frame_ok (type, kl, key, vl, val) \<longleftrightarrow>
     (type = kValue \<or> type = kDeletion) \<and> varint_of kl (length key) \<and> varint_of vl (length val)"

lemma GetVarint32Loop_split:
  "GetVarint32Loop shift result p = Some (v, rest) \<longleftrightarrow>
    (\<exists>q. p = q @ rest \<and> GetVarint32Loop shift result q = Some (v, []))"
proof (induction shift result p arbitrary: v rest rule: GetVarint32Loop.induct)
  case (1 shift result p)
  let ?byte = "ucast (hd p) :: u32"
  consider (stop) "\<not> (shift \<le> 28 \<and> p \<noteq> [])" | (more) "shift \<le> 28" "p \<noteq> []" "?byte AND 0x80 \<noteq> 0"
    | (fin) "shift \<le> 28" "p \<noteq> []" "?byte AND 0x80 = 0" by blast
  then show ?case
  proof cases
    case stop
    then show ?thesis by (auto simp: GetVarint32Loop.simps [of shift])
  next
    case more
    have "GetVarint32Loop shift result p = Some (v, rest) \<longleftrightarrow>
        (\<exists>q. tl p = q @ rest \<and> GetVarint32Loop (shift + 7) (result OR push_bit shift (?byte AND 0x7f)) q = Some (v, []))"
      using "1.IH" [OF _ refl more(3)] more by (simp add: GetVarint32Loop.simps [of shift])
    also have "\<dots> \<longleftrightarrow> (\<exists>q. p = (hd p # q) @ rest \<and> GetVarint32Loop shift result (hd p # q) = Some (v, []))"
      using more by (cases p) (auto simp: GetVarint32Loop.simps [of shift])
    also have "\<dots> \<longleftrightarrow> (\<exists>q. p = q @ rest \<and> GetVarint32Loop shift result q = Some (v, []))"
    proof
      assume "\<exists>q. p = q @ rest \<and> GetVarint32Loop shift result q = Some (v, [])"
      then obtain q where q: "p = q @ rest" "GetVarint32Loop shift result q = Some (v, [])" by blast
      then have "q \<noteq> []" by (auto simp: GetVarint32Loop.simps [of shift])
      then show "\<exists>q. p = (hd p # q) @ rest \<and> GetVarint32Loop shift result (hd p # q) = Some (v, [])"
        using q by (intro exI [of _ "tl q"]) (cases q; simp)
    qed blast
    finally show ?thesis .
  next
    case fin
    then have "GetVarint32Loop shift result p = Some (result OR push_bit shift ?byte, tl p)"
      by (simp add: GetVarint32Loop.simps [of shift])
    moreover have "GetVarint32Loop shift result q = Some (result OR push_bit shift ?byte, tl q)" if "p = q @ rest" "q \<noteq> []" for q
      using fin that by (subst GetVarint32Loop.simps) simp
    moreover have "GetVarint32Loop shift result [] = None" by (simp add: GetVarint32Loop.simps [of shift])
    ultimately show ?thesis using fin(2)
      by (cases p) (auto simp: Cons_eq_append_conv)
  qed
qed

lemma GetVarint32Ptr_split:
  "GetVarint32Ptr p = Some (v, rest) \<longleftrightarrow> (\<exists>q. p = q @ rest \<and> GetVarint32Ptr q = Some (v, []))"
  unfolding GetVarint32Ptr_def by (rule GetVarint32Loop_split)

lemma varint_of_read: "varint_of p n \<Longrightarrow> GetVarint32Ptr (p @ rest) = Some (of_nat n, rest)"
  unfolding varint_of_def by (subst GetVarint32Ptr_split) blast

lemma DecodeLoop_frames:
  "list_all frame_ok fs \<Longrightarrow>
    DecodeLoop (length fs) (concat (map frame_bytes fs)) = (map frame_entry fs, OK)"
proof (induction fs)
  case (Cons f fs)
  obtain type kl key vl val where f: "f = (type, kl, key, vl, val)" by (metis prod_cases5)
  from Cons.prems have ok: "type = kValue \<or> type = kDeletion" "varint_of kl (length key)" "varint_of vl (length val)"
    by (auto simp: f)
  then have "length key < 2 ^ 32" "length val < 2 ^ 32" by (auto simp: varint_of_def)
  with Cons ok show ?case by (simp add: f varint_of_read unat_of_nat_small Let_def)
qed simp

lemma frame_split:
  assumes "GetVarint32Ptr p = Some (n, q)" "unat n \<le> length q"
  shows "\<exists>kl. p = kl @ take (unat n) q @ drop (unat n) q \<and> varint_of kl (length (take (unat n) q))"
proof -
  obtain kl where kl: "p = kl @ q" "GetVarint32Ptr kl = Some (n, [])" using assms(1) GetVarint32Ptr_split by blast
  have "varint_of kl (length (take (unat n) q))"
    using kl(2) assms(2) unsigned_less [of n, where ?'a = nat] by (simp add: varint_of_def min_absorb2)
  then show ?thesis using kl(1) by (intro exI [of _ kl]) simp
qed

lemma DecodeLoop_accepted:
  "DecodeLoop n p = (calls, OK) \<Longrightarrow>
    \<exists>fs. p = concat (map frame_bytes fs) \<and> length fs = n \<and> calls = map frame_entry fs \<and> list_all frame_ok fs"
proof (induction n arbitrary: p calls)
  case 0
  then show ?case by (auto simp: Corruption_def OK_def split: if_splits)
next
  case (Suc n)
  obtain t p1 where p: "p = t # p1" using Suc.prems by (cases p) (auto simp: Corruption_def OK_def)
  have t: "t = kValue \<or> t = kDeletion"
    using Suc.prems p by (auto simp: Corruption_def OK_def Let_def split: if_splits)
  obtain kn q1 where k: "GetVarint32Ptr p1 = Some (kn, q1)" "unat kn \<le> length q1"
    using Suc.prems p t by (auto simp: Corruption_def OK_def Let_def split: if_splits option.splits)
  obtain vn q2 where v: "GetVarint32Ptr (drop (unat kn) q1) = Some (vn, q2)" "unat vn \<le> length q2"
    using Suc.prems p t k by (auto simp: Corruption_def OK_def Let_def split: if_splits option.splits)
  let ?key = "take (unat kn) q1" and ?val = "take (unat vn) q2"
  obtain calls' where c: "DecodeLoop n (drop (unat vn) q2) = (calls', OK)" "calls = (t, ?key, ?val) # calls'"
    using Suc.prems p t k v by (auto simp: Let_def split: if_splits prod.splits)
  obtain fs where fs: "drop (unat vn) q2 = concat (map frame_bytes fs)" "length fs = n" "calls' = map frame_entry fs"
      "list_all frame_ok fs"
    using Suc.IH [OF c(1)] by blast
  obtain kl where kl: "p1 = kl @ ?key @ drop (unat kn) q1" "varint_of kl (length ?key)" using frame_split [OF k] by blast
  obtain vl where vl: "drop (unat kn) q1 = vl @ ?val @ drop (unat vn) q2" "varint_of vl (length ?val)"
    using frame_split [OF v] by blast
  have "p = concat (map frame_bytes ((t, kl, ?key, vl, ?val) # fs))"
    unfolding p using kl(1) vl(1) fs(1) by simp
  then show ?case using t kl(2) vl(2) c(2) fs by (intro exI [of _ "(t, kl, ?key, vl, ?val) # fs"]) simp
qed

section \<open>Properties\<close>

text \<open>The operations a caller performs on a batch.\<close>

datatype batch_op = OpPut bytes bytes | OpDelete bytes

fun apply_op :: "WriteBatch \<Rightarrow> batch_op \<Rightarrow> WriteBatch" where
  "apply_op b (OpPut key val) = Put b key val"
| "apply_op b (OpDelete key) = Delete b key"

fun op_entry :: "batch_op \<Rightarrow> entry" where
  "op_entry (OpPut key val) = (kValue, key, val)"
| "op_entry (OpDelete key) = (kDeletion, key, [])"

lemma batch_holds_ops:
  assumes "batch_holds b es" "length es + length ops < 2 ^ 32" "\<forall>x \<in> set ops. entry_ok (op_entry x)"
  shows "batch_holds (foldl apply_op b ops) (es @ map op_entry ops)"
  using assms
proof (induction ops arbitrary: b es)
  case (Cons x ops)
  have "batch_holds (apply_op b x) (es @ [op_entry x])"
    using Cons.prems by (cases x) (auto intro: batch_holds_Put batch_holds_Delete)
  from Cons.IH [OF this] Cons.prems show ?case by simp
qed simp

text \<open>C14. Walking a batch calls the handler with exactly the puts and deletes that were added to
  it, in order, and succeeds; folding one batch into another, as group commit does, gives
  the entries of the first followed by those of the second.\<close>

theorem batch_round_trip:
  assumes "length ops + length ops' < 2 ^ 32"
    and "\<forall>x \<in> set ops \<union> set ops'. entry_ok (op_entry x)"
  shows "ForEach (Append (foldl apply_op empty_batch ops) (foldl apply_op empty_batch ops')) =
    (map op_entry ops @ map op_entry ops', OK)"
proof -
  have "batch_holds (foldl apply_op empty_batch ops) (map op_entry ops)"
    "batch_holds (foldl apply_op empty_batch ops') (map op_entry ops')"
    using batch_holds_ops [of empty_batch "[]" ops] batch_holds_ops [of empty_batch "[]" ops'] assms
    by simp_all
  then show ?thesis
    by (intro ForEach_holds batch_holds_Append) (use assms in auto)
qed

theorem batch_round_trip_witness:
  "ForEach (Append (foldl apply_op empty_batch [OpPut [1] [2, 3], OpDelete [4]])
     (foldl apply_op empty_batch [OpPut [1] []])) =
   ([(kValue, [1], [2, 3]), (kDeletion, [4], []), (kValue, [1], [])], OK)"
  using batch_round_trip [of "[OpPut [1] [2, 3], OpDelete [4]]" "[OpPut [1] []]"]
  by (simp add: type_ok_def)

text \<open>C15. Decoding accepts exactly the byte strings that are \<open>count\<close> complete entries and nothing
  else: it returns OK if and only if the bytes split, without remainder, into that many entries of
  type put or delete whose keys and values have the lengths written before them, and then these are
  the calls it made, in order.\<close>

theorem decode_accepts_whole_batches:
  "Decode entries n = (calls, OK) \<longleftrightarrow>
    (\<exists>fs. entries = concat (map frame_bytes fs) \<and> length fs = unat n \<and> calls = map frame_entry fs \<and> list_all frame_ok fs)"
  unfolding Decode_def
proof
  assume "DecodeLoop (unat n) entries = (calls, OK)"
  then show "\<exists>fs. entries = concat (map frame_bytes fs) \<and> length fs = unat n \<and> calls = map frame_entry fs \<and> list_all frame_ok fs"
    by (rule DecodeLoop_accepted)
next
  assume "\<exists>fs. entries = concat (map frame_bytes fs) \<and> length fs = unat n \<and> calls = map frame_entry fs \<and> list_all frame_ok fs"
  then show "DecodeLoop (unat n) entries = (calls, OK)" using DecodeLoop_frames by metis
qed

end
