(* ===== verification/Wal.thy ===== *)
theory Wal
  imports Posix Write_Batch Crc32c
begin

text \<open>
  \<open>src/wal.cpp\<close>: the write-ahead log. The writer appends one checksummed record
  per batch; the reader replays a log from the start and stops at the first
  record that is cut short or fails its checksum. Replay hands every entry to a
  handler; here it returns the list of those calls, its status and the flag
  \<open>saw_truncated_tail\<close>.
\<close>

section \<open>Definitions\<close>

definition kHeaderSize :: nat where "kHeaderSize = 8"
definition kFileHeaderSize :: nat where "kFileHeaderSize = 8"

definition kFileMagic :: bytes where
  "kFileMagic = [0x4c, 0x53, 0x4d, 0x57, 0x41, 0x4c, 0]"

definition kFormatVersion :: byte where "kFormatVersion = 2"

record WalWriter =
  wal_fd :: "string option"
  wal_file_size :: u64
  wal_hook :: "(bytes \<Rightarrow> bytes) option"

definition new_wal_writer :: WalWriter where
  "new_wal_writer = \<lparr>wal_fd = None, wal_file_size = 0, wal_hook = None\<rparr>"

definition wal_Open :: "world \<Rightarrow> WalWriter \<Rightarrow> string \<Rightarrow> status \<times> WalWriter \<times> world" where
  "wal_Open w wr path =
     (if wal_fd wr \<noteq> None then (InvalidArgument ''WAL writer already open'', wr, w)
      else let (err, w) = simple_call w in
        case err of
          Some e \<Rightarrow> (PosixError (''open '' @ path) e, wr, w)
        | None \<Rightarrow>
            let w = append_file w path [];
                size = (case file_of w path of None \<Rightarrow> 0 | Some c \<Rightarrow> length c);
                wr = wr\<lparr>wal_fd := Some path, wal_file_size := of_nat size\<rparr>
            in if wal_file_size wr = 0 then
                 let header = kFileMagic @ [kFormatVersion];
                     (s, w) = WriteFully w path header
                 in if \<not> ok s then (s, wr, w)
                    else (OK, wr\<lparr>wal_file_size := wal_file_size wr + of_nat (length header)\<rparr>, w)
               else (OK, wr, w))"

definition wal_Close :: "world \<Rightarrow> WalWriter \<Rightarrow> status \<times> WalWriter \<times> world" where
  "wal_Close w wr =
     (if wal_fd wr = None then (OK, wr, w)
      else let wr = wr\<lparr>wal_fd := None\<rparr>; (err, w) = simple_call w in
        case err of Some e \<Rightarrow> (PosixError ''close'' e, wr, w) | None \<Rightarrow> (OK, wr, w))"

definition wal_payload :: "SequenceNumber \<Rightarrow> WriteBatch \<Rightarrow> bytes" where
  "wal_payload seq batch = PutFixed32 (PutFixed64 [] seq) (count batch) @ rep batch"

definition wal_record :: "SequenceNumber \<Rightarrow> WriteBatch \<Rightarrow> bytes" where
  "wal_record seq batch =
     (let payload = wal_payload seq batch;
          scratch = PutFixed32 [] (Value payload);
          scratch = PutFixed32 scratch (of_nat (length payload))
      in scratch @ payload)"

definition AddRecord ::
  "world \<Rightarrow> WalWriter \<Rightarrow> SequenceNumber \<Rightarrow> WriteBatch \<Rightarrow> status \<times> WalWriter \<times> world" where
  "AddRecord w wr seq batch =
     (case wal_fd wr of
        None \<Rightarrow> (InvalidArgument ''WAL writer not open'', wr, w)
      | Some fd \<Rightarrow>
          if batch_empty batch then (OK, wr, w)
          else let scratch = wal_record seq batch;
                   scratch = (case wal_hook wr of None \<Rightarrow> scratch | Some hook \<Rightarrow> hook scratch);
                   (s, w) = WriteFully w fd scratch
            in if \<not> ok s then (s, wr, w)
               else (OK, wr\<lparr>wal_file_size := wal_file_size wr + of_nat (length scratch)\<rparr>, w))"

definition AddRecord1 ::
  "world \<Rightarrow> WalWriter \<Rightarrow> SequenceNumber \<Rightarrow> ValueType \<Rightarrow> bytes \<Rightarrow> bytes \<Rightarrow>
     status \<times> WalWriter \<times> world" where
  "AddRecord1 w wr seq type key val =
     (let batch = (if type = kDeletion then Delete empty_batch key else Put empty_batch key val)
      in AddRecord w wr seq batch)"

definition wal_Sync :: "world \<Rightarrow> WalWriter \<Rightarrow> status \<times> world" where
  "wal_Sync w wr =
     (if wal_fd wr = None then (InvalidArgument ''WAL writer not open'', w)
      else let (err, w) = simple_call w in
        case err of Some e \<Rightarrow> (PosixError ''fsync'' e, w) | None \<Rightarrow> (OK, w))"

text \<open>The entries of a batch with the sequence numbers the handler is given.\<close>

type_synonym call = "SequenceNumber \<times> ValueType \<times> bytes \<times> bytes"

fun number_entries :: "SequenceNumber \<Rightarrow> entry list \<Rightarrow> call list" where
  "number_entries seq [] = []"
| "number_entries seq ((type, key, val) # es) =
     (seq, type, key, val) # number_entries (seq + 1) es"

function ReplayLoop :: "bytes \<Rightarrow> call list \<times> status \<times> bool" where
  "ReplayLoop buf =
     (if buf = [] then ([], OK, False)
      else if length buf < kHeaderSize then ([], OK, True)
      else let expected_crc = DecodeFixed32 buf; len = DecodeFixed32 (drop 4 buf) in
        if length buf - kHeaderSize < unat len then ([], OK, True)
        else let payload = take (unat len) (drop kHeaderSize buf) in
          if Value payload \<noteq> expected_crc then ([], OK, True)
          else if len < 12 then ([], Corruption ''WAL record too short'', False)
          else let base = DecodeFixed64 payload; n = DecodeFixed32 (drop 8 payload);
                   (es, s) = Decode (drop 12 payload) n
            in if \<not> ok s then (number_entries base es, s, False)
               else let (calls, s, tail) = ReplayLoop (drop (kHeaderSize + unat len) buf)
                 in (number_entries base es @ calls, s, tail))"
  by pat_completeness auto
termination
  by (relation "measure length") (auto simp: kHeaderSize_def)

declare ReplayLoop.simps [simp del]

definition ReplayBuf :: "string \<Rightarrow> bytes \<Rightarrow> call list \<times> status \<times> bool" where
  "ReplayBuf path buf =
     (if buf = [] then ([], OK, False)
      else if length buf < kFileHeaderSize then ([], OK, True)
      else if take 7 buf \<noteq> kFileMagic then ([], Corruption (path @ '': not a WAL file''), False)
      else if buf ! 7 \<noteq> kFormatVersion
      then ([], Corruption (path @ '': unsupported WAL format version''), False)
      else ReplayLoop (drop kFileHeaderSize buf))"

definition Replay :: "world \<Rightarrow> string \<Rightarrow> (call list \<times> status \<times> bool) \<times> world" where
  "Replay w path =
     (let (err, w) = simple_call w in
      case err of
        Some e \<Rightarrow> (([], PosixError (''open '' @ path) e, False), w)
      | None \<Rightarrow>
          (case file_of w path of
             None \<Rightarrow> (([], OK, False), w)
           | Some c \<Rightarrow>
               let (r, w) = ReadChunks w c [] in
               case r of
                 Inl e \<Rightarrow> (([], PosixError (''read '' @ path) e, False), w)
               | Inr buf \<Rightarrow> (ReplayBuf path buf, w)))"

section \<open>Records\<close>

text \<open>A log as a list of records: base sequence number, batch, and what the batch holds.\<close>

type_synonym log_record = "SequenceNumber \<times> WriteBatch \<times> entry list"

fun record_ok :: "log_record \<Rightarrow> bool" where
  "record_ok (seq, b, es) \<longleftrightarrow> batch_holds b es \<and> es \<noteq> [] \<and> length (rep b) + 12 < 2 ^ 32"

fun record_bytes :: "log_record \<Rightarrow> bytes" where
  "record_bytes (seq, b, es) = wal_record seq b"

fun record_calls :: "log_record \<Rightarrow> call list" where
  "record_calls (seq, b, es) = number_entries seq es"

definition log_bytes :: "log_record list \<Rightarrow> bytes" where
  "log_bytes rs = kFileMagic @ [kFormatVersion] @ concat (map record_bytes rs)"

definition log_calls :: "log_record list \<Rightarrow> call list" where
  "log_calls rs = concat (map record_calls rs)"

lemma length_kFileMagic: "length kFileMagic = 7"
  by (simp add: kFileMagic_def)

lemma wal_payload_eq: "wal_payload seq b = fixed64 seq @ fixed32 (count b) @ rep b"
  by (simp add: wal_payload_def PutFixed32_def PutFixed64_def)

lemma wal_record_eq:
  "wal_record seq b = fixed32 (Value (wal_payload seq b)) @
     fixed32 (of_nat (length (wal_payload seq b))) @ wal_payload seq b"
  by (simp add: wal_record_def PutFixed32_def Let_def)

lemma length_wal_payload [simp, len]: "length (wal_payload seq b) = 12 + length (rep b)"
  by (simp add: wal_payload_eq)

lemma length_wal_record [simp, len]: "length (wal_record seq b) = 20 + length (rep b)"
  by (simp add: wal_record_eq)

lemma wal_record_not_Nil [simp]: "wal_record seq b \<noteq> []"
  by (simp add: wal_record_eq)

lemma ReplayLoop_Nil [simp]: "ReplayLoop [] = ([], OK, False)"
  by (simp add: ReplayLoop.simps)

text \<open>One intact record in front: its entries are delivered and replay goes on behind it.\<close>

lemma ReplayLoop_record:
  assumes "record_ok (seq, b, es)"
  shows "ReplayLoop (wal_record seq b @ rest) =
    (let (calls, s, tail) = ReplayLoop rest in (number_entries seq es @ calls, s, tail))"
proof -
  define p where "p = wal_payload seq b"
  have lp: "length p = 12 + length (rep b)" by (simp add: p_def)
  have buf: "wal_record seq b @ rest = fixed32 (Value p) @ fixed32 (of_nat (length p)) @ p @ rest"
    by (simp add: wal_record_eq p_def)
  have small: "length p < 2 ^ 32" using assms lp by simp
  then have len: "unat (of_nat (length p) :: u32) = length p"
    by (simp add: unat_of_nat_small)
  have dec: "DecodeFixed64 p = seq" "DecodeFixed32 (drop 8 p) = count b" "drop 12 p = rep b"
    by (simp_all add: p_def wal_payload_eq)
  have "Decode (rep b) (count b) = (es, OK)"
    using assms by (simp add: Decode_holds)
  moreover have "\<not> (of_nat (length p) :: u32) < 12"
    using len lp by (simp add: word_less_nat_alt)
  ultimately show ?thesis
    unfolding buf
    by (subst ReplayLoop.simps) (simp add: Let_def kHeaderSize_def len dec split: prod.splits)
qed

text \<open>A record cut short: nothing of it is delivered.\<close>

lemma ReplayLoop_torn:
  assumes "record_ok (seq, b, es)" "n < length (wal_record seq b)"
  shows "ReplayLoop (take n (wal_record seq b)) = ([], OK, n \<noteq> 0)"
proof (cases "n < 8")
  case True
  then show ?thesis by (auto simp: ReplayLoop.simps kHeaderSize_def)
next
  case False
  define p where "p = wal_payload seq b"
  have "length p < 2 ^ 32" using assms(1) by (simp add: p_def)
  then have len: "unat (of_nat (length p) :: u32) = length p"
    by (simp add: unat_of_nat_small)
  have t: "take n (wal_record seq b) = fixed32 (Value p) @ fixed32 (of_nat (length p)) @ take (n - 8) p"
    using False by (simp add: wal_record_eq p_def)
  have "n - 8 < length p" using assms(2) False by (simp add: p_def)
  then show ?thesis using False
    unfolding t by (subst ReplayLoop.simps) (simp add: Let_def kHeaderSize_def len)
qed

text \<open>The records that lie whole within the first \<open>n\<close> bytes.\<close>

fun complete_records :: "nat \<Rightarrow> log_record list \<Rightarrow> log_record list" where
  "complete_records n [] = []"
| "complete_records n (r # rs) =
     (if length (record_bytes r) \<le> n then r # complete_records (n - length (record_bytes r)) rs
      else [])"

lemma ReplayLoop_prefix:
  assumes "\<forall>r \<in> set rs. record_ok r"
  shows "\<exists>torn. ReplayLoop (take n (concat (map record_bytes rs))) =
    (log_calls (complete_records n rs), OK, torn)"
  using assms
proof (induction rs arbitrary: n)
  case Nil
  show ?case by (intro exI [of _ False]) (simp add: log_calls_def)
next
  case (Cons r rs)
  obtain seq b es where r: "r = (seq, b, es)" by (cases r)
  have ok: "record_ok (seq, b, es)" using Cons.prems r by simp
  show ?case
  proof (cases "length (record_bytes r) \<le> n")
    case True
    obtain torn where "ReplayLoop (take (n - length (record_bytes r)) (concat (map record_bytes rs))) =
        (log_calls (complete_records (n - length (record_bytes r)) rs), OK, torn)"
      using Cons by auto
    with True show ?thesis
      by (simp add: r ReplayLoop_record [OF ok] log_calls_def Let_def)
  next
    case False
    then show ?thesis
      using ReplayLoop_torn [OF ok, of n] by (simp add: r log_calls_def)
  qed
qed

lemma complete_records_all:
  "length (concat (map record_bytes rs)) \<le> n \<Longrightarrow> complete_records n rs = rs"
  by (induction n rs rule: complete_records.induct) auto

lemma ReplayBuf_log:
  "ReplayBuf path (kFileMagic @ [kFormatVersion] @ body) = ReplayLoop body"
  by (simp add: ReplayBuf_def kFileMagic_def kFormatVersion_def kFileHeaderSize_def)


lemma ReplayLoop_log_append:
  assumes "\<forall>r \<in> set rs. record_ok r"
  shows "ReplayLoop (concat (map record_bytes rs) @ rest) =
    (let (calls, s, torn) = ReplayLoop rest in (log_calls rs @ calls, s, torn))"
  using assms
proof (induction rs)
  case (Cons r rs)
  then show ?case
    by (cases r) (auto simp: ReplayLoop_record log_calls_def Let_def split: prod.splits)
qed (simp add: log_calls_def)

lemma ReplayBuf_log_append:
  assumes "\<forall>r \<in> set rs. record_ok r"
  shows "ReplayBuf path (log_bytes rs @ rest) =
    (let (calls, s, torn) = ReplayLoop rest in (log_calls rs @ calls, s, torn))"
  using ReplayBuf_log [of path "concat (map record_bytes rs) @ rest"] ReplayLoop_log_append [OF assms]
  by (simp add: log_bytes_def)

lemma Replay_file:
  assumes "no_failure w" "file_of w path = Some c" and nf: "Eintr \<notin> set (script w)"
  shows "fst (Replay w path) = ReplayBuf path c"
proof -
  obtain r w1 where r: "next_result w = (r, w1)" by force
  from r assms have "no_failure w1" "r \<noteq> Eintr" "\<forall>e. r \<noteq> Fail e" "file_of w1 path = Some c"
    by (auto simp: no_failure_def dest!: next_result_cases)
  moreover obtain w2 where "ReadChunks w1 c [] = (Inr ([] @ c), w2)"
    using ReadChunks_no_failure [OF \<open>no_failure w1\<close>] by blast
  ultimately show ?thesis
    using r by (cases r) (simp_all add: Replay_def simple_call_def Let_def)
qed

lemma AddRecord_file:
  assumes "AddRecord w wr seq b = (s, wr', w')"
    and "wal_fd wr = Some path" "wal_hook wr = None" "batch_holds b es" "es \<noteq> []"
    and "file_of w path = Some c"
  shows "\<exists>n. file_of w' path = Some (c @ take n (wal_record seq b)) \<and>
    (ok s \<longrightarrow> n = length (wal_record seq b)) \<and> (\<not> ok s \<longrightarrow> IsIOError s)"
proof -
  obtain s1 w1 where w1: "WriteFully w path (wal_record seq b) = (s1, w1)" by force
  have "\<not> batch_empty b" using batch_empty_holds assms(4,5) by blast
  with assms(1-3) w1 have "w' = w1 \<and> (s = s1 \<or> s = OK \<and> ok s1)"
    by (auto simp: AddRecord_def Let_def split: if_splits)
  then show ?thesis using WriteFully_spec [OF w1 assms(6)] by fastforce
qed

section \<open>Properties\<close>

text \<open>C9. A log cut off after any number of bytes replays exactly the batches whose records lie
  whole before the cut, in order and with their sequence numbers, and reports success: a
  crash can only shorten the log, and no batch comes back in part.\<close>

theorem torn_log_replays_whole_batches:
  assumes "\<forall>r \<in> set rs. record_ok r"
  shows "\<exists>torn. ReplayBuf path (take n (log_bytes rs)) =
    (log_calls (complete_records (n - 8) rs), OK, torn)"
proof (cases "n < 8")
  case True
  have "complete_records 0 rs = []"
    by (cases rs) (use assms in auto)
  moreover have "length (log_bytes rs) \<ge> 8"
    by (simp add: log_bytes_def kFileMagic_def)
  ultimately show ?thesis using True
    by (auto simp: ReplayBuf_def log_calls_def kFileHeaderSize_def)
next
  case False
  have "take n (log_bytes rs) = kFileMagic @ [kFormatVersion] @ take (n - 8) (concat (map record_bytes rs))"
    using False by (simp add: log_bytes_def take_Cons' length_kFileMagic)
  then show ?thesis
    using ReplayLoop_prefix [OF assms, of "n - 8"] by (simp only: ReplayBuf_log)
qed

definition sample_batch :: WriteBatch where
  "sample_batch = Put empty_batch [97] [1, 2]"

lemma sample_record_ok: "record_ok (7, sample_batch, [(kValue, [97], [1, 2])])"
proof -
  have "batch_holds sample_batch ([] @ [(kValue, [97], [1, 2])])"
    unfolding sample_batch_def by (rule batch_holds_Put) simp_all
  moreover have "length (rep sample_batch) = 6"
    using PutVarint32_small [of 1] PutVarint32_small [of 2]
    by (simp add: sample_batch_def Put_def EncodeEntry_eq empty_batch_def word_le_nat_alt)
  ultimately show ?thesis by simp
qed

theorem torn_log_replays_whole_batches_witness:
  "\<exists>torn. ReplayBuf ''l'' (take 40 (log_bytes [(7, sample_batch, [(kValue, [97], [1, 2])]),
       (8, sample_batch, [(kValue, [97], [1, 2])])])) =
     (log_calls (complete_records 32 [(7, sample_batch, [(kValue, [97], [1, 2])]),
       (8, sample_batch, [(kValue, [97], [1, 2])])]), OK, torn)"
  using torn_log_replays_whole_batches
    [of "[(7, sample_batch, [(kValue, [97], [1, 2])]), (8, sample_batch, [(kValue, [97], [1, 2])])]"
      "''l''" 40] sample_record_ok by simp

text \<open>C10. Appending a batch to a log is atomic and acknowledged batches are never lost: whatever
  the system calls do, replaying the file afterwards gives the earlier batches followed by
  all of the new one or nothing of it, and all of it whenever the append reported OK.\<close>

theorem append_is_atomic_and_durable:
  assumes "\<forall>r \<in> set rs. record_ok r" and "record_ok (seq, b, es)"
    and "wal_fd wr = Some path" "wal_hook wr = None"
    and "file_of w path = Some (log_bytes rs)"
    and "AddRecord w wr seq b = (s, wr', w')"
  shows "\<exists>c torn. file_of w' path = Some c \<and>
    (ReplayBuf path c = (log_calls rs @ number_entries seq es, OK, torn) \<or>
     \<not> ok s \<and> ReplayBuf path c = (log_calls rs, OK, torn))"
proof -
  have "batch_holds b es" "es \<noteq> []" using assms(2) by auto
  then obtain n where n: "file_of w' path = Some (log_bytes rs @ take n (wal_record seq b))"
    "ok s \<longrightarrow> n = length (wal_record seq b)"
    using AddRecord_file [OF assms(6,3,4) _ _ assms(5)] by blast
  note replay = ReplayBuf_log_append [OF assms(1)]
  show ?thesis
  proof (cases "n < length (wal_record seq b)")
    case True
    with n(2) have "\<not> ok s" by auto
    then show ?thesis
      using n(1) replay ReplayLoop_torn [OF assms(2) True] by auto
  next
    case False
    then have "ReplayLoop (take n (wal_record seq b)) = (number_entries seq es, OK, False)"
      using ReplayLoop_record [OF assms(2), of "[]"] by simp
    then show ?thesis using n(1) replay by auto
  qed
qed

theorem append_is_atomic_and_durable_witness:
  "\<exists>c torn. file_of (snd (snd (AddRecord \<lparr>files = [(''l'', log_bytes [])], script = [Short 3, Fail ''x'']\<rparr>
      \<lparr>wal_fd = Some ''l'', wal_file_size = 8, wal_hook = None\<rparr> 7 sample_batch))) ''l'' = Some c \<and>
    (ReplayBuf ''l'' c = (log_calls [] @ number_entries 7 [(kValue, [97], [1, 2])], OK, torn) \<or>
     ReplayBuf ''l'' c = (log_calls [], OK, torn))"
proof -
  let ?w = "\<lparr>files = [(''l'', log_bytes [])], script = [Short 3, Fail ''x'']\<rparr>"
  let ?wr = "\<lparr>wal_fd = Some ''l'', wal_file_size = 8, wal_hook = None\<rparr>"
  obtain s wr' w' where a: "AddRecord ?w ?wr 7 sample_batch = (s, wr', w')"
    by (metis prod_cases3)
  show ?thesis
    using append_is_atomic_and_durable [OF _ sample_record_ok _ _ _ a, of "[]" "''l''"] a
    by (auto simp: file_of_def)
qed

text \<open>C18. A log whose intact records are followed by zero bytes, the shape a file system may give
  a file it had extended but not filled, is not read as a log with a torn tail: eight zero
  bytes pass the checksum of an empty payload and replay ends in a corruption error.\<close>

theorem zero_tail_is_corruption:
  assumes "\<forall>r \<in> set rs. record_ok r"
  shows "ReplayBuf path (log_bytes rs @ replicate (8 + n) 0) =
    (log_calls rs, Corruption ''WAL record too short'', False)"
proof -
  have z: "4 \<le> m \<Longrightarrow> DecodeFixed32 (replicate m 0) = 0" for m
    by (simp add: DecodeFixed32_def)
  have "ReplayLoop (replicate (8 + n) 0) = ([], Corruption ''WAL record too short'', False)"
    by (subst ReplayLoop.simps) (simp add: z kHeaderSize_def del: replicate.simps replicate_Suc)
  then show ?thesis
    using ReplayBuf_log_append [OF assms] by simp
qed

theorem zero_tail_is_corruption_witness:
  "ReplayBuf ''l'' (log_bytes [(7, sample_batch, [(kValue, [97], [1, 2])])] @ replicate (8 + 0) 0) =
    (log_calls [(7, sample_batch, [(kValue, [97], [1, 2])])], Corruption ''WAL record too short'', False)"
  by (rule zero_tail_is_corruption) (simp add: sample_record_ok del: record_ok.simps)

end
