(* ===== verification/Skip_List.thy ===== *)
theory Skip_List
  imports Arena "HOL-Library.Multiset"
begin

text \<open>
  \<open>include/lsm/skiplist.h\<close>: the insert-only skip list under the memtable. Nodes
  live in a store, a list indexed by their address; address 0 is the head. The
  comparator is a parameter, as in the class template. The generator \<open>rnd_\<close> is the
  sequence of its future outputs: every lemma holds for every such sequence, so in
  particular for the one of \<open>std::mt19937\<close> seeded with 0xdeadbeef.

  The search loop of FindGreaterOrEqual follows pointers, so it is a partial
  function into \<open>option\<close>: \<open>None\<close> is a loop that does not end. It is proved to end
  in every well-formed list, where the pointers of level \<open>l\<close> thread exactly the
  nodes taller than \<open>l\<close> in key order.
\<close>

section \<open>Definitions\<close>

record node =
  nd_key_length :: u32
  nd_next :: "nat option list"
  nd_bytes :: bytes

definition nd_height :: "node \<Rightarrow> nat" where
  "nd_height n = length (nd_next n)"

definition nd_key :: "node \<Rightarrow> bytes" where
  "nd_key n = take (unat (nd_key_length n)) (nd_bytes n)"

record SkipList =
  sl_arena :: Arena
  sl_nodes :: "node list"
  sl_max_height :: nat
  sl_size :: nat
  sl_rnd :: "nat \<Rightarrow> u32"

definition kMaxHeight :: nat where "kMaxHeight = 12"
definition kBranching :: u32 where "kBranching = 4"

text \<open>\<open>Node::Next\<close>, \<open>Node::SetNext\<close> and the header of the node at an address.\<close>

definition Next :: "SkipList \<Rightarrow> nat \<Rightarrow> nat \<Rightarrow> nat option" where
  "Next sl x level = nd_next (sl_nodes sl ! x) ! level"

definition SetNext :: "SkipList \<Rightarrow> nat \<Rightarrow> nat \<Rightarrow> nat option \<Rightarrow> SkipList" where
  "SetNext sl x level n =
     sl\<lparr>sl_nodes := (sl_nodes sl)[x := (sl_nodes sl ! x)\<lparr>nd_next := (nd_next (sl_nodes sl ! x))[level := n]\<rparr>]\<rparr>"

abbreviation key_of :: "SkipList \<Rightarrow> nat \<Rightarrow> bytes" where
  "key_of sl x \<equiv> nd_key (sl_nodes sl ! x)"

abbreviation height_of :: "SkipList \<Rightarrow> nat \<Rightarrow> nat" where
  "height_of sl x \<equiv> nd_height (sl_nodes sl ! x)"

text \<open>\<open>sizeof(Node)\<close> is 8 (two 32-bit fields), a pointer takes 8 bytes.\<close>

definition KeyOffset :: "nat \<Rightarrow> nat" where
  "KeyOffset h = 8 + 8 * h"

definition NewNode :: "(nat \<Rightarrow> nat) \<Rightarrow> SkipList \<Rightarrow> bytes \<Rightarrow> nat \<Rightarrow> nat \<times> SkipList" where
  "NewNode base sl key height =
     (let bytes = KeyOffset height + length key;
          (mem, arena) = AllocateAligned base (sl_arena sl) bytes
      in (length (sl_nodes sl),
          sl\<lparr>sl_arena := arena,
            sl_nodes := sl_nodes sl @
              [\<lparr>nd_key_length = of_nat (length key), nd_next = replicate height None, nd_bytes = key\<rparr>]\<rparr>))"

definition new_SkipList :: "(nat \<Rightarrow> nat) \<Rightarrow> (nat \<Rightarrow> u32) \<Rightarrow> Arena \<Rightarrow> SkipList" where
  "new_SkipList base rnd arena =
     snd (NewNode base \<lparr>sl_arena = arena, sl_nodes = [], sl_max_height = 1, sl_size = 0, sl_rnd = rnd\<rparr>
       [] kMaxHeight)"

fun RandomHeightLoop :: "nat \<Rightarrow> nat \<Rightarrow> (nat \<Rightarrow> u32) \<Rightarrow> nat \<times> (nat \<Rightarrow> u32)" where
  "RandomHeightLoop 0 height rnd = (height, rnd)"
| "RandomHeightLoop (Suc left) height rnd =
     (if rnd 0 mod kBranching = 0 then RandomHeightLoop left (height + 1) (\<lambda>i. rnd (Suc i))
      else (height, \<lambda>i. rnd (Suc i)))"

text \<open>
  \<open>while (height < kMaxHeight && rnd_() % kBranching == 0) ++height\<close> from 1: the
  first argument of the loop is \<open>kMaxHeight - height\<close>.
\<close>

definition RandomHeight :: "SkipList \<Rightarrow> nat \<times> SkipList" where
  "RandomHeight sl =
     (let (height, rnd) = RandomHeightLoop (kMaxHeight - 1) 1 (sl_rnd sl) in (height, sl\<lparr>sl_rnd := rnd\<rparr>))"

definition KeyIsAfterNode :: "(bytes \<Rightarrow> bytes \<Rightarrow> int) \<Rightarrow> SkipList \<Rightarrow> bytes \<Rightarrow> nat option \<Rightarrow> bool" where
  "KeyIsAfterNode compare sl key n \<longleftrightarrow>
     (case n of None \<Rightarrow> False | Some a \<Rightarrow> compare (key_of sl a) key < 0)"

text \<open>
  \<open>prev\<close> is the array of splice points, with the entries written so far.
\<close>

partial_function (option) FindLoop ::
  "(bytes \<Rightarrow> bytes \<Rightarrow> int) \<Rightarrow> SkipList \<Rightarrow> bytes \<Rightarrow> nat \<Rightarrow> nat \<Rightarrow> (nat \<Rightarrow> nat option) \<Rightarrow>
   (nat option \<times> (nat \<Rightarrow> nat option)) option" where
  "FindLoop compare sl key x level prev =
     (let nxt = Next sl x level in
      if KeyIsAfterNode compare sl key nxt then FindLoop compare sl key (the nxt) level prev
      else let prev = prev(level \<mapsto> x) in
        if level = 0 then Some (nxt, prev)
        else FindLoop compare sl key x (level - 1) prev)"

definition FindGreaterOrEqual ::
  "(bytes \<Rightarrow> bytes \<Rightarrow> int) \<Rightarrow> SkipList \<Rightarrow> bytes \<Rightarrow> (nat option \<times> (nat \<Rightarrow> nat option)) option" where
  "FindGreaterOrEqual compare sl key = FindLoop compare sl key 0 (sl_max_height sl - 1) Map.empty"

text \<open>The linking loop of Insert; reading a splice point that was never set is \<open>None\<close>.\<close>

fun LinkLoop :: "(nat \<Rightarrow> nat option) \<Rightarrow> nat \<Rightarrow> nat list \<Rightarrow> SkipList \<Rightarrow> SkipList option" where
  "LinkLoop prev node [] sl = Some sl"
| "LinkLoop prev node (i # is) sl =
     (case prev i of None \<Rightarrow> None
      | Some p \<Rightarrow>
          let sl = SetNext sl node i (Next sl p i); sl = SetNext sl p i (Some node)
          in LinkLoop prev node is sl)"

definition sl_Insert ::
  "(nat \<Rightarrow> nat) \<Rightarrow> (bytes \<Rightarrow> bytes \<Rightarrow> int) \<Rightarrow> SkipList \<Rightarrow> bytes \<Rightarrow> SkipList option" where
  "sl_Insert base compare sl key =
     (case FindGreaterOrEqual compare sl key of
        None \<Rightarrow> None
      | Some (nxt, prev) \<Rightarrow>
          let (height, sl) = RandomHeight sl;
              cur_max = sl_max_height sl;
              (prev, sl) = (if cur_max < height
                then (\<lambda>i. if cur_max \<le> i \<and> i < height then Some 0 else prev i, sl\<lparr>sl_max_height := height\<rparr>)
                else (prev, sl));
              (node, sl) = NewNode base sl key height
          in map_option (\<lambda>sl. sl\<lparr>sl_size := sl_size sl + 1\<rparr>) (LinkLoop prev node [0..<height] sl))"

definition Contains :: "(bytes \<Rightarrow> bytes \<Rightarrow> int) \<Rightarrow> SkipList \<Rightarrow> bytes \<Rightarrow> bool option" where
  "Contains compare sl key =
     map_option (\<lambda>(x, _). case x of None \<Rightarrow> False | Some a \<Rightarrow> compare (key_of sl a) key = 0)
       (FindGreaterOrEqual compare sl key)"

text \<open>The list's iterator is the address it stands on.\<close>

definition sli_Next :: "SkipList \<Rightarrow> nat \<Rightarrow> nat option" where
  "sli_Next sl x = Next sl x 0"

definition sli_Seek :: "(bytes \<Rightarrow> bytes \<Rightarrow> int) \<Rightarrow> SkipList \<Rightarrow> bytes \<Rightarrow> nat option option" where
  "sli_Seek compare sl target = map_option fst (FindGreaterOrEqual compare sl target)"

definition sli_SeekToFirst :: "SkipList \<Rightarrow> nat option" where
  "sli_SeekToFirst sl = Next sl 0 0"

section \<open>Well-formed lists\<close>

text \<open>
  \<open>sl_wf f sl xs\<close>: the addresses \<open>xs\<close>, in this order, are the nodes of the list,
  ascending under the key function \<open>f\<close>; the pointer of a node at level \<open>l\<close> is the
  next taller node behind it.
\<close>

definition threaded :: "(nat \<Rightarrow> nat \<Rightarrow> nat option) \<Rightarrow> (nat \<Rightarrow> nat) \<Rightarrow> nat list \<Rightarrow> bool" where
  "threaded N H ns \<longleftrightarrow> (\<forall>p < length ns. \<forall>l < H (ns ! p).
     N (ns ! p) l = find (\<lambda>a. l < H a) (drop (Suc p) ns))"

abbreviation threads :: "SkipList \<Rightarrow> nat list \<Rightarrow> bool" where
  "threads sl \<equiv> threaded (Next sl) (height_of sl)"

definition heights_ok :: "SkipList \<Rightarrow> nat list \<Rightarrow> bool" where
  "heights_ok sl xs \<longleftrightarrow> height_of sl 0 = kMaxHeight \<and> 1 \<le> sl_max_height sl \<and> sl_max_height sl \<le> kMaxHeight \<and>
     (\<forall>a \<in> set xs. 1 \<le> height_of sl a \<and> height_of sl a \<le> sl_max_height sl)"

definition sl_wf :: "(bytes \<Rightarrow> 'k::linorder) \<Rightarrow> SkipList \<Rightarrow> nat list \<Rightarrow> bool" where
  "sl_wf f sl xs \<longleftrightarrow> distinct (0 # xs) \<and> set (0 # xs) = {..<length (sl_nodes sl)} \<and>
     heights_ok sl xs \<and> threads sl (0 # xs) \<and>
     sorted_wrt (\<lambda>a b. f (key_of sl a) < f (key_of sl b)) xs \<and> sl_size sl = length xs"

lemma nd_height_update [simp]: "nd_height (n\<lparr>nd_next := (nd_next n)[l := v]\<rparr>) = nd_height n"
  by (simp add: nd_height_def)

lemma nd_key_update [simp]: "nd_key (n\<lparr>nd_next := v\<rparr>) = nd_key n"
  by (simp add: nd_key_def)

lemma SetNext_frame [simp]:
  "length (sl_nodes (SetNext sl x l v)) = length (sl_nodes sl)"
  "sl_max_height (SetNext sl x l v) = sl_max_height sl" "sl_size (SetNext sl x l v) = sl_size sl"
  by (simp_all add: SetNext_def)

lemma SetNext_node:
  "sl_nodes (SetNext sl x l v) ! a =
     (if a = x \<and> x < length (sl_nodes sl) then (sl_nodes sl ! x)\<lparr>nd_next := (nd_next (sl_nodes sl ! x))[l := v]\<rparr>
      else sl_nodes sl ! a)"
  by (cases "x < length (sl_nodes sl)") (auto simp: SetNext_def list_update_beyond)

lemma SetNext_header [simp]:
  "height_of (SetNext sl x l v) a = height_of sl a" "key_of (SetNext sl x l v) a = key_of sl a"
  by (simp_all add: SetNext_node)

lemma Next_size [simp]: "Next (sl\<lparr>sl_size := m\<rparr>) a l = Next sl a l"
  by (simp add: Next_def)

lemma Next_SetNext:
  "x < length (sl_nodes sl) \<Longrightarrow> l < height_of sl x \<Longrightarrow>
     Next (SetNext sl x l v) a m = (if a = x \<and> m = l then v else Next sl a m)"
  by (auto simp: Next_def SetNext_node nd_height_def)

text \<open>
  Linking a new node: at each level below its height it takes over the pointer of
  the splice point, which from then on points to it.
\<close>

lemma LinkLoop_spec:
  assumes "distinct is" "n < length (sl_nodes sl)"
    and "\<And>i. i \<in> set is \<Longrightarrow> i < height_of sl n \<and>
      (\<exists>p. prev i = Some p \<and> p < length (sl_nodes sl) \<and> i < height_of sl p \<and> p \<noteq> n)"
  shows "\<exists>sl'. LinkLoop prev n is sl = Some sl' \<and>
    (\<forall>a l. Next sl' a l = (if l \<in> set is \<and> a = n then Next sl (the (prev l)) l
       else if l \<in> set is \<and> prev l = Some a then Some n else Next sl a l)) \<and>
    length (sl_nodes sl') = length (sl_nodes sl) \<and> (\<forall>a. height_of sl' a = height_of sl a) \<and>
    (\<forall>a. key_of sl' a = key_of sl a) \<and> sl_max_height sl' = sl_max_height sl \<and> sl_size sl' = sl_size sl"
  using assms
proof (induction "is" arbitrary: sl)
  case Nil
  then show ?case by simp
next
  case (Cons i "is")
  obtain p where p: "prev i = Some p" "p < length (sl_nodes sl)" "i < height_of sl p" "p \<noteq> n"
    and i: "i < height_of sl n" using Cons.prems(3) [of i] by auto
  define s1 where "s1 = SetNext sl n i (Next sl p i)"
  define s2 where "s2 = SetNext s1 p i (Some n)"
  have nx: "Next s2 a l = (if l = i \<and> a = n then Next sl p i else if l = i \<and> a = p then Some n else Next sl a l)" for a l
    using p i Cons.prems(2) by (auto simp: s1_def s2_def Next_SetNext)
  have "distinct is" "n < length (sl_nodes s2)" using Cons.prems by (simp_all add: s1_def s2_def)
  moreover have "j < height_of s2 n \<and>
      (\<exists>p. prev j = Some p \<and> p < length (sl_nodes s2) \<and> j < height_of s2 p \<and> p \<noteq> n)" if "j \<in> set is" for j
    using Cons.prems(3) [of j] that by (simp add: s1_def s2_def)
  ultimately obtain sl' where sl': "LinkLoop prev n is s2 = Some sl'"
    "\<And>a l. Next sl' a l = (if l \<in> set is \<and> a = n then Next s2 (the (prev l)) l
       else if l \<in> set is \<and> prev l = Some a then Some n else Next s2 a l)"
    "length (sl_nodes sl') = length (sl_nodes s2)" "\<And>a. height_of sl' a = height_of s2 a"
    "\<And>a. key_of sl' a = key_of s2 a" "sl_max_height sl' = sl_max_height s2" "sl_size sl' = sl_size s2"
    using Cons.IH [of s2] by blast
  have ni: "i \<notin> set is" using Cons.prems(1) by simp
  have "Next sl' a l = (if l \<in> set (i # is) \<and> a = n then Next sl (the (prev l)) l
       else if l \<in> set (i # is) \<and> prev l = Some a then Some n else Next sl a l)" for a l
    using sl'(2) [of a l] nx [of _ l] p ni by (cases "l = i") auto
  moreover have "LinkLoop prev n (i # is) sl = Some sl'"
    using p(1) sl'(1) by (simp add: s1_def s2_def Let_def)
  ultimately show ?case using sl'(3-) by (auto simp: s1_def s2_def)
qed

lemma RandomHeightLoop_range:
  "RandomHeightLoop k h rnd = (h', rnd') \<Longrightarrow> h \<le> h' \<and> h' \<le> h + k"
proof (induction k arbitrary: h rnd)
  case (Suc k)
  show ?case
  proof (cases "rnd 0 mod kBranching = 0")
    case True
    then have "RandomHeightLoop k (h + 1) (\<lambda>i. rnd (Suc i)) = (h', rnd')" using Suc.prems by simp
    from Suc.IH [OF this] show ?thesis by simp
  qed (use Suc.prems in auto)
qed simp

lemma RandomHeight_range: "RandomHeight sl = (h, sl') \<Longrightarrow> 1 \<le> h \<and> h \<le> kMaxHeight"
  using RandomHeightLoop_range [of "kMaxHeight - 1" 1 "sl_rnd sl"]
  by (auto simp: RandomHeight_def kMaxHeight_def split: prod.splits)

lemma sl_wf_new: "sl_wf f (new_SkipList base rnd arena) []"
  by (auto simp: sl_wf_def new_SkipList_def NewNode_def Let_def heights_ok_def threaded_def Next_def
      nd_height_def kMaxHeight_def split: prod.splits)

lemma sl_wf_size: "sl_wf f sl xs \<Longrightarrow> sl_size sl = length xs"
  by (simp add: sl_wf_def)

text \<open>The splice point at a level: the last node not behind position \<open>k\<close> that is taller.\<close>

definition last_tall :: "(nat \<Rightarrow> nat) \<Rightarrow> nat list \<Rightarrow> nat \<Rightarrow> nat \<Rightarrow> nat \<Rightarrow> bool" where
  "last_tall H ns k l q \<longleftrightarrow> q \<le> k \<and> k < length ns \<and> l < H (ns ! q) \<and>
     (\<forall>j. q < j \<and> j \<le> k \<longrightarrow> \<not> l < H (ns ! j))"

lemma last_tall_unique: "last_tall H ns k l q \<Longrightarrow> last_tall H ns k l q' \<Longrightarrow> q = q'"
  unfolding last_tall_def by (metis linorder_neqE_nat)

lemma find_drop:
  "find P (drop i xs) = Some a \<Longrightarrow> \<exists>j. i \<le> j \<and> j < length xs \<and> a = xs ! j \<and> P a \<and>
     (\<forall>k. i \<le> k \<and> k < j \<longrightarrow> \<not> P (xs ! k))"
  "find P (drop i xs) = None \<Longrightarrow> i \<le> k \<Longrightarrow> k < length xs \<Longrightarrow> \<not> P (xs ! k)"
proof -
  assume "find P (drop i xs) = Some a"
  then obtain m where m: "m < length (drop i xs)" "P (drop i xs ! m)" "a = drop i xs ! m"
    "\<forall>n < m. \<not> P (drop i xs ! n)"
    by (auto simp: find_Some_iff)
  have "\<not> P (xs ! k)" if "i \<le> k" "k < i + m" for k
    using m(4)[rule_format, of "k - i"] m(1) that by simp
  with m show "\<exists>j. i \<le> j \<and> j < length xs \<and> a = xs ! j \<and> P a \<and> (\<forall>k. i \<le> k \<and> k < j \<longrightarrow> \<not> P (xs ! k))"
    by (intro exI [of _ "i + m"]) auto
next
  assume "find P (drop i xs) = None" "i \<le> k" "k < length xs"
  moreover from this have "xs ! k \<in> set (drop i xs)" using nth_mem [of "k - i" "drop i xs"] by simp
  ultimately show "\<not> P (xs ! k)" by (simp add: find_None_iff)
qed

lemma find_append: "find P (xs @ ys) = (case find P xs of None \<Rightarrow> find P ys | Some a \<Rightarrow> Some a)"
  by (induction xs) auto

lemma find_skip:
  "i \<le> k \<Longrightarrow> (\<And>j. i \<le> j \<Longrightarrow> j < k \<Longrightarrow> \<not> P (xs ! j)) \<Longrightarrow> find P (drop i xs) = find P (drop k xs)"
proof (induction "k - i" arbitrary: i)
  case (Suc n)
  then have "i < k" by simp
  show ?case
  proof (cases "i < length xs")
    case True
    have "find P (drop i xs) = find P (drop (Suc i) xs)"
      using Suc.prems(2) [of i] \<open>i < k\<close> by (simp add: Cons_nth_drop_Suc [OF True, symmetric])
    also have "\<dots> = find P (drop k xs)" using Suc \<open>i < k\<close> by (intro Suc.hyps(1)) auto
    finally show ?thesis .
  qed (use Suc.prems in simp)
qed simp

lemma threaded_cong:
  assumes "threaded N H ns" "\<And>a. a \<in> set ns \<Longrightarrow> H' a = H a"
    "\<And>a l. a \<in> set ns \<Longrightarrow> l < H a \<Longrightarrow> N' a l = N a l"
  shows "threaded N' H' ns"
  unfolding threaded_def
proof (intro allI impI)
  fix p l assume p: "p < length ns" "l < H' (ns ! p)"
  have "find (\<lambda>a. l < H' a) (drop (Suc p) ns) = find (\<lambda>a. l < H a) (drop (Suc p) ns)"
    using assms(2) by (intro find_cong) (auto dest: in_set_dropD)
  then show "N' (ns ! p) l = find (\<lambda>a. l < H' a) (drop (Suc p) ns)"
    using assms p by (simp add: threaded_def)
qed

lemma last_tall_cong:
  "last_tall H ns k l q \<Longrightarrow> (\<And>a. a \<in> set ns \<Longrightarrow> H' a = H a) \<Longrightarrow> last_tall H' ns k l q"
  by (auto simp: last_tall_def)

text \<open>Splicing a new node behind position \<open>k\<close> keeps the threading.\<close>

lemma threaded_insert:
  assumes thr: "threaded N H ns" and d: "distinct ns" "n \<notin> set ns" and k: "k < length ns"
    and q: "\<And>l. l < H n \<Longrightarrow> last_tall H ns k l (q l)"
    and N': "\<And>a l. N' a l = (if l < H n \<and> a = n then N (ns ! q l) l
      else if l < H n \<and> a = ns ! q l then Some n else N a l)"
  shows "threaded N' H (take (Suc k) ns @ n # drop (Suc k) ns)" (is "threaded N' H ?ns'")
  unfolding threaded_def
proof (intro allI impI)
  fix p l
  assume p: "p < length ?ns'" and l: "l < H (?ns' ! p)"
  let ?P = "\<lambda>a. l < H a"
  have qk: "l < H n \<Longrightarrow> q l \<le> k" using q by (auto simp: last_tall_def)
  consider "p \<le> k" | "p = Suc k" | "Suc k < p" by linarith
  then show "N' (?ns' ! p) l = find ?P (drop (Suc p) ?ns')"
  proof cases
    case 1
    then have np: "?ns' ! p = ns ! p" using k by (simp add: nth_append)
    have new: "drop (Suc p) ?ns' = drop (Suc p) (take (Suc k) ns) @ n # drop (Suc k) ns" using 1 k by simp
    have old: "drop (Suc p) ns = drop (Suc p) (take (Suc k) ns) @ drop (Suc k) ns"
      using 1 k by (metis append_take_drop_id drop_append diff_is_0_eq drop0 length_take min.absorb2 Suc_leI Suc_le_mono)
    have Np: "N (ns ! p) l = find ?P (drop (Suc p) ns)" using thr 1 k l np by (simp add: threaded_def)
    have neq: "ns ! p \<noteq> n" using d(2) 1 k by auto
    show ?thesis
    proof (cases "find ?P (drop (Suc p) (take (Suc k) ns))")
      case (Some b)
      then obtain j where j: "Suc p \<le> j" "j \<le> k" "l < H (ns ! j)"
        using find_drop(1) [OF Some] k by (auto simp: less_Suc_eq_le)
      have "\<not> (l < H n \<and> ns ! p = ns ! q l)"
      proof
        assume a: "l < H n \<and> ns ! p = ns ! q l"
        then have "q l = p" using d(1) 1 k qk by (simp add: nth_eq_iff_index_eq)
        with a q [of l] j show False by (auto simp: last_tall_def)
      qed
      with Some Np neq show ?thesis unfolding np new old N' by (auto simp: find_append)
    next
      case None
      have "last_tall H ns k l p"
        using 1 k l np find_drop(2) [OF None] by (auto simp: last_tall_def)
      then have "l < H n \<Longrightarrow> q l = p" using q last_tall_unique by blast
      with None Np neq show ?thesis unfolding np new old N' by (auto simp: find_append)
    qed
  next
    case 2
    have np: "?ns' ! p = n" using 2 k by (simp add: nth_append)
    then have lt: "l < H n" using l by simp
    have "N (ns ! q l) l = find ?P (drop (Suc (q l)) ns)"
      using thr q [OF lt] by (auto simp: threaded_def last_tall_def)
    also have "\<dots> = find ?P (drop (Suc k) ns)"
      using q [OF lt] by (intro find_skip) (auto simp: last_tall_def)
    finally show ?thesis using 2 k lt unfolding np N' by simp
  next
    case 3
    then obtain m where m: "p = Suc m" "k < m" "m < length ns" using p k by (cases p) auto
    have np: "?ns' ! p = ns ! m" using m k by (simp add: nth_append min_def)
    have "ns ! m \<noteq> n" using d(2) m by auto
    moreover have "l < H n \<Longrightarrow> ns ! m \<noteq> ns ! q l" using d(1) m k qk by (auto simp: nth_eq_iff_index_eq)
    moreover have "N (ns ! m) l = find ?P (drop (Suc m) ns)" using thr m l np by (simp add: threaded_def)
    moreover have "drop (Suc p) ?ns' = drop (Suc m) ns" using m k by (simp add: Suc_diff_le)
    ultimately show ?thesis unfolding np N' by auto
  qed
qed

section \<open>Search and insertion\<close>

text \<open>
  What the list relies on of its comparator: it orders keys as a key function into
  a linear order does.
\<close>

locale comparator =
  fixes compare :: "bytes \<Rightarrow> bytes \<Rightarrow> int" and f :: "bytes \<Rightarrow> 'k::linorder"
  assumes compare_less: "compare a b < 0 \<longleftrightarrow> f a < f b"
    and compare_zero: "compare a b = 0 \<longleftrightarrow> f a = f b"
begin

definition rank :: "SkipList \<Rightarrow> nat list \<Rightarrow> bytes \<Rightarrow> nat" where
  "rank sl xs key = length (takeWhile (\<lambda>a. f (key_of sl a) < f key) xs)"

lemma rank_le: "rank sl xs key \<le> length xs"
  by (simp add: rank_def length_takeWhile_le)

lemma below_rank:
  assumes "sl_wf f sl xs" "i < length xs"
  shows "f (key_of sl (xs ! i)) < f key \<longleftrightarrow> i < rank sl xs key"
proof
  assume "i < rank sl xs key"
  then show "f (key_of sl (xs ! i)) < f key"
    unfolding rank_def by (metis nth_mem set_takeWhileD takeWhile_nth)
next
  let ?P = "\<lambda>a. f (key_of sl a) < f key"
  assume i: "?P (xs ! i)"
  show "i < rank sl xs key"
  proof (rule ccontr)
    assume "\<not> i < rank sl xs key"
    then have le: "rank sl xs key \<le> i" by simp
    then have "\<not> ?P (xs ! rank sl xs key)"
      unfolding rank_def using assms(2) by (intro nth_length_takeWhile) simp
    moreover have "f (key_of sl (xs ! rank sl xs key)) \<le> f (key_of sl (xs ! i))"
      using assms le by (cases "rank sl xs key = i")
        (auto simp: sl_wf_def sorted_wrt_iff_nth_less intro: less_imp_le)
    ultimately show False using i by simp
  qed
qed

lemma wf_sorted: "sl_wf f sl xs \<Longrightarrow> i < j \<Longrightarrow> j < length xs \<Longrightarrow> f (key_of sl (xs ! i)) < f (key_of sl (xs ! j))"
  by (simp add: sl_wf_def sorted_wrt_iff_nth_less)

lemma KeyIsAfterNode_pos:
  assumes "sl_wf f sl xs" "0 < j" "j < length (0 # xs)"
  shows "KeyIsAfterNode compare sl key (Some ((0 # xs) ! j)) \<longleftrightarrow> j \<le> rank sl xs key"
  using below_rank [OF assms(1), of "j - 1" key] assms(2,3)
  by (cases j) (auto simp: KeyIsAfterNode_def compare_less)

lemma FindLoop_spec:
  fixes key :: bytes and xs :: "nat list"
  defines "ns \<equiv> 0 # xs"
  assumes wf: "sl_wf f sl xs" and "p \<le> rank sl xs key" "level < height_of sl (ns ! p)"
  shows "\<exists>prev'. FindLoop compare sl key (ns ! p) level prev =
      Some (if rank sl xs key < length xs then Some (xs ! rank sl xs key) else None, prev') \<and>
    (\<forall>l \<le> level. \<exists>q. prev' l = Some (ns ! q) \<and> last_tall (height_of sl) ns (rank sl xs key) l q) \<and>
    (\<forall>l > level. prev' l = prev l)"
  using assms(3,4)
proof (induction "level * Suc (rank sl xs key) + (rank sl xs key - p)" arbitrary: level p prev rule: less_induct)
  case less
  let ?k = "rank sl xs key"
  define nxt where "nxt = Next sl (ns ! p) level"
  have k: "?k < length ns" using rank_le [of sl xs key] by (simp add: ns_def le_imp_less_Suc)
  have nxt: "nxt = find (\<lambda>a. level < height_of sl a) (drop (Suc p) ns)"
    using wf less.prems k by (auto simp: nxt_def sl_wf_def threaded_def ns_def)
  show ?case
  proof (cases "KeyIsAfterNode compare sl key nxt")
    case True
    then obtain a where a: "nxt = Some a" by (auto simp: KeyIsAfterNode_def split: option.splits)
    with nxt find_drop(1) [of _ "Suc p" ns a] obtain j where
      j: "Suc p \<le> j" "j < length ns" "a = ns ! j" "level < height_of sl a" by auto
    then have "j \<le> ?k" using KeyIsAfterNode_pos [OF wf, of j key] True a by (auto simp: ns_def)
    moreover have "FindLoop compare sl key (ns ! p) level prev = FindLoop compare sl key (ns ! j) level prev"
      using True a j(3) by (simp add: FindLoop.simps [of compare sl key "ns ! p"] nxt_def [symmetric] Let_def)
    ultimately show ?thesis using less.hyps [of level j prev] j less.prems by auto
  next
    case False
    have short: "\<not> level < height_of sl (ns ! j)" if "p < j" "j \<le> ?k" for j
    proof (cases nxt)
      case None
      then show ?thesis using nxt find_drop(2) [of _ "Suc p" ns j] that k by auto
    next
      case (Some a)
      with nxt find_drop(1) [of _ "Suc p" ns a] obtain i where
        i: "Suc p \<le> i" "i < length ns" "a = ns ! i"
          "\<forall>j. Suc p \<le> j \<and> j < i \<longrightarrow> \<not> level < height_of sl (ns ! j)" by auto
      then have "\<not> i \<le> ?k" using KeyIsAfterNode_pos [OF wf, of i key] False Some by (auto simp: ns_def)
      then show ?thesis using i(4) that by simp
    qed
    have tall: "last_tall (height_of sl) ns ?k level p" using less.prems short k by (simp add: last_tall_def)
    show ?thesis
    proof (cases level)
      case 0
      have "p = ?k"
      proof (rule ccontr)
        assume "p \<noteq> ?k"
        then have "height_of sl (ns ! ?k) = 0" using short [of ?k] less.prems 0 by auto
        moreover have "ns ! ?k \<in> set xs" using \<open>p \<noteq> ?k\<close> less.prems k by (cases ?k) (auto simp: ns_def)
        ultimately show False using wf by (auto simp: sl_wf_def heights_ok_def)
      qed
      have "find (\<lambda>a. 0 < height_of sl a) (drop ?k xs) = (if ?k < length xs then Some (xs ! ?k) else None)"
      proof (cases "?k < length xs")
        case True
        then have "0 < height_of sl (xs ! ?k)"
          using wf nth_mem by (fastforce simp: sl_wf_def heights_ok_def Suc_le_eq)
        with True show ?thesis by (simp add: Cons_nth_drop_Suc [symmetric])
      qed simp
      then have "nxt = (if ?k < length xs then Some (xs ! ?k) else None)"
        using nxt \<open>p = ?k\<close> 0 by (simp add: ns_def)
      moreover have "FindLoop compare sl key (ns ! p) level prev = Some (nxt, prev(level \<mapsto> ns ! p))"
        unfolding FindLoop.simps [of compare sl key "ns ! p" level prev] Let_def nxt_def [symmetric]
        using False 0 by simp
      ultimately show ?thesis using tall 0 by auto
    next
      case (Suc m)
      have "m < height_of sl (ns ! p)" using less.prems Suc by simp
      have step: "FindLoop compare sl key (ns ! p) level prev = FindLoop compare sl key (ns ! p) m (prev(level \<mapsto> ns ! p))"
        unfolding FindLoop.simps [of compare sl key "ns ! p" level prev] Let_def nxt_def [symmetric]
        using False Suc by simp
      obtain prev' where "FindLoop compare sl key (ns ! p) m (prev(level \<mapsto> ns ! p)) =
          Some (if ?k < length xs then Some (xs ! ?k) else None, prev')"
        "\<forall>l \<le> m. \<exists>q. prev' l = Some (ns ! q) \<and> last_tall (height_of sl) ns ?k l q"
        "\<forall>l > m. prev' l = (prev(level \<mapsto> ns ! p)) l"
        using less.hyps [OF _ less.prems(1) \<open>m < _\<close>, of "prev(level \<mapsto> ns ! p)"] Suc by auto
      with step tall Suc show ?thesis by (auto simp: le_Suc_eq)
    qed
  qed
qed

lemma FindGreaterOrEqual_spec:
  assumes wf: "sl_wf f sl xs"
  shows "\<exists>prev. FindGreaterOrEqual compare sl key =
      Some (if rank sl xs key < length xs then Some (xs ! rank sl xs key) else None, prev) \<and>
    (\<forall>l < sl_max_height sl. \<exists>q. prev l = Some ((0 # xs) ! q) \<and>
      last_tall (height_of sl) (0 # xs) (rank sl xs key) l q)"
proof -
  have "sl_max_height sl - 1 < height_of sl ((0 # xs) ! 0)" "1 \<le> sl_max_height sl"
    using wf by (auto simp: sl_wf_def heights_ok_def kMaxHeight_def)
  then show ?thesis
    using FindLoop_spec [OF wf, of 0 key "sl_max_height sl - 1" Map.empty]
    by (auto simp: FindGreaterOrEqual_def less_Suc_eq_le [symmetric])
qed

lemma sorted_insert:
  assumes wf: "sl_wf f sl xs" and new: "\<forall>a \<in> set xs. f (key_of sl a) \<noteq> f key"
    and keys: "\<And>a. a \<in> set xs \<Longrightarrow> K a = key_of sl a" and n: "K n = key"
  shows "sorted_wrt (\<lambda>a b. f (K a) < f (K b)) (take (rank sl xs key) xs @ n # drop (rank sl xs key) xs)"
proof -
  let ?k = "rank sl xs key"
  have srt: "sorted_wrt (\<lambda>a b. f (K a) < f (K b)) xs"
    using wf keys by (auto simp: sl_wf_def sorted_wrt_iff_nth_less)
  have lo: "f (K a) < f key" if "a \<in> set (take ?k xs)" for a
  proof -
    obtain i where "i < ?k" "i < length xs" "a = xs ! i" using \<open>a \<in> _\<close> by (auto simp: in_set_conv_nth)
    then show ?thesis using below_rank [OF wf, of i key] keys by simp
  qed
  have hi: "f key < f (K a)" if "a \<in> set (drop ?k xs)" for a
  proof -
    obtain i where i: "?k \<le> i" "i < length xs" "a = xs ! i"
      using \<open>a \<in> _\<close> rank_le [of sl xs key] by (auto simp: in_set_conv_nth) (metis le_add1 less_diff_conv add.commute)
    then have "\<not> f (key_of sl a) < f key" using below_rank [OF wf, of i key] by simp
    moreover have "a \<in> set xs" using i by simp
    ultimately show ?thesis using new keys by (metis linorder_neqE)
  qed
  show ?thesis
    using srt sorted_wrt_take [OF srt] sorted_wrt_drop [OF srt] lo hi n
    by (force simp: sorted_wrt_append intro: less_trans)
qed

lemma sl_wf_bound: "sl_wf f sl xs \<Longrightarrow> a \<in> set (0 # xs) \<Longrightarrow> a < length (sl_nodes sl)"
  by (simp add: sl_wf_def)

text \<open>A new node linked in at the splice points of its key keeps the list well-formed.\<close>

lemma splice_wf:
  fixes sl s3 :: SkipList and xs :: "nat list" and key :: bytes
  defines "n \<equiv> length (sl_nodes sl)" and "k \<equiv> rank sl xs key" and "ns \<equiv> 0 # xs"
  assumes wf: "sl_wf f sl xs" and new: "\<forall>a \<in> set xs. f (key_of sl a) \<noteq> f key"
    and len: "length (sl_nodes s3) = Suc n" "sl_size s3 = Suc (sl_size sl)"
    and h: "height_of s3 n = h" "1 \<le> h" "h \<le> kMaxHeight" "sl_max_height s3 = max (sl_max_height sl) h"
    and old: "\<And>a. a \<in> set ns \<Longrightarrow> height_of s3 a = height_of sl a" "\<And>a. a \<in> set ns \<Longrightarrow> key_of s3 a = key_of sl a"
    and key: "key_of s3 n = key"
    and q: "\<And>l. l < h \<Longrightarrow> last_tall (height_of sl) ns k l (q l)"
    and nx: "\<And>a l. a \<in> set ns \<or> a = n \<Longrightarrow> l < height_of s3 a \<Longrightarrow> Next s3 a l =
      (if l < h \<and> a = n then Next sl (ns ! q l) l
       else if l < h \<and> a = ns ! q l then Some n else Next sl a l)"
  shows "sl_wf f s3 (take k xs @ n # drop k xs)"
proof -
  have nn: "n \<notin> set ns" using sl_wf_bound [OF wf] by (auto simp: n_def ns_def)
  have kn: "k < length ns" using rank_le [of sl xs key] by (simp add: k_def ns_def le_imp_less_Suc)
  have d: "distinct ns" using wf by (simp add: sl_wf_def ns_def)
  have ns': "take (Suc k) ns @ n # drop (Suc k) ns = 0 # take k xs @ n # drop k xs" by (simp add: ns_def)
  have st: "set (take k xs @ n # drop k xs) = insert n (set xs)"
    by (metis Un_insert_right append_take_drop_id list.simps(15) set_append)
  have st0: "set (0 # take k xs @ n # drop k xs) = insert n (set ns)" using st by (auto simp: ns_def)
  have "mset (0 # take k xs @ n # drop k xs) = mset (n # ns)"
    by (simp add: ns_def) (metis append_take_drop_id mset_append)
  then have dist: "distinct (0 # take k xs @ n # drop k xs)"
    using d nn by (metis distinct.simps(2) mset_eq_imp_distinct_iff)
  define H where "H = height_of s3"
  have "threaded (\<lambda>a l. if l < H n \<and> a = n then Next sl (ns ! q l) l
      else if l < H n \<and> a = ns ! q l then Some n else Next sl a l) H (take (Suc k) ns @ n # drop (Suc k) ns)"
  proof (rule threaded_insert [OF _ d nn kn _ refl])
    show "threaded (Next sl) H ns"
      by (rule threaded_cong [of "Next sl" "height_of sl"])
        (use wf old in \<open>auto simp: H_def sl_wf_def ns_def\<close>)
    show "last_tall H ns k l (q l)" if "l < H n" for l
      by (rule last_tall_cong [of "height_of sl"]) (use q that h old in \<open>auto simp: H_def\<close>)
  qed
  then have thr: "threads s3 (0 # take k xs @ n # drop k xs)"
    unfolding ns' H_def
  proof (rule threaded_cong)
    fix a l assume "a \<in> set (0 # take k xs @ n # drop k xs)" "l < height_of s3 a"
    then show "Next s3 a l = (if l < height_of s3 n \<and> a = n then Next sl (ns ! q l) l
      else if l < height_of s3 n \<and> a = ns ! q l then Some n else Next sl a l)"
      using nx [of a l] h(1) unfolding st0 by auto
  qed simp
  have hts: "heights_ok s3 (take k xs @ n # drop k xs)"
  proof -
    have "heights_ok sl xs" using wf by (simp add: sl_wf_def)
    moreover have "height_of s3 0 = height_of sl 0" "\<And>a. a \<in> set xs \<Longrightarrow> height_of s3 a = height_of sl a"
      using old(1) by (simp_all add: ns_def)
    ultimately show ?thesis unfolding heights_ok_def st using h by (auto simp: le_max_iff_disj)
  qed
  have "set (0 # take k xs @ n # drop k xs) = {..<length (sl_nodes s3)}"
    using wf len(1) unfolding st0 by (simp add: sl_wf_def ns_def n_def lessThan_Suc)
  moreover have "sorted_wrt (\<lambda>a b. f (key_of s3 a) < f (key_of s3 b)) (take k xs @ n # drop k xs)"
    unfolding k_def by (rule sorted_insert [OF wf new]) (use old(2) key in \<open>auto simp: ns_def\<close>)
  moreover have "sl_size s3 = length (take k xs @ n # drop k xs)"
    using wf len(2) kn by (simp add: sl_wf_def ns_def)
  ultimately show ?thesis using dist thr hts by (simp add: sl_wf_def)
qed

text \<open>The splice points Insert works with, above the old maximal height too.\<close>

lemma splice_points:
  assumes wf: "sl_wf f sl xs" and "h \<le> kMaxHeight"
    and prev: "\<And>l. l < sl_max_height sl \<Longrightarrow> \<exists>q. prev l = Some ((0 # xs) ! q) \<and>
      last_tall (height_of sl) (0 # xs) (rank sl xs key) l q"
  shows "\<exists>q. \<forall>l < h. (if sl_max_height sl \<le> l then Some 0 else prev l) = Some ((0 # xs) ! q l) \<and>
    last_tall (height_of sl) (0 # xs) (rank sl xs key) l (q l)"
proof -
  let ?ns = "0 # xs" and ?k = "rank sl xs key"
  have k: "?k < length ?ns" using rank_le [of sl xs key] by (simp add: le_imp_less_Suc)
  have "\<exists>q. (if sl_max_height sl \<le> l then Some 0 else prev l) = Some (?ns ! q) \<and>
      last_tall (height_of sl) ?ns ?k l q" if "l < h" for l
  proof (cases "sl_max_height sl \<le> l")
    case True
    have "\<not> l < height_of sl (?ns ! j)" if "0 < j" "j \<le> ?k" for j
    proof -
      have "?ns ! j \<in> set xs" using that k by (cases j) auto
      then have "height_of sl (?ns ! j) \<le> sl_max_height sl" using wf by (simp add: sl_wf_def heights_ok_def)
      with True show ?thesis by simp
    qed
    then have "last_tall (height_of sl) ?ns ?k l 0"
      using wf k assms(2) \<open>l < h\<close> by (simp add: last_tall_def sl_wf_def heights_ok_def)
    then show ?thesis using True by (intro exI [of _ 0]) simp
  qed (use prev in simp)
  then show ?thesis by metis
qed

lemma sl_Insert_wf:
  assumes wf: "sl_wf f sl xs" and new: "\<forall>a \<in> set xs. f (key_of sl a) \<noteq> f key" and len: "length key < 2 ^ 32"
  defines "n \<equiv> length (sl_nodes sl)" and "k \<equiv> rank sl xs key"
  shows "\<exists>sl'. sl_Insert base compare sl key = Some sl' \<and> sl_wf f sl' (take k xs @ n # drop k xs) \<and>
    key_of sl' n = key \<and> (\<forall>a \<in> set xs. key_of sl' a = key_of sl a)"
proof -
  let ?ns = "0 # xs" and ?cm = "sl_max_height sl"
  obtain nxt prev where find: "FindGreaterOrEqual compare sl key = Some (nxt, prev)"
    and prev: "\<And>l. l < ?cm \<Longrightarrow> \<exists>q. prev l = Some (?ns ! q) \<and> last_tall (height_of sl) ?ns k l q"
    using FindGreaterOrEqual_spec [OF wf, of key] unfolding k_def by blast
  obtain h rs where rh: "RandomHeight sl = (h, sl\<lparr>sl_rnd := rs\<rparr>)"
    by (cases "RandomHeightLoop (kMaxHeight - 1) 1 (sl_rnd sl)") (auto simp: RandomHeight_def)
  have h: "1 \<le> h" "h \<le> kMaxHeight" using RandomHeight_range [OF rh] by auto
  define prev2 where "prev2 = (if ?cm < h then (\<lambda>i. if ?cm \<le> i \<and> i < h then Some 0 else prev i) else prev)"
  obtain q where q: "\<And>l. l < h \<Longrightarrow> prev2 l = Some (?ns ! q l)" "\<And>l. l < h \<Longrightarrow> last_tall (height_of sl) ?ns k l (q l)"
  proof -
    have "prev2 l = (if ?cm \<le> l then Some 0 else prev l)" if "l < h" for l using that by (auto simp: prev2_def)
    then show ?thesis using splice_points [OF wf h(2) prev [unfolded k_def]] that unfolding k_def by auto
  qed
  obtain ar where ar: "snd (AllocateAligned base (sl_arena sl) (KeyOffset h + length key)) = ar" by simp
  define s2 where "s2 = sl\<lparr>sl_rnd := rs, sl_max_height := max ?cm h, sl_arena := ar,
    sl_nodes := sl_nodes sl @ [\<lparr>nd_key_length = of_nat (length key), nd_next = replicate h None, nd_bytes = key\<rparr>]\<rparr>"
  have ins: "sl_Insert base compare sl key =
      map_option (\<lambda>sl. sl\<lparr>sl_size := sl_size sl + 1\<rparr>) (LinkLoop prev2 n [0..<h] s2)"
    using find rh ar by (auto simp: sl_Insert_def NewNode_def Let_def prev2_def s2_def n_def max_def split: prod.splits)
  have old: "height_of s2 a = height_of sl a" "key_of s2 a = key_of sl a" "Next s2 a l = Next sl a l"
    if "a \<in> set ?ns" for a l
    using sl_wf_bound [OF wf that] by (auto simp: s2_def nth_append Next_def)
  have node: "height_of s2 n = h" "key_of s2 n = key" "length (sl_nodes s2) = Suc n" "l < h \<Longrightarrow> Next s2 n l = None" for l
    using len by (simp_all add: s2_def n_def nth_append nd_height_def nd_key_def unat_of_nat_small Next_def)
  have link: "i < height_of s2 n \<and> (\<exists>p. prev2 i = Some p \<and> p < length (sl_nodes s2) \<and> i < height_of s2 p \<and> p \<noteq> n)"
    if "i \<in> set [0..<h]" for i
  proof -
    have "q i < length ?ns" "i < height_of sl (?ns ! q i)" using q(2) [of i] that by (auto simp: last_tall_def)
    moreover from this(1) have "?ns ! q i \<in> set ?ns" by (rule nth_mem)
    ultimately show ?thesis
      using q(1) [of i] that node old(1) [of "?ns ! q i"] sl_wf_bound [OF wf, of "?ns ! q i"] by (auto simp: n_def)
  qed
  obtain s3 where s3: "LinkLoop prev2 n [0..<h] s2 = Some s3" "length (sl_nodes s3) = length (sl_nodes s2)"
      "\<And>a. height_of s3 a = height_of s2 a" "\<And>a. key_of s3 a = key_of s2 a"
      "sl_max_height s3 = sl_max_height s2" "sl_size s3 = sl_size s2"
    and nx: "\<And>a l. Next s3 a l = (if l \<in> set [0..<h] \<and> a = n then Next s2 (the (prev2 l)) l
       else if l \<in> set [0..<h] \<and> prev2 l = Some a then Some n else Next s2 a l)"
  proof -
    have "n < length (sl_nodes s2)" using node(3) by simp
    from LinkLoop_spec [OF distinct_upt this link] that show ?thesis by metis
  qed
  let ?s4 = "s3\<lparr>sl_size := sl_size s3 + 1\<rparr>"
  have "sl_wf f ?s4 (take k xs @ n # drop k xs)"
    unfolding n_def k_def
  proof (rule splice_wf [OF wf new, where q = q and h = h])
    fix a l assume a: "a \<in> set ?ns \<or> a = length (sl_nodes sl)" and "l < height_of ?s4 a"
    show "Next ?s4 a l = (if l < h \<and> a = length (sl_nodes sl) then Next sl (?ns ! q l) l
       else if l < h \<and> a = ?ns ! q l then Some (length (sl_nodes sl)) else Next sl a l)"
    proof (cases "l < h")
      case True
      have "?ns ! q l \<in> set ?ns" using q(2) [OF True] by (intro nth_mem) (auto simp: last_tall_def)
      note o = old(3) [OF this, of l]
      have "Next s3 a l = (if a = n then Next s2 (?ns ! q l) l else if ?ns ! q l = a then Some n else Next s2 a l)"
        using nx [of a l] True q(1) [OF True] by simp
      moreover have "a \<noteq> n \<Longrightarrow> Next s2 a l = Next sl a l" using a old(3) [of a l] by (auto simp: n_def)
      ultimately show ?thesis using True o by (simp add: n_def)
    next
      case False
      with a \<open>l < height_of ?s4 a\<close> s3(3) node(1) have "a \<in> set ?ns" by (auto simp: n_def)
      from old(3) [OF this, of l] nx [of a l] False show ?thesis by simp
    qed
  qed (use s3 node old h q(2) in \<open>auto simp: s2_def n_def k_def\<close>)
  then show ?thesis using ins s3(1,4) node(2) old(2) by (intro exI [of _ ?s4]) auto
qed

text \<open>Walking level 0 visits the nodes in order.\<close>

lemma sli_Next_spec:
  assumes wf: "sl_wf f sl xs" and i: "i < length xs"
  shows "sli_Next sl (xs ! i) = (if Suc i < length xs then Some (xs ! Suc i) else None)"
proof -
  have h: "\<And>a. a \<in> set xs \<Longrightarrow> 0 < height_of sl a" using wf by (fastforce simp: sl_wf_def heights_ok_def)
  have "threads sl (0 # xs)" using wf by (simp add: sl_wf_def)
  from this [unfolded threaded_def, rule_format, of "Suc i" 0] i h
  have "Next sl (xs ! i) 0 = find (\<lambda>a. 0 < height_of sl a) (drop (Suc i) xs)" by simp
  moreover have "0 < height_of sl (xs ! Suc i)" if "Suc i < length xs" using h that by simp
  ultimately show ?thesis by (auto simp: sli_Next_def Cons_nth_drop_Suc [symmetric])
qed

lemma sli_SeekToFirst_spec:
  assumes wf: "sl_wf f sl xs"
  shows "sli_SeekToFirst sl = (if xs = [] then None else Some (hd xs))"
proof -
  have h: "\<And>a. a \<in> set xs \<Longrightarrow> 0 < height_of sl a" using wf by (fastforce simp: sl_wf_def heights_ok_def)
  have "0 < height_of sl 0" using wf by (simp add: sl_wf_def heights_ok_def kMaxHeight_def)
  then have "Next sl 0 0 = find (\<lambda>a. 0 < height_of sl a) xs" using wf by (auto simp: sl_wf_def threaded_def)
  then show ?thesis using h by (cases xs) (auto simp: sli_SeekToFirst_def)
qed

lemma sli_Seek_spec:
  "sl_wf f sl xs \<Longrightarrow> sli_Seek compare sl key =
     Some (if rank sl xs key < length xs then Some (xs ! rank sl xs key) else None)"
  using FindGreaterOrEqual_spec [of sl xs key] by (auto simp: sli_Seek_def)

lemma Contains_spec:
  assumes wf: "sl_wf f sl xs"
  shows "Contains compare sl key = Some (\<exists>a \<in> set xs. f (key_of sl a) = f key)"
proof -
  let ?k = "rank sl xs key"
  obtain prev where find: "FindGreaterOrEqual compare sl key = Some (if ?k < length xs then Some (xs ! ?k) else None, prev)"
    using FindGreaterOrEqual_spec [OF wf, of key] by blast
  have iff: "(\<exists>a \<in> set xs. f (key_of sl a) = f key) \<longleftrightarrow> ?k < length xs \<and> f (key_of sl (xs ! ?k)) = f key"
  proof
    assume "\<exists>a \<in> set xs. f (key_of sl a) = f key"
    then obtain i where i: "i < length xs" "f (key_of sl (xs ! i)) = f key" by (auto simp: in_set_conv_nth)
    then have le: "?k \<le> i" using below_rank [OF wf, of i key] by (metis less_irrefl linorder_not_less)
    then have k: "?k < length xs" using i by simp
    have "\<not> f (key_of sl (xs ! ?k)) < f key" using below_rank [OF wf k, of key] by simp
    moreover have "?k < i \<Longrightarrow> f (key_of sl (xs ! ?k)) < f (key_of sl (xs ! i))"
      using wf_sorted [OF wf _ i(1)] .
    ultimately have "?k = i" using le i(2) by (metis le_neq_implies_less)
    then show "?k < length xs \<and> f (key_of sl (xs ! ?k)) = f key" using i by simp
  qed auto
  show ?thesis unfolding iff using find by (simp add: Contains_def compare_zero)
qed

end

end
