(* ===== verification/Mem_Table.thy ===== *)
theory Mem_Table
  imports Skip_List Cursor
begin

text \<open>
  \<open>src/memtable.cpp\<close> and \<open>include/lsm/memtable.h\<close>: the sorted write buffer, a
  skip list of entries that hold a length-prefixed internal key and a
  length-prefixed value. The stack buffer of LookupKeyBuffer starts out with
  unknown bytes; its result does not depend on them (\<open>LookupKeyBuffer_eq\<close>), and
  zeros stand for them here.
\<close>

section \<open>Definitions\<close>

text \<open>A failed GetLengthPrefixed leaves its output, the empty view, untouched.\<close>

definition DecodeEntryKey :: "bytes \<Rightarrow> bytes" where
  "DecodeEntryKey entry = (case GetLengthPrefixed entry of None \<Rightarrow> [] | Some (key, rest) \<Rightarrow> key)"

definition DecodeEntryValue :: "bytes \<Rightarrow> bytes" where
  "DecodeEntryValue entry =
     (let rest = (case GetLengthPrefixed entry of None \<Rightarrow> entry | Some (key, rest) \<Rightarrow> rest)
      in case GetLengthPrefixed rest of None \<Rightarrow> [] | Some (val, rest) \<Rightarrow> val)"

definition EntryComparator :: "bytes \<Rightarrow> bytes \<Rightarrow> int" where
  "EntryComparator a b = CompareInternalKey (DecodeEntryKey a) (DecodeEntryKey b)"

record MemTable =
  mt_table :: SkipList

definition new_MemTable :: "(nat \<Rightarrow> nat) \<Rightarrow> (nat \<Rightarrow> u32) \<Rightarrow> MemTable" where
  "new_MemTable base rnd = \<lparr>mt_table = new_SkipList base rnd new_Arena\<rparr>"

definition ApproximateMemoryUsage :: "MemTable \<Rightarrow> nat" where
  "ApproximateMemoryUsage mt = ar_usage (sl_arena (mt_table mt))"

definition NumEntries :: "MemTable \<Rightarrow> nat" where
  "NumEntries mt = sl_size (mt_table mt)"

definition mem_empty :: "MemTable \<Rightarrow> bool" where
  "mem_empty mt \<longleftrightarrow> sl_size (mt_table mt) = 0"

abbreviation lookup_buffer :: "bytes \<Rightarrow> SequenceNumber \<Rightarrow> ValueType \<Rightarrow> bytes" where
  "lookup_buffer \<equiv> LookupKeyBuffer (replicate kInlineCapacity 0)"

text \<open>\<open>None\<close> is an insertion whose search does not end.\<close>

definition mem_Add ::
  "(nat \<Rightarrow> nat) \<Rightarrow> MemTable \<Rightarrow> SequenceNumber \<Rightarrow> ValueType \<Rightarrow> bytes \<Rightarrow> bytes \<Rightarrow> MemTable option" where
  "mem_Add base mt seq type key val =
     (let internal_key = lookup_buffer key seq type;
          entry = PutLengthPrefixed [] internal_key;
          entry = PutLengthPrefixed entry val
      in map_option (\<lambda>t. mt\<lparr>mt_table := t\<rparr>) (sl_Insert base EntryComparator (mt_table mt) entry))"

text \<open>
  The iterator: the table it walks and the node it stands on. \<open>mi_hung\<close> is not
  in the code: it records a seek that does not end.
\<close>

record MemIter =
  mi_mem :: MemTable
  mi_node :: "nat option"
  mi_hung :: bool

definition new_MemIter :: "MemTable \<Rightarrow> MemIter" where
  "new_MemIter mt = \<lparr>mi_mem = mt, mi_node = None, mi_hung = False\<rparr>"

definition mi_Valid :: "MemIter \<Rightarrow> bool" where
  "mi_Valid it \<longleftrightarrow> mi_node it \<noteq> None"

definition mi_entry :: "MemIter \<Rightarrow> bytes" where
  "mi_entry it = key_of (mt_table (mi_mem it)) (the (mi_node it))"

definition mi_internal_key :: "MemIter \<Rightarrow> bytes" where
  "mi_internal_key it = DecodeEntryKey (mi_entry it)"

definition mi_value :: "MemIter \<Rightarrow> bytes" where
  "mi_value it = DecodeEntryValue (mi_entry it)"

definition mi_SeekToFirst :: "MemIter \<Rightarrow> MemIter" where
  "mi_SeekToFirst it = it\<lparr>mi_node := sli_SeekToFirst (mt_table (mi_mem it))\<rparr>"

definition mi_Next :: "MemIter \<Rightarrow> MemIter" where
  "mi_Next it = it\<lparr>mi_node := sli_Next (mt_table (mi_mem it)) (the (mi_node it))\<rparr>"

definition mi_Seek :: "MemIter \<Rightarrow> bytes \<Rightarrow> MemIter" where
  "mi_Seek it target =
     (let seek_buf = PutLengthPrefixed [] target;
          seek_buf = PutFixed32 seek_buf 0
      in case sli_Seek EntryComparator (mt_table (mi_mem it)) seek_buf of
           None \<Rightarrow> it\<lparr>mi_hung := True\<rparr>
         | Some n \<Rightarrow> it\<lparr>mi_node := n\<rparr>)"

text \<open>The outer \<open>None\<close> is a search that does not end.\<close>

definition mem_Get :: "MemTable \<Rightarrow> bytes \<Rightarrow> SequenceNumber \<Rightarrow> lookup option option" where
  "mem_Get mt key seq =
     (let it = mi_Seek (new_MemIter mt) (lookup_buffer key seq kValue) in
      if mi_hung it then None
      else if \<not> mi_Valid it then Some None
      else let found = mi_internal_key it in
        if ExtractUserKey found \<noteq> key then Some None
        else if ExtractValueType found = kDeletion then Some (Some Deleted)
        else Some (Some (Found (mi_value it))))"

section \<open>Entries\<close>

definition entry_bytes :: "bytes \<Rightarrow> bytes \<Rightarrow> bytes" where
  "entry_bytes ikey val = PutLengthPrefixed (PutLengthPrefixed [] ikey) val"

lemma DecodeEntry_bytes [simp, codec]:
  assumes "length ikey < 2 ^ 32"
  shows "DecodeEntryKey (entry_bytes ikey val) = ikey"
    "length val < 2 ^ 32 \<Longrightarrow> DecodeEntryValue (entry_bytes ikey val) = val"
  using assms GetLengthPrefixed_Put [of val "[]"]
  by (simp_all add: DecodeEntryKey_def DecodeEntryValue_def entry_bytes_def PutLengthPrefixed_append)

lemma DecodeEntryKey_seek:
  "length target < 2 ^ 32 \<Longrightarrow> DecodeEntryKey (PutFixed32 (PutLengthPrefixed [] target) 0) = target"
  by (simp add: DecodeEntryKey_def PutLengthPrefixed_append PutFixed32_def)

interpretation entry_order: comparator EntryComparator "\<lambda>e. ikey_of (DecodeEntryKey e)"
  by unfold_locales (simp_all add: EntryComparator_def key_order)

section \<open>What a memtable contains\<close>

definition node_version :: "SkipList \<Rightarrow> nat \<Rightarrow> version" where
  "node_version sl a = (DecodeEntryKey (key_of sl a), DecodeEntryValue (key_of sl a))"

definition mem_nodes :: "MemTable \<Rightarrow> nat list \<Rightarrow> bool" where
  "mem_nodes mt xs \<longleftrightarrow> sl_wf (\<lambda>e. ikey_of (DecodeEntryKey e)) (mt_table mt) xs"

definition mem_holds :: "MemTable \<Rightarrow> version list \<Rightarrow> bool" where
  "mem_holds mt es \<longleftrightarrow> (\<exists>xs. mem_nodes mt xs \<and> es = map (node_version (mt_table mt)) xs)"

lemma mem_holds_new: "mem_holds (new_MemTable base rnd) []"
  using sl_wf_new by (auto simp: mem_holds_def mem_nodes_def new_MemTable_def)

lemma mem_nodes_sorted: "mem_nodes mt xs \<Longrightarrow> keys_sorted (map (node_version (mt_table mt)) xs)"
  by (simp add: mem_nodes_def sl_wf_def keys_sorted_def sorted_wrt_map node_version_def)

lemma mem_holds_sorted: "mem_holds mt es \<Longrightarrow> keys_sorted es"
  by (auto simp: mem_holds_def mem_nodes_sorted)

lemma mem_holds_size: "mem_holds mt es \<Longrightarrow> NumEntries mt = length es \<and> (mem_empty mt \<longleftrightarrow> es = [])"
  by (auto simp: mem_holds_def mem_nodes_def NumEntries_def mem_empty_def dest: sl_wf_size)

lemma rank_below:
  assumes "DecodeEntryKey k = target"
  shows "entry_order.rank sl xs k = length (takeWhile (below target) (map (node_version sl) xs))"
  unfolding entry_order.rank_def using assms
  by (simp add: takeWhile_map node_version_def comp_def)

definition insert_version :: "version \<Rightarrow> version list \<Rightarrow> version list" where
  "insert_version e es = takeWhile (below (fst e)) es @ e # dropWhile (below (fst e)) es"

lemma set_insert_version [simp]: "set (insert_version e es) = insert e (set es)"
  by (metis insert_version_def Un_insert_right list.simps(15) set_append takeWhile_dropWhile_id)

lemma length_insert_version [simp]: "length (insert_version e es) = Suc (length es)"
  unfolding insert_version_def length_append length_Cons
  by (metis add_Suc_right length_append takeWhile_dropWhile_id)

lemma mem_Add_holds:
  assumes mt: "mem_holds mt es" and new: "\<forall>e \<in> set es. ikey_of (fst e) \<noteq> ikey_of (EncodeInternalKey key seq type)"
    and len: "length key + length val + 16 < 2 ^ 32"
  shows "\<exists>mt'. mem_Add base mt seq type key val = Some mt' \<and>
    mem_holds mt' (insert_version (EncodeInternalKey key seq type, val) es)"
proof -
  let ?ik = "EncodeInternalKey key seq type"
  let ?e = "entry_bytes ?ik val" and ?sl = "mt_table mt"
  obtain xs where xs: "mem_nodes mt xs" "es = map (node_version ?sl) xs" using mt by (auto simp: mem_holds_def)
  have dk: "DecodeEntryKey ?e = ?ik" "DecodeEntryValue ?e = val" using len by simp_all
  have le: "length ?e < 2 ^ 32" using len by (simp add: entry_bytes_def PutLengthPrefixed_append)
  let ?n = "length (sl_nodes ?sl)" and ?k = "entry_order.rank ?sl xs ?e"
  have "\<forall>a \<in> set xs. ikey_of (DecodeEntryKey (key_of ?sl a)) \<noteq> ikey_of (DecodeEntryKey ?e)"
    using new xs(2) dk by (auto simp: node_version_def)
  from entry_order.sl_Insert_wf [OF xs(1) [unfolded mem_nodes_def] this le, of base]
  obtain sl' where sl': "sl_Insert base EntryComparator ?sl ?e = Some sl'"
    "mem_nodes (mt\<lparr>mt_table := sl'\<rparr>) (take ?k xs @ ?n # drop ?k xs)" "key_of sl' ?n = ?e"
    "\<And>a. a \<in> set xs \<Longrightarrow> key_of sl' a = key_of ?sl a"
    by (auto simp: mem_nodes_def)
  have old: "map (node_version sl') ys = map (node_version ?sl) ys" if "set ys \<subseteq> set xs" for ys
    using sl'(4) that by (auto simp: node_version_def)
  have k: "?k = length (takeWhile (below ?ik) es)" using rank_below [OF dk(1)] xs(2) by simp
  have "map (node_version sl') (take ?k xs @ ?n # drop ?k xs) = take ?k es @ (?ik, val) # drop ?k es"
    using old [OF set_take_subset] old [OF set_drop_subset] sl'(3) dk xs(2)
    by (simp add: take_map drop_map node_version_def)
  also have "\<dots> = insert_version (?ik, val) es"
    unfolding k insert_version_def by (simp add: takeWhile_eq_take [symmetric] dropWhile_eq_drop [symmetric])
  finally have "mem_holds (mt\<lparr>mt_table := sl'\<rparr>) (insert_version (?ik, val) es)"
    using sl'(2) unfolding mem_holds_def by (metis MemTable.select_convs(1) MemTable.update_convs(1) MemTable.surjective)
  moreover have "lookup_buffer key seq type = ?ik" by (rule LookupKeyBuffer_eq) simp
  ultimately show ?thesis using sl'(1) by (simp add: mem_Add_def entry_bytes_def)
qed

section \<open>The iterator\<close>

definition mi_opened :: "MemIter \<Rightarrow> version list \<Rightarrow> bool" where
  "mi_opened it es \<longleftrightarrow> mem_holds (mi_mem it) es \<and> \<not> mi_hung it"

definition mi_at :: "MemIter \<Rightarrow> nat list \<Rightarrow> nat \<Rightarrow> bool" where
  "mi_at it xs i \<longleftrightarrow> mem_nodes (mi_mem it) xs \<and> \<not> mi_hung it \<and> i \<le> length xs \<and>
     mi_node it = (if i < length xs then Some (xs ! i) else None)"

definition mi_rep :: "MemIter \<Rightarrow> version list \<Rightarrow> version list \<Rightarrow> bool" where
  "mi_rep it es rest \<longleftrightarrow> (\<exists>xs i. mi_at it xs i \<and>
     es = map (node_version (mt_table (mi_mem it))) xs \<and> rest = drop i es)"

lemma mi_first_at: "mem_nodes (mi_mem it) xs \<Longrightarrow> \<not> mi_hung it \<Longrightarrow> mi_at (mi_SeekToFirst it) xs 0"
  using entry_order.sli_SeekToFirst_spec
  by (auto simp: mi_at_def mi_SeekToFirst_def mem_nodes_def hd_conv_nth)

lemma mi_next_at: "mi_at it xs i \<Longrightarrow> i < length xs \<Longrightarrow> mi_at (mi_Next it) xs (Suc i)"
  using entry_order.sli_Next_spec by (auto simp: mi_at_def mi_Next_def mem_nodes_def)

lemma mi_seek_at:
  assumes "mem_nodes (mi_mem it) xs" "\<not> mi_hung it" "length target < 2 ^ 32"
  shows "mi_at (mi_Seek it target) xs
    (length (takeWhile (below target) (map (node_version (mt_table (mi_mem it))) xs)))"
proof -
  let ?k = "PutFixed32 (PutLengthPrefixed [] target) 0" and ?sl = "mt_table (mi_mem it)"
  have r: "entry_order.rank ?sl xs ?k = length (takeWhile (below target) (map (node_version ?sl) xs))"
    by (rule rank_below [OF DecodeEntryKey_seek [OF assms(3)]])
  have "sli_Seek EntryComparator ?sl ?k =
      Some (if entry_order.rank ?sl xs ?k < length xs then Some (xs ! entry_order.rank ?sl xs ?k) else None)"
    by (rule entry_order.sli_Seek_spec [OF assms(1) [unfolded mem_nodes_def]])
  moreover have "entry_order.rank ?sl xs ?k \<le> length xs" by (rule entry_order.rank_le)
  ultimately show ?thesis using assms(1,2) unfolding r by (simp add: mi_Seek_def mi_at_def Let_def)
qed

lemma mi_at_rep: "mi_at it xs i \<Longrightarrow> es = map (node_version (mt_table (mi_mem it))) xs \<Longrightarrow> mi_rep it es (drop i es)"
  by (auto simp: mi_rep_def)

lemma mi_mem_frame [simp]:
  "mi_mem (mi_SeekToFirst it) = mi_mem it" "mi_mem (mi_Next it) = mi_mem it" "mi_mem (mi_Seek it t) = mi_mem it"
  by (simp_all add: mi_SeekToFirst_def mi_Next_def mi_Seek_def Let_def split: option.split)

lemma mi_rep_opened: "mi_rep it es rest \<Longrightarrow> mi_opened it es"
  by (auto simp: mi_rep_def mi_opened_def mi_at_def mem_holds_def)

lemma mi_rep_valid: "mi_rep it es rest \<Longrightarrow> mi_Valid it \<longleftrightarrow> rest \<noteq> []"
  by (auto simp: mi_rep_def mi_at_def mi_Valid_def)

lemma mi_rep_head:
  assumes "mi_rep it es (x # rest)"
  shows "mi_internal_key it = fst x \<and> mi_value it = snd x"
proof -
  obtain xs i where a: "mi_at it xs i" "x # rest = drop i (map (node_version (mt_table (mi_mem it))) xs)"
    using assms by (auto simp: mi_rep_def)
  then have i: "i < length xs" by (metis drop_all length_map list.distinct(1) not_less)
  then have "x = node_version (mt_table (mi_mem it)) (xs ! i)"
    using a(2) by (metis Cons_nth_drop_Suc length_map list.inject nth_map)
  then show ?thesis using a(1) i by (simp add: mi_at_def mi_internal_key_def mi_value_def mi_entry_def node_version_def)
qed

lemma mi_rep_first: "mi_opened it es \<Longrightarrow> mi_rep (mi_SeekToFirst it) es es"
  unfolding mi_opened_def mem_holds_def by (metis drop0 mi_at_rep mi_first_at mi_mem_frame(1))

lemma mi_rep_seek: "mi_opened it es \<Longrightarrow> length t < 2 ^ 32 \<Longrightarrow> mi_rep (mi_Seek it t) es (dropWhile (below t) es)"
  unfolding mi_opened_def mem_holds_def by (metis dropWhile_eq_drop mi_at_rep mi_seek_at mi_mem_frame(3))

lemma mi_rep_next:
  assumes "mi_rep it es (x # rest)"
  shows "mi_rep (mi_Next it) es rest"
proof -
  obtain xs i where a: "mi_at it xs i" "es = map (node_version (mt_table (mi_mem it))) xs" "x # rest = drop i es"
    using assms unfolding mi_rep_def by blast
  then have i: "i < length xs" by (metis drop_all length_map list.distinct(1) not_less)
  have "rest = drop (Suc i) es" using a(3) by (metis drop_Suc list.sel(3) tl_drop)
  then show ?thesis using mi_at_rep [OF mi_next_at [OF a(1) i]] a(2) by simp
qed

text \<open>The memtable iterator satisfies the cursor contract and never fails.\<close>

interpretation mem_cursor: strict_cursor "\<lambda>e :: unit. True" "\<lambda>e. True" mi_opened mi_rep
  "\<lambda>it n. False" mi_Valid mi_internal_key mi_value "\<lambda>it. OK" "\<lambda>e it. (e, mi_SeekToFirst it)"
  "\<lambda>e it t. (e, mi_Seek it t)" "\<lambda>e it. (e, mi_Next it)"
proof
  show "\<And>s es rest. mi_rep s es rest \<Longrightarrow> \<exists>used. es = used @ rest"
    unfolding mi_rep_def by (metis append_take_drop_id)
  show "\<And>s es. mi_opened s es \<Longrightarrow> keys_le es"
    by (auto simp: mi_opened_def intro!: keys_sorted_le dest: mem_holds_sorted)
qed (auto simp: mi_rep_first mi_rep_seek mi_rep_next mi_rep_opened mi_rep_valid mi_rep_head)

section \<open>Get\<close>

lemma mem_Get_seek_lookup:
  assumes "mem_holds mt es" "length key + 8 < 2 ^ 32"
  shows "mem_Get mt key seq = Some (seek_lookup es key seq)"
proof -
  define it where "it = mi_Seek (new_MemIter mt) (LookupKey key seq)"
  have buf: "lookup_buffer key seq kValue = LookupKey key seq"
    unfolding LookupKey_def by (rule LookupKeyBuffer_eq) simp
  have "mi_opened (new_MemIter mt) es" using assms(1) by (simp add: mi_opened_def new_MemIter_def)
  moreover have "length (LookupKey key seq) < 2 ^ 32" using assms(2) by (simp add: LookupKey_def)
  ultimately have rep: "mi_rep it es (dropWhile (below (LookupKey key seq)) es)"
    unfolding it_def by (rule mi_rep_seek)
  have hung: "\<not> mi_hung it" using mi_rep_opened [OF rep] by (simp add: mi_opened_def)
  show ?thesis
  proof (cases "dropWhile (below (LookupKey key seq)) es")
    case Nil
    with mi_rep_valid [OF rep] hung show ?thesis
      unfolding mem_Get_def buf it_def [symmetric] Let_def seek_lookup_def Nil by simp
  next
    case (Cons e rest)
    have "mi_Valid it" "mi_internal_key it = fst e" "mi_value it = snd e"
      using mi_rep_valid [OF rep] mi_rep_head [OF rep [unfolded Cons]] Cons by auto
    with hung show ?thesis
      unfolding mem_Get_def buf it_def [symmetric] Let_def seek_lookup_def Cons by (simp add: answer_def)
  qed
qed

section \<open>A sequence of writes\<close>

type_synonym mem_write = "SequenceNumber \<times> ValueType \<times> bytes \<times> bytes"

fun version_of :: "mem_write \<Rightarrow> version" where
  "version_of (seq, type, key, val) = (EncodeInternalKey key seq type, val)"

fun mem_adds :: "(nat \<Rightarrow> nat) \<Rightarrow> MemTable \<Rightarrow> mem_write list \<Rightarrow> MemTable option" where
  "mem_adds base mt [] = Some mt"
| "mem_adds base mt ((seq, type, key, val) # ws) =
     (case mem_Add base mt seq type key val of None \<Rightarrow> None | Some mt' \<Rightarrow> mem_adds base mt' ws)"

text \<open>What the engine guarantees of the writes of one memtable.\<close>

fun write_ok :: "mem_write \<Rightarrow> bool" where
  "write_ok (seq, type, key, val) \<longleftrightarrow>
     seq \<le> kMaxSequenceNumber \<and> type_ok type \<and> length key + length val + 16 < 2 ^ 32"

definition writes_ok :: "mem_write list \<Rightarrow> bool" where
  "writes_ok ws \<longleftrightarrow> (\<forall>w \<in> set ws. write_ok w) \<and> distinct (map (\<lambda>(seq, type, key, val). (key, seq)) ws)"

lemma version_ok_of: "write_ok w \<Longrightarrow> version_ok (version_of w)"
  by (cases w) (simp add: version_ok_def)

lemma ikey_of_version_inj:
  assumes "write_ok (s, t, k, v)" "write_ok (s', t', k', v')"
    "ikey_of (EncodeInternalKey k s t) = ikey_of (EncodeInternalKey k' s' t')"
  shows "k = k' \<and> s = s'"
  using assms tag_seq_PackTag [of s t] tag_seq_PackTag [of s' t'] by auto

lemma mem_adds_holds:
  assumes "mem_holds mt es" "writes_ok ws"
    "\<forall>e \<in> set es. \<forall>w \<in> set ws. ikey_of (fst e) \<noteq> ikey_of (fst (version_of w))"
  shows "\<exists>mt' es'. mem_adds base mt ws = Some mt' \<and> mem_holds mt' es' \<and> set es' = set es \<union> version_of ` set ws"
  using assms
proof (induction ws arbitrary: mt es)
  case Nil
  then show ?case by auto
next
  case (Cons w ws)
  obtain s t k v where w: "w = (s, t, k, v)" by (cases w)
  have ok: "write_ok (s, t, k, v)" using Cons.prems(2) w by (simp add: writes_ok_def)
  obtain mt1 where mt1: "mem_Add base mt s t k v = Some mt1"
    "mem_holds mt1 (insert_version (version_of w) es)"
    using mem_Add_holds [OF Cons.prems(1), of k s t v base] Cons.prems(3) ok w by auto
  have "ikey_of (fst (version_of w)) \<noteq> ikey_of (fst (version_of u))" if "u \<in> set ws" for u
  proof -
    obtain s' t' k' v' where u: "u = (s', t', k', v')" by (cases u)
    have "(k, s) \<noteq> (k', s')" "write_ok u"
      using Cons.prems(2) that u w by (force simp: writes_ok_def)+
    then show ?thesis using ikey_of_version_inj [OF ok, of s' t' k' v'] u w by auto
  qed
  then have "\<forall>e \<in> set (insert_version (version_of w) es). \<forall>u \<in> set ws. ikey_of (fst e) \<noteq> ikey_of (fst (version_of u))"
    using Cons.prems(3) by auto
  from Cons.IH [OF mt1(2) _ this] Cons.prems(2) mt1(1) w show ?case by (auto simp: writes_ok_def)
qed

section \<open>Properties\<close>

text \<open>C23. The memtable answers every read with the newest visible version. Any sequence of
  writes with distinct (key, sequence number) pairs, whatever heights the skip list draws
  for its nodes, is inserted without the search ever running on, and Get then terminates
  and finds the newest version of the key at or below the requested sequence number, a
  tombstone included, or reports that there is none.\<close>

theorem memtable_get_newest:
  assumes "writes_ok ws" "seq \<le> kMaxSequenceNumber" "length key + 8 < 2 ^ 32"
  shows "\<exists>mt r. mem_adds base (new_MemTable base rnd) ws = Some mt \<and> mem_Get mt key seq = Some r \<and>
    resolves (version_of ` set ws) key seq r"
proof -
  obtain mt es where mt: "mem_adds base (new_MemTable base rnd) ws = Some mt" "mem_holds mt es"
    and es: "set es = version_of ` set ws"
    using mem_adds_holds [OF mem_holds_new assms(1), of base base rnd] by auto
  have "versions_ok es"
    using mem_holds_sorted [OF mt(2)] assms(1) es version_ok_of by (auto simp: versions_ok_def writes_ok_def)
  from seek_lookup_resolves [OF this assms(2), of key] mem_Get_seek_lookup [OF mt(2) assms(3), of seq] mt(1) es
  show ?thesis by auto
qed

theorem memtable_get_newest_witness:
  "\<exists>mt r. mem_adds (\<lambda>i. i * 4096) (new_MemTable (\<lambda>i. i * 4096) (\<lambda>i. of_nat i * 4))
      [(1, kValue, [97], [1]), (2, kDeletion, [97], []), (3, kValue, [98], [2])] = Some mt \<and>
    mem_Get mt [97] 2 = Some r \<and>
    resolves (version_of ` set [(1, kValue, [97], [1]), (2, kDeletion, [97], []), (3, kValue, [98], [2])]) [97] 2 r"
  by (rule memtable_get_newest) (simp_all add: writes_ok_def type_ok_def kMaxSequenceNumber_def)

text \<open>C24. Adding an entry to the memtable is insertion into a sorted list: if the memtable
  holds the versions \<open>es\<close> and no version with the same internal key, Add terminates and the
  memtable then holds \<open>es\<close> with the new version at its place, and its size has grown by
  one. This is the refinement of the pointer structure by a list.\<close>

theorem memtable_add_refines_sorted_insert:
  assumes "mem_holds mt es" "\<forall>e \<in> set es. ikey_of (fst e) \<noteq> ikey_of (EncodeInternalKey key seq type)"
    and "length key + length val + 16 < 2 ^ 32"
  shows "\<exists>mt'. mem_Add base mt seq type key val = Some mt' \<and>
    mem_holds mt' (insert_version (EncodeInternalKey key seq type, val) es) \<and>
    NumEntries mt' = NumEntries mt + 1"
proof -
  obtain mt' where "mem_Add base mt seq type key val = Some mt'"
    "mem_holds mt' (insert_version (EncodeInternalKey key seq type, val) es)"
    using mem_Add_holds [OF assms] by blast
  then show ?thesis using mem_holds_size [OF assms(1)] mem_holds_size by fastforce
qed

theorem memtable_add_refines_sorted_insert_witness:
  "\<exists>mt'. mem_Add (\<lambda>i. 0) (new_MemTable (\<lambda>i. 0) (\<lambda>i. 0)) 5 kValue [97] [1] = Some mt' \<and>
    mem_holds mt' (insert_version (EncodeInternalKey [97] 5 kValue, [1]) []) \<and>
    NumEntries mt' = NumEntries (new_MemTable (\<lambda>i. 0) (\<lambda>i. 0)) + 1"
  by (rule memtable_add_refines_sorted_insert [OF mem_holds_new]) simp_all

end
