(* ===== verification/Options.thy ===== *)
theory Options
  imports Prelude
begin

text \<open>
  \<open>include/lsm/options.h\<close>: the option structs with their defaults. \<open>ReadOptions\<close>
  holds a snapshot's sequence number in place of the pointer to the snapshot, the
  only thing a read takes from it. Sizes are natural numbers.
\<close>

datatype SyncPolicy = kEveryWrite | kInterval | kNever

record Options =
  create_if_missing :: bool
  error_if_exists :: bool
  memtable_size_bytes :: nat
  block_size_bytes :: nat
  block_restart_interval :: int
  bloom_bits_per_key :: int
  block_cache_bytes :: nat
  l0_compaction_trigger :: int
  max_bytes_for_level_base :: u64
  target_file_size :: u64
  sync_policy :: SyncPolicy
  fsync_interval_ms :: u64
  background_compaction :: bool
  opt_verify_checksums :: bool

definition default_Options :: Options where
  "default_Options =
     \<lparr>create_if_missing = True, error_if_exists = False, memtable_size_bytes = 4 * 2 ^ 20,
      block_size_bytes = 4096, block_restart_interval = 16, bloom_bits_per_key = 10,
      block_cache_bytes = 8 * 2 ^ 20, l0_compaction_trigger = 4,
      max_bytes_for_level_base = push_bit 20 10, target_file_size = push_bit 20 2,
      sync_policy = kEveryWrite, fsync_interval_ms = 1000, background_compaction = True,
      opt_verify_checksums = True\<rparr>"

record WriteOptions =
  wo_sync :: bool
  wo_use_default_policy :: bool

definition default_WriteOptions :: WriteOptions where
  "default_WriteOptions = \<lparr>wo_sync = False, wo_use_default_policy = True\<rparr>"

record ReadOptions =
  ro_verify_checksums :: bool
  ro_fill_cache :: bool
  ro_snapshot :: "u64 option"

definition default_ReadOptions :: ReadOptions where
  "default_ReadOptions = \<lparr>ro_verify_checksums = True, ro_fill_cache = True, ro_snapshot = None\<rparr>"

end
