(* ===== verification/Table_Reader.thy ===== *)
theory Table_Reader
  imports Options Posix Crc32c Bloom Block Block_Cache
begin

text \<open>
  The reading half of \<open>src/sstable.cpp\<close>: \<open>ReadFullyAt\<close>, \<open>Table\<close> and
  \<open>TableIterator\<close>. An open table's descriptor is the contents of its file. What
  reads of all tables share is the environment \<open>renv\<close>: the system calls, the
  block cache and the per-table counters, kept by path. \<open>re_overrun\<close> is not in the
  code; it records an access outside a buffer, after which the code's behaviour is
  undefined. The model stops there.
\<close>

section \<open>Definitions\<close>

definition kFooterSize :: nat where "kFooterSize = 40"
definition kTableMagic :: u64 where "kTableMagic = 0x4c534d5442aa5502"
definition kBlockTrailerSize :: nat where "kBlockTrailerSize = 4"

record Stats =
  blocks_read :: nat
  bloom_rejections :: nat
  cache_hits :: nat

record renv =
  re_world :: world
  re_cache :: BlockCache
  re_stats :: "string \<Rightarrow> Stats"
  re_overrun :: bool

abbreviation count_stat :: "string \<Rightarrow> (Stats \<Rightarrow> Stats) \<Rightarrow> renv \<Rightarrow> renv" where
  "count_stat path f e \<equiv> e\<lparr>re_stats := (re_stats e)(path := f (re_stats e path))\<rparr>"

text \<open>
  One \<open>pread\<close> of at most \<open>n\<close> bytes at \<open>off\<close>: an off that is negative as an
  \<open>off_t\<close> is refused, and no byte is returned only at or past the end of the file.
\<close>

definition pread :: "world \<Rightarrow> bytes \<Rightarrow> u64 \<Rightarrow> nat \<Rightarrow> (sys_result + bytes) \<times> world" where
  "pread w fd off n =
     (let (r, w) = next_result w; avail = take n (drop (unat off) fd) in
      case r of
        Fail e \<Rightarrow> (Inl (Fail e), w)
      | Eintr \<Rightarrow> (Inl Eintr, w)
      | _ \<Rightarrow> if 2 ^ 63 \<le> unat off then (Inl (Fail ''Invalid argument''), w)
             else (case r of Short k \<Rightarrow> (Inr (take (max 1 k) avail), w) | _ \<Rightarrow> (Inr avail, w)))"

lemma pread_script: "pread w fd off n = (x, w') \<Longrightarrow>
    length (script w') \<le> length (script w) \<and> files w' = files w \<and>
    (x = Inl Eintr \<longrightarrow> length (script w') < length (script w))"
proof -
  assume p: "pread w fd off n = (x, w')"
  obtain r w1 where r: "next_result w = (r, w1)" by force
  show ?thesis
    using p next_result_cases [OF r] r
    by (cases r) (auto simp: pread_def Let_def split: if_splits)
qed

text \<open>\<open>out\<close> is the part of the buffer that has been filled.\<close>

function ReadFullyAt :: "world \<Rightarrow> bytes \<Rightarrow> u64 \<Rightarrow> nat \<Rightarrow> bytes \<Rightarrow> (status + bytes) \<times> world" where
  "ReadFullyAt w fd off n out =
     (if length out < n then
        (let (r, w') = pread w fd (off + of_nat (length out)) (n - length out) in
         case r of
           Inl Eintr \<Rightarrow> ReadFullyAt w' fd off n out
         | Inl (Fail e) \<Rightarrow> (Inl (PosixError ''pread'' e), w')
         | Inl _ \<Rightarrow> (Inl (PosixError ''pread'' []), w')
         | Inr got \<Rightarrow>
             if got = [] then (Inl (Corruption ''unexpected end of SSTable''), w')
             else ReadFullyAt w' fd off n (out @ got))
      else (Inr out, w))"
  by pat_completeness auto
termination
proof (relation "measures [\<lambda>(w, fd, off, n, out). length (script w), \<lambda>(w, fd, off, n, out). n - length out]",
    goal_cases)
  case (2 w fd off n out x r w' sr)
  then have "pread w fd (off + of_nat (length out)) (n - length out) = (r, w')" by simp
  from pread_script [OF this] 2 show ?case by simp
next
  case (3 w fd off n out x r w' got)
  then have "pread w fd (off + of_nat (length out)) (n - length out) = (r, w')" by simp
  from pread_script [OF this] 3 show ?case by (auto simp: le_less length_greater_0_conv [symmetric] simp del: length_greater_0_conv)
qed simp

declare ReadFullyAt.simps [simp del]

record IndexEntry =
  ie_last_key :: bytes
  ie_offset :: u64
  ie_size :: u64

record Table =
  tb_path :: string
  tb_fd :: bytes
  tb_file_size :: u64
  tb_verify_checksums :: bool
  tb_cached :: bool
  tb_file_number :: u64
  tb_index :: "IndexEntry list"
  tb_bloom :: bytes

definition ReadBlock :: "renv \<Rightarrow> Table \<Rightarrow> IndexEntry \<Rightarrow> bool \<Rightarrow> (status + bytes) \<times> renv" where
  "ReadBlock e tb entry cacheable =
     (let use_cache = (cacheable \<and> tb_cached tb);
          (cached, e) = (if use_cache
             then let (r, c) = bc_Lookup (re_cache e) (tb_file_number tb) (ie_offset entry)
                  in (r, e\<lparr>re_cache := c\<rparr>)
             else (None, e))
      in case cached of
           Some block \<Rightarrow> (Inr block, count_stat (tb_path tb) (\<lambda>s. s\<lparr>cache_hits := cache_hits s + 1\<rparr>) e)
         | None \<Rightarrow>
             if 2 ^ 64 \<le> unat (ie_size entry) + kBlockTrailerSize
             then (Inl (Corruption ''undefined''), e\<lparr>re_overrun := True\<rparr>)
             else let n = unat (ie_size entry);
                      (r, w) = ReadFullyAt (re_world e) (tb_fd tb) (ie_offset entry) (n + kBlockTrailerSize) [];
                      e = e\<lparr>re_world := w\<rparr>
               in case r of
                    Inl s \<Rightarrow> (Inl s, e)
                  | Inr buf \<Rightarrow>
                      if tb_verify_checksums tb \<and> Value (take n buf) \<noteq> DecodeFixed32 (drop n buf)
                      then (Inl (Corruption (tb_path tb @ '': block checksum mismatch'')), e)
                      else let buf = take n buf;
                               e = count_stat (tb_path tb) (\<lambda>s. s\<lparr>blocks_read := blocks_read s + 1\<rparr>) e
                        in if use_cache
                           then let (h, c) = bc_Insert (re_cache e) (tb_file_number tb) (ie_offset entry) buf
                                in (Inr h, e\<lparr>re_cache := c\<rparr>)
                           else (Inr buf, e))"

text \<open>The index block: \<open>None\<close> is a malformed one.\<close>

function IndexLoop :: "bytes \<Rightarrow> IndexEntry list option" where
  "IndexLoop rest =
     (if rest = [] then Some []
      else case GetLengthPrefixed rest of
        None \<Rightarrow> None
      | Some (lkey, rest') \<Rightarrow>
          if length rest' < 16 then None
          else map_option (\<lambda>es. \<lparr>ie_last_key = lkey, ie_offset = DecodeFixed64 rest',
                                 ie_size = DecodeFixed64 (drop 8 rest')\<rparr> # es)
                 (IndexLoop (drop 16 rest')))"
  by pat_completeness auto
termination
  by (relation "measure length") (auto dest!: GetLengthPrefixed_SomeD)

declare IndexLoop.simps [simp del]

text \<open>
  \<open>Table::Open\<close>, from the footer on and from the start. Closing a descriptor that
  was open for reading has no effect the model could see.
\<close>

definition OpenBlocks :: "renv \<Rightarrow> Table \<Rightarrow> bytes \<Rightarrow> (status + Table) \<times> renv" where
  "OpenBlocks e table footer =
     (let path = tb_path table;
          index_offset = DecodeFixed64 footer;
          index_size = DecodeFixed64 (drop 8 footer);
          bloom_offset = DecodeFixed64 (drop 16 footer);
          bloom_size = DecodeFixed64 (drop 24 footer)
      in if DecodeFixed64 (drop 32 footer) \<noteq> kTableMagic
         then (Inl (Corruption (path @ '': bad table magic'')), e)
         else if index_offset + index_size + of_nat kBlockTrailerSize > tb_file_size table \<or>
                 bloom_offset + bloom_size + of_nat kBlockTrailerSize > tb_file_size table
         then (Inl (Corruption (path @ '': footer points past end of file'')), e)
         else
           (case ReadBlock e table \<lparr>ie_last_key = [], ie_offset = bloom_offset, ie_size = bloom_size\<rparr> False of
              (Inl s, e) \<Rightarrow> (Inl s, e)
            | (Inr bloom, e) \<Rightarrow>
              (case ReadBlock e table \<lparr>ie_last_key = [], ie_offset = index_offset, ie_size = index_size\<rparr> False of
                 (Inl s, e) \<Rightarrow> (Inl s, e)
               | (Inr contents, e) \<Rightarrow>
                 (case IndexLoop contents of
                    None \<Rightarrow> (Inl (Corruption (path @ '': malformed index block'')), e)
                  | Some index \<Rightarrow>
                      (Inr (table\<lparr>tb_bloom := bloom, tb_index := index\<rparr>),
                       count_stat path (\<lambda>s. s\<lparr>blocks_read := 0\<rparr>) e)))))"

definition table_Open ::
  "renv \<Rightarrow> string \<Rightarrow> Options \<Rightarrow> bool \<Rightarrow> u64 \<Rightarrow> (status + Table) \<times> renv" where
  "table_Open e path opt cache file_no =
     (let (err, w) = simple_call (re_world e); e = e\<lparr>re_world := w\<rparr> in
      case (err, file_of w path) of
        (Some m, _) \<Rightarrow> (Inl (PosixError (''open '' @ path) m), e)
      | (None, None) \<Rightarrow> (Inl (PosixError (''open '' @ path) ''No such file or directory''), e)
      | (None, Some fd) \<Rightarrow>
        (let (err, w) = simple_call (re_world e); e = e\<lparr>re_world := w\<rparr>; size = length fd in
         case err of
           Some m \<Rightarrow> (Inl (PosixError (''fstat '' @ path) m), e)
         | None \<Rightarrow>
           if size < kFooterSize then (Inl (Corruption (path @ '': file shorter than footer'')), e)
           else
             let table = \<lparr>tb_path = path, tb_fd = fd, tb_file_size = of_nat size,
                          tb_verify_checksums = opt_verify_checksums opt, tb_cached = cache,
                          tb_file_number = file_no, tb_index = [], tb_bloom = []\<rparr>;
                 e = count_stat path (\<lambda>s. \<lparr>blocks_read = 0, bloom_rejections = 0, cache_hits = 0\<rparr>) e;
                 (r, w) = ReadFullyAt (re_world e) fd (of_nat (size - kFooterSize)) kFooterSize [];
                 e = e\<lparr>re_world := w\<rparr>
             in case r of
                  Inl s \<Rightarrow> (Inl s, e)
                | Inr footer \<Rightarrow> OpenBlocks e table footer))"

text \<open>First block whose largest key is not below the target.\<close>

definition IndexSearch :: "IndexEntry list \<Rightarrow> bytes \<Rightarrow> nat \<Rightarrow> nat \<Rightarrow> nat" where
  "IndexSearch index target lo hi = bisect (\<lambda>mid. CompareInternalKey (ie_last_key (index ! mid)) target < 0) lo hi"

definition table_Get :: "renv \<Rightarrow> Table \<Rightarrow> bytes \<Rightarrow> SequenceNumber \<Rightarrow> lookup option \<times> renv" where
  "table_Get e tb key seq =
     (if \<not> MayContain (tb_bloom tb) key
      then (None, count_stat (tb_path tb) (\<lambda>s. s\<lparr>bloom_rejections := bloom_rejections s + 1\<rparr>) e)
      else let target = LookupKeyBuffer (replicate kInlineCapacity 0) key seq kValue;
               lo = IndexSearch (tb_index tb) target 0 (length (tb_index tb))
        in if length (tb_index tb) \<le> lo then (None, e)
           else case ReadBlock e tb (tb_index tb ! lo) True of
                  (Inl s, e) \<Rightarrow> (Some (Failed s), e)
                | (Inr contents, e) \<Rightarrow>
                    let block = new_BlockReader contents in
                    if \<not> ok (r_status block) then (Some (Failed (r_status block)), e)
                    else let block = br_Seek block target in
                      if \<not> ok (r_status block) then (Some (Failed (r_status block)), e)
                      else if \<not> r_valid block then (None, e)
                      else let ikey = r_key block in
                        if ExtractUserKey ikey \<noteq> key then (None, e)
                        else if ExtractValueType ikey = kDeletion then (Some Deleted, e)
                        else (Some (Found (r_value block)), e))"

subsection \<open>TableIterator\<close>

record TableIter =
  ti_table :: Table
  ti_block_index :: nat
  ti_reader :: BlockReader
  ti_valid :: bool
  ti_status :: status

definition new_TableIter :: "Table \<Rightarrow> TableIter" where
  "new_TableIter tb = \<lparr>ti_table = tb, ti_block_index = 0, ti_reader = default_BlockReader,
     ti_valid = False, ti_status = OK\<rparr>"

function LoadBlock :: "renv \<Rightarrow> TableIter \<Rightarrow> bytes option \<Rightarrow> renv \<times> TableIter" where
  "LoadBlock e it target =
     (if ti_block_index it < length (tb_index (ti_table it)) then
        (let (r, e) = ReadBlock e (ti_table it) (tb_index (ti_table it) ! ti_block_index it) True in
         case r of
           Inl s \<Rightarrow> (e, it\<lparr>ti_status := s, ti_valid := False\<rparr>)
         | Inr block \<Rightarrow>
             let it = it\<lparr>ti_status := OK, ti_reader := new_BlockReader block\<rparr> in
             if \<not> ok (r_status (ti_reader it))
             then (e, it\<lparr>ti_status := r_status (ti_reader it), ti_valid := False\<rparr>)
             else let it = it\<lparr>ti_reader := (case target of Some t \<Rightarrow> br_Seek (ti_reader it) t
                                            | None \<Rightarrow> br_SeekToFirst (ti_reader it))\<rparr> in
               if \<not> ok (r_status (ti_reader it))
               then (e, it\<lparr>ti_status := r_status (ti_reader it), ti_valid := False\<rparr>)
               else if r_valid (ti_reader it) then (e, it\<lparr>ti_valid := True\<rparr>)
               else LoadBlock e (it\<lparr>ti_block_index := ti_block_index it + 1\<rparr>) None)
      else (e, it\<lparr>ti_valid := False\<rparr>))"
  by pat_completeness auto
termination
  by (relation "measure (\<lambda>(e, it, target). length (tb_index (ti_table it)) - ti_block_index it)") auto

declare LoadBlock.simps [simp del]

definition ti_SeekToFirst :: "renv \<Rightarrow> TableIter \<Rightarrow> renv \<times> TableIter" where
  "ti_SeekToFirst e it = LoadBlock e (it\<lparr>ti_block_index := 0\<rparr>) None"

definition ti_Seek :: "renv \<Rightarrow> TableIter \<Rightarrow> bytes \<Rightarrow> renv \<times> TableIter" where
  "ti_Seek e it target =
     (let index = tb_index (ti_table it)
      in LoadBlock e (it\<lparr>ti_block_index := IndexSearch index target 0 (length index)\<rparr>) (Some target))"

definition ti_Next :: "renv \<Rightarrow> TableIter \<Rightarrow> renv \<times> TableIter" where
  "ti_Next e it =
     (if \<not> ti_valid it then (e, it)
      else let it = it\<lparr>ti_reader := br_Next (ti_reader it)\<rparr> in
        if r_valid (ti_reader it) then (e, it)
        else if \<not> ok (r_status (ti_reader it))
        then (e, it\<lparr>ti_status := r_status (ti_reader it), ti_valid := False\<rparr>)
        else LoadBlock e (it\<lparr>ti_block_index := ti_block_index it + 1\<rparr>) None)"

definition ti_key :: "TableIter \<Rightarrow> bytes" where
  "ti_key it = r_key (ti_reader it)"

definition ti_value :: "TableIter \<Rightarrow> bytes" where
  "ti_value it = r_value (ti_reader it)"

section \<open>Reading from the file\<close>

text \<open>Reading consumes the script.\<close>

lemma pread_calm: "pread w fd off n = (x, w') \<Longrightarrow> calm w \<Longrightarrow> calm w'"
proof -
  assume p: "pread w fd off n = (x, w')" and c: "calm w"
  obtain r w1 where r: "next_result w = (r, w1)" by force
  show ?thesis using p calm_next [OF r c] r by (cases r) (auto simp: pread_def Let_def split: if_splits)
qed

lemma ReadFullyAt_calm: "calm w \<Longrightarrow> ReadFullyAt w fd off n out = (x, w') \<Longrightarrow> calm w'"
proof (induction w fd off n out rule: ReadFullyAt.induct)
  case (1 w fd off n out)
  obtain r w1 where r: "pread w fd (off + of_nat (length out)) (n - length out) = (r, w1)" by force
  note c = pread_calm [OF r "1.prems"(1)]
  show ?case
  proof (cases "length out < n")
    case True
    note IH = "1.IH" [OF True refl r [symmetric]]
    show ?thesis using "1.prems"(2) True r c IH
      by (auto simp: ReadFullyAt.simps [of w] split: sum.splits sys_result.splits if_splits)
  next
    case False
    then show ?thesis using "1.prems" by (auto simp: ReadFullyAt.simps [of w])
  qed
qed

lemma ReadBlock_calm: "calm (re_world e) \<Longrightarrow> ReadBlock e tb ie False = (x, e') \<Longrightarrow> calm (re_world e')"
  by (auto simp: ReadBlock_def Let_def split: prod.splits sum.splits if_splits elim!: ReadFullyAt_calm [rotated])

lemma OpenBlocks_calm: "calm (re_world e) \<Longrightarrow> OpenBlocks e tb footer = (x, e') \<Longrightarrow> calm (re_world e')"
  by (auto simp: OpenBlocks_def Let_def split: prod.splits sum.splits option.splits if_splits
      dest!: ReadBlock_calm [rotated])

lemma table_Open_calm:
  assumes "calm (re_world e)" "table_Open e path opt cache fno = (x, e')"
  shows "calm (re_world e')"
proof -
  obtain r1 w1 where 1: "simple_call (re_world e) = (r1, w1)" by force
  obtain r2 w2 where 2: "simple_call w1 = (r2, w2)" by force
  have c: "calm w1" "calm w2" using simple_call_calm [OF assms(1) 1] simple_call_calm [OF _ 2] by auto
  obtain fd where fd: "file_of w1 path = Some fd \<or> file_of w1 path = None" by (cases "file_of w1 path") auto
  obtain r3 w3 where 3: "ReadFullyAt w2 fd (of_nat (length fd - kFooterSize)) kFooterSize [] = (r3, w3)" by force
  have "calm w3" by (rule ReadFullyAt_calm [OF c(2) 3])
  then show ?thesis using assms(2) 1 2 3 c fd
    by (auto simp: table_Open_def Let_def split: option.splits sum.splits if_splits elim!: OpenBlocks_calm [rotated])
qed

lemma pread_got:
  assumes "pread w fd off n = (Inr got, w')"
  shows "prefix got (drop (unat off) fd) \<and> length got \<le> n \<and> (got = [] \<longrightarrow> n = 0 \<or> drop (unat off) fd = [])"
proof -
  obtain r w1 where r: "next_result w = (r, w1)" by force
  have "\<exists>m. got = take m (take n (drop (unat off) fd)) \<and> 0 < m"
  proof (cases r)
    case Done
    then have "got = take (Suc n) (take n (drop (unat off) fd))"
      using assms r by (simp add: pread_def Let_def split: if_splits)
    then show ?thesis by blast
  next
    case (Short k)
    then have "got = take (max 1 k) (take n (drop (unat off) fd))"
      using assms r by (simp add: pread_def Let_def split: if_splits)
    then show ?thesis by (intro exI [of _ "max 1 k"]) simp
  qed (use assms r in \<open>simp_all add: pread_def Let_def\<close>)
  then obtain m where m: "got = take m (take n (drop (unat off) fd))" "0 < m" by blast
  have "prefix got (take n (drop (unat off) fd))" unfolding m(1) by (rule take_is_prefix)
  then have "prefix got (drop (unat off) fd)" using take_is_prefix prefix_order.trans by blast
  moreover have "got = [] \<longrightarrow> n = 0 \<or> drop (unat off) fd = []" unfolding m(1) using m(2) by (auto simp: min_def split: if_splits)
  moreover have "length got \<le> n" unfolding m(1) by simp
  ultimately show ?thesis by simp
qed

lemma pread_no_failure:
  assumes "pread w fd off n = (x, w')" "no_failure w" "unat off < 2 ^ 63"
  shows "no_failure w' \<and> (x = Inl Eintr \<or> (\<exists>got. x = Inr got))"
proof -
  obtain r w1 where r: "next_result w = (r, w1)" by force
  note nf = no_failure_next [OF r assms(2)]
  show ?thesis using assms(1,3) r nf by (cases r) (auto simp: pread_def Let_def split: if_splits)
qed

text \<open>
  A read that succeeds has delivered exactly the bytes asked for. Inside the file
  it can only fail because a system call failed.
\<close>

lemma prefix_more: "prefix out xs \<Longrightarrow> prefix got (drop (length out) xs) \<Longrightarrow> prefix (out @ got) xs"
  by (auto simp: prefix_def)

lemma prefix_take: "prefix buf xs \<Longrightarrow> length buf = n \<Longrightarrow> buf = take n xs"
  by (auto simp: prefix_def)

lemma ReadFullyAt_spec:
  assumes "ReadFullyAt w fd off n out = (r, w')" "unat off + n < 2 ^ 64"
    "prefix out (drop (unat off) fd)" "length out \<le> n"
  shows "files w' = files w \<and> (\<forall>buf. r = Inr buf \<longrightarrow> buf = take n (drop (unat off) fd) \<and> length buf = n) \<and>
    (\<forall>s. r = Inl s \<longrightarrow> \<not> ok s)"
  using assms
proof (induction w fd off n out rule: ReadFullyAt.induct)
  case (1 w fd off n out)
  show ?case
  proof (cases "length out < n")
    case False
    then have len: "length out = n" using "1.prems"(4) by simp
    moreover have "r = Inr out \<and> w' = w" using "1.prems"(1) False by (simp add: ReadFullyAt.simps [of w fd off n out])
    ultimately show ?thesis using prefix_take [OF "1.prems"(3) len] by simp
  next
    case True
    obtain x w1 where p: "pread w fd (off + of_nat (length out)) (n - length out) = (x, w1)" by force
    note sc = pread_script [OF p]
    note unf = ReadFullyAt.simps [of w fd off n out]
    note IH = "1.IH" [OF True refl p [symmetric]]
    show ?thesis
    proof (cases x)
      case (Inl sr)
      show ?thesis
      proof (cases sr)
        case Eintr
        have "ReadFullyAt w1 fd off n out = (r, w')" using "1.prems"(1) True p Inl Eintr by (simp add: unf)
        from IH(1) [OF Inl Eintr this "1.prems"(2-)] sc show ?thesis by simp
      qed (use "1.prems"(1) True p Inl sc in \<open>auto simp: unf PosixError_def\<close>)
    next
      case (Inr got)
      have u: "unat (off + of_nat (length out)) = unat off + length out"
        using "1.prems"(2,4) by (simp add: unat_word_ariths unat_of_nat_small)
      have g: "prefix got (drop (length out) (drop (unat off) fd))" "length got \<le> n - length out"
        using pread_got [OF p [unfolded Inr]] u by (simp_all add: add.commute)
      show ?thesis
      proof (cases "got = []")
        case True
        with "1.prems"(1) \<open>length out < n\<close> p Inr sc show ?thesis by (auto simp: unf)
      next
        case False
        have "ReadFullyAt w1 fd off n (out @ got) = (r, w')"
          using "1.prems"(1) True p Inr False by (simp add: unf)
        moreover have "length (out @ got) \<le> n" using g(2) True by simp
        ultimately have "files w' = files w1 \<and> (\<forall>buf. r = Inr buf \<longrightarrow> buf = take n (drop (unat off) fd) \<and> length buf = n) \<and>
            (\<forall>s. r = Inl s \<longrightarrow> \<not> ok s)"
          by (intro IH(2) [OF Inr False _ "1.prems"(2) prefix_more [OF "1.prems"(3) g(1)]])
        with sc show ?thesis by simp
      qed
    qed
  qed
qed

lemma ReadFullyAt_no_failure:
  assumes "no_failure w" "unat off + n \<le> length fd" "length fd < 2 ^ 63"
    "prefix out (drop (unat off) fd)" "length out \<le> n"
  shows "\<exists>w'. ReadFullyAt w fd off n out = (Inr (take n (drop (unat off) fd)), w') \<and> no_failure w'"
  using assms
proof (induction w fd off n out rule: ReadFullyAt.induct)
  case (1 w fd off n out)
  show ?case
  proof (cases "length out < n")
    case False
    then have "length out = n" using "1.prems"(5) by simp
    then have "out = take n (drop (unat off) fd)" using prefix_take [OF "1.prems"(4)] by simp
    moreover have "ReadFullyAt w fd off n out = (Inr out, w)" using False by (simp add: ReadFullyAt.simps [of w fd off n out])
    ultimately show ?thesis using "1.prems"(1) by simp
  next
    case True
    obtain x w1 where p: "pread w fd (off + of_nat (length out)) (n - length out) = (x, w1)" by force
    have u: "unat (off + of_nat (length out)) = unat off + length out"
      using "1.prems"(2,3,5) by (simp add: unat_word_ariths unat_of_nat_small)
    then have "unat (off + of_nat (length out)) < 2 ^ 63" using "1.prems"(2,3) True by simp
    note nf = pread_no_failure [OF p "1.prems"(1) this]
    note unf = ReadFullyAt.simps [of w fd off n out]
    note IH = "1.IH" [OF True refl p [symmetric]]
    from nf consider "x = Inl Eintr" | got where "x = Inr got" by blast
    then show ?thesis
    proof cases
      case 1
      from IH(1) [OF this refl] nf "1.prems" True p 1 show ?thesis by (simp add: unf)
    next
      case (2 got)
      have g: "prefix got (drop (length out) (drop (unat off) fd))" "length got \<le> n - length out" "got \<noteq> []"
        using pread_got [OF p [unfolded 2]] u True "1.prems"(2) by (auto simp: add.commute)
      from IH(2) [OF 2 g(3) _ "1.prems"(2,3) prefix_more [OF "1.prems"(4) g(1)]] nf g True p 2 show ?thesis
        by (simp add: unf)
    qed
  qed
qed


section \<open>Blocks\<close>

text \<open>\<open>stored_block fd ie c\<close>: the index entry \<open>ie\<close> describes the block \<open>c\<close> of the file, with its checksum behind it.\<close>

definition stored_block :: "bytes \<Rightarrow> IndexEntry \<Rightarrow> bytes \<Rightarrow> bool" where
  "stored_block fd ie c \<longleftrightarrow> unat (ie_size ie) = length c \<and>
     prefix (c @ fixed32 (Value c)) (drop (unat (ie_offset ie)) fd) \<and>
     unat (ie_offset ie) + length c + 4 \<le> length fd \<and> length fd < 2 ^ 63"

text \<open>
  The invariant of what reads share: \<open>F\<close> says which block each file holds at each
  offset, and the cache agrees with it.
\<close>

abbreviation env_ok :: "(u64 \<Rightarrow> u64 \<Rightarrow> bytes option) \<Rightarrow> renv \<Rightarrow> bool" where
  "env_ok F e \<equiv> lru.coherent F (re_cache e)"

abbreviation env_quiet :: "renv \<Rightarrow> bool" where
  "env_quiet e \<equiv> no_failure (re_world e)"

lemma stored_block_take:
  assumes "stored_block fd ie c"
  shows "take (length c + 4) (drop (unat (ie_offset ie)) fd) = c @ fixed32 (Value c)"
  using assms by (auto simp: stored_block_def prefix_def)

text \<open>The part of \<open>ReadBlock\<close> that goes to the file.\<close>

lemma ReadBlock_file:
  assumes s: "stored_block (tb_fd tb) ie c"
    and r: "ReadFullyAt w (tb_fd tb) (ie_offset ie) (unat (ie_size ie) + kBlockTrailerSize) [] = (r, w')"
  shows "(r = Inr (c @ fixed32 (Value c)) \<or> (\<exists>s. r = Inl s \<and> \<not> ok s)) \<and> files w' = files w \<and>
    (no_failure w \<longrightarrow> no_failure w' \<and> r = Inr (c @ fixed32 (Value c)))"
proof -
  have b: "unat (ie_size ie) = length c" "unat (ie_offset ie) + length c + 4 \<le> length (tb_fd tb)"
    "length (tb_fd tb) < 2 ^ 63"
    using s by (simp_all add: stored_block_def)
  note r = r [unfolded b(1) kBlockTrailerSize_def]
  have "unat (ie_offset ie) + (length c + 4) < 2 ^ 64" using b by simp
  from ReadFullyAt_spec [OF r this]
  have spec: "files w' = files w" "\<And>buf. r = Inr buf \<Longrightarrow> buf = c @ fixed32 (Value c)" "\<And>s. r = Inl s \<Longrightarrow> \<not> ok s"
    using stored_block_take [OF s] by simp_all
  have "no_failure w \<Longrightarrow> \<exists>w''. (r, w') = (Inr (c @ fixed32 (Value c)), w'') \<and> no_failure w''"
    using ReadFullyAt_no_failure [of w "ie_offset ie" "length c + 4" "tb_fd tb" "[]"] b
    unfolding r stored_block_take [OF s] by simp
  then have "no_failure w \<longrightarrow> no_failure w' \<and> r = Inr (c @ fixed32 (Value c))" by simp
  moreover have "r = Inr (c @ fixed32 (Value c)) \<or> (\<exists>s. r = Inl s \<and> \<not> ok s)"
    using spec(2,3) by (cases r) auto
  ultimately show ?thesis using spec(1) by simp
qed

lemma ReadBlock_spec:
  assumes s: "stored_block (tb_fd tb) ie c" and F: "cacheable \<and> tb_cached tb \<Longrightarrow> F (tb_file_number tb) (ie_offset ie) = Some c"
    and ok: "env_ok F e" and r: "ReadBlock e tb ie cacheable = (r, e')"
  shows "env_ok F e' \<and> (env_quiet e \<longrightarrow> env_quiet e' \<and> r = Inr c) \<and> (r = Inr c \<or> (\<exists>s. r = Inl s \<and> \<not> ok s)) \<and>
    files (re_world e') = files (re_world e) \<and> re_overrun e' = re_overrun e"
proof -
  define use where "use \<longleftrightarrow> cacheable \<and> tb_cached tb"
  obtain cached cc where l: "bc_Lookup (re_cache e) (tb_file_number tb) (ie_offset ie) = (cached, cc)" by force
  define e1 where "e1 = (if use then e\<lparr>re_cache := cc\<rparr> else e)"
  define hit where "hit = (if use then cached else None)"
  have e1: "env_ok F e1" "re_world e1 = re_world e" "re_overrun e1 = re_overrun e"
    and hit: "\<And>v. hit = Some v \<Longrightarrow> v = c"
    using lru.coherent_look [OF ok l] ok F by (auto simp: e1_def hit_def use_def split: if_splits)
  have b: "\<not> 2 ^ 64 \<le> unat (ie_size ie) + kBlockTrailerSize" "unat (ie_size ie) = length c"
    using s by (auto simp: stored_block_def kBlockTrailerSize_def)
  obtain x w where x: "ReadFullyAt (re_world e1) (tb_fd tb) (ie_offset ie) (unat (ie_size ie) + kBlockTrailerSize) [] = (x, w)"
    by force
  note rf = ReadBlock_file [OF s x]
  have unf: "ReadBlock e tb ie cacheable = (case hit of
      Some block \<Rightarrow> (Inr block, count_stat (tb_path tb) (\<lambda>s. s\<lparr>cache_hits := cache_hits s + 1\<rparr>) e1)
    | None \<Rightarrow> (case x of Inl s \<Rightarrow> (Inl s, e1\<lparr>re_world := w\<rparr>) | Inr buf \<Rightarrow>
        if tb_verify_checksums tb \<and> Value (take (length c) buf) \<noteq> DecodeFixed32 (drop (length c) buf)
        then (Inl (Corruption (tb_path tb @ '': block checksum mismatch'')), e1\<lparr>re_world := w\<rparr>)
        else let e = count_stat (tb_path tb) (\<lambda>s. s\<lparr>blocks_read := blocks_read s + 1\<rparr>) (e1\<lparr>re_world := w\<rparr>) in
          if use then let (h, c) = bc_Insert (re_cache e) (tb_file_number tb) (ie_offset ie) (take (length c) buf)
                      in (Inr h, e\<lparr>re_cache := c\<rparr>)
          else (Inr (take (length c) buf), e)))"
    using l b(1) x unfolding ReadBlock_def Let_def b(2) use_def [symmetric]
    by (auto simp: e1_def hit_def split: option.split sum.split)
  show ?thesis
  proof (cases hit)
    case (Some v)
    then show ?thesis using r e1 hit unfolding unf by auto
  next
    case None
    show ?thesis
    proof (cases x)
      case (Inl s)
      then show ?thesis using r e1 rf None unfolding unf by auto
    next
      case (Inr buf)
      then have buf: "take (length c) buf = c" "DecodeFixed32 (drop (length c) buf) = Value c"
        using rf DecodeFixed32_append [of "Value c" "[]"] by auto
      obtain h c2 where i: "bc_Insert (re_cache e1) (tb_file_number tb) (ie_offset ie) c = (h, c2)" by force
      have "use \<Longrightarrow> lru.coherent F c2 \<and> h = c"
        using lru.coherent_ins [OF e1(1) F i] by (simp add: use_def)
      then show ?thesis using r e1 rf None Inr i unfolding unf by (auto simp: buf Let_def split: if_splits)
    qed
  qed
qed


section \<open>Well-formed tables\<close>

text \<open>
  \<open>table_ok F tb ess\<close>: the open table \<open>tb\<close> holds the versions \<open>concat ess\<close>, one
  data block per element of \<open>ess\<close>. The index describes the blocks and carries
  their last keys, and the filter lets every stored user key through.
\<close>

definition block_ok_at :: "(u64 \<Rightarrow> u64 \<Rightarrow> bytes option) \<Rightarrow> Table \<Rightarrow> IndexEntry \<Rightarrow> version list \<Rightarrow> bool" where
  "block_ok_at F tb ie es \<longleftrightarrow> es \<noteq> [] \<and> ie_last_key ie = fst (last es) \<and>
     (\<exists>c. stored_block (tb_fd tb) ie c \<and> block_opened (new_BlockReader c) es \<and>
        (tb_cached tb \<longrightarrow> F (tb_file_number tb) (ie_offset ie) = Some c))"

definition table_ok :: "(u64 \<Rightarrow> u64 \<Rightarrow> bytes option) \<Rightarrow> Table \<Rightarrow> version list list \<Rightarrow> bool" where
  "table_ok F tb ess \<longleftrightarrow> list_all2 (block_ok_at F tb) (tb_index tb) ess \<and> keys_sorted (concat ess) \<and>
     (\<forall>e \<in> set (concat ess). MayContain (tb_bloom tb) (ExtractUserKey (fst e)))"

lemma table_ok_length: "table_ok F tb ess \<Longrightarrow> length (tb_index tb) = length ess"
  by (auto simp: table_ok_def dest: list_all2_lengthD)

lemma table_ok_nth: "table_ok F tb ess \<Longrightarrow> i < length ess \<Longrightarrow> block_ok_at F tb (tb_index tb ! i) (ess ! i)"
  by (auto simp: table_ok_def list_all2_conv_all_nth)

text \<open>A block read of a well-formed table: the reader is open on the block's versions, or the read failed.\<close>

lemma ReadBlock_table:
  assumes t: "table_ok F tb ess" and i: "i < length ess" and e: "env_ok F e"
    and r: "ReadBlock e tb (tb_index tb ! i) True = (r, e')"
  shows "env_ok F e' \<and> (env_quiet e \<longrightarrow> env_quiet e') \<and>
    ((\<exists>c. r = Inr c \<and> block_opened (new_BlockReader c) (ess ! i)) \<or> (\<exists>s. r = Inl s \<and> \<not> ok s) \<and> \<not> env_quiet e)"
proof -
  obtain c where c: "stored_block (tb_fd tb) (tb_index tb ! i) c" "block_opened (new_BlockReader c) (ess ! i)"
    "tb_cached tb \<Longrightarrow> F (tb_file_number tb) (ie_offset (tb_index tb ! i)) = Some c"
    using table_ok_nth [OF t i] by (auto simp: block_ok_at_def)
  from ReadBlock_spec [OF c(1) _ e r] c(2,3) show ?thesis by auto
qed

subsection \<open>Index search\<close>

text \<open>The block the search picks is the one a seek in the whole table would end in.\<close>

lemma table_seek:
  fixes target tb
  defines "n \<equiv> IndexSearch (tb_index tb) target 0 (length (tb_index tb))"
  assumes t: "table_ok F tb ess"
  shows "n \<le> length ess \<and> dropWhile (below target) (concat ess) =
    (if n < length ess then dropWhile (below target) (ess ! n) @ concat (drop (Suc n) ess) else []) \<and>
    (n < length ess \<longrightarrow> dropWhile (below target) (ess ! n) \<noteq> [])"
proof -
  have "keys_sorted (concat ess)" using t by (simp add: table_ok_def)
  moreover have "ess ! i \<noteq> []"
    "CompareInternalKey (ie_last_key (tb_index tb ! i)) target < 0 \<longleftrightarrow> below target (last (ess ! i))" if "i < length ess" for i
    using table_ok_nth [OF t that] by (auto simp: block_ok_at_def key_order)
  ultimately show ?thesis
    unfolding n_def IndexSearch_def table_ok_length [OF t] by (intro runs_seek) simp_all
qed

section \<open>Point lookup\<close>

text \<open>The end of \<open>Get\<close>, on a block reader that has been positioned.\<close>

lemma shows_entry_answer:
  "shows_entry b rest \<Longrightarrow>
     (if \<not> r_valid b then None
      else if ExtractUserKey (r_key b) \<noteq> key then None
      else if ExtractValueType (r_key b) = kDeletion then Some Deleted
      else Some (Found (r_value b))) =
     (case rest of [] \<Rightarrow> None | e # _ \<Rightarrow> if ExtractUserKey (fst e) \<noteq> key then None else Some (answer e))"
  by (auto simp: shows_entry_def answer_def split: list.splits)

lemma table_Get_seek_lookup:
  assumes t: "table_ok F tb ess" and e: "env_ok F e" and ok: "\<forall>v \<in> set (concat ess). version_ok v"
    and seq: "seq \<le> kMaxSequenceNumber" and g: "table_Get e tb key seq = (r, e')"
  shows "env_ok F e' \<and> (env_quiet e \<longrightarrow> env_quiet e') \<and>
    (r = seek_lookup (concat ess) key seq \<or> (\<exists>s. r = Some (Failed s) \<and> \<not> ok s) \<and> \<not> env_quiet e)"
proof -
  note len = table_ok_length [OF t]
  define n where "n = IndexSearch (tb_index tb) (LookupKey key seq) 0 (length ess)"
  have tgt: "LookupKeyBuffer (replicate kInlineCapacity 0) key seq kValue = LookupKey key seq"
    by (simp add: LookupKeyBuffer_eq LookupKey_def)
  note sk = table_seek [OF t, of "LookupKey key seq", unfolded len, folded n_def]
  show ?thesis
  proof (cases "MayContain (tb_bloom tb) key")
    case False
    then have "\<forall>v \<in> set (concat ess). ExtractUserKey (fst v) \<noteq> key" using t unfolding table_ok_def by blast
    then have "visible (set (concat ess)) key seq = {}" unfolding visible_def by blast
    moreover have "resolves (set (concat ess)) key seq (seek_lookup (concat ess) key seq)"
      using t ok seq by (intro seek_lookup_resolves) (simp_all add: versions_ok_def table_ok_def)
    ultimately have "seek_lookup (concat ess) key seq = None"
      by (auto simp: resolves_def newest_def split: option.splits)
    then show ?thesis using False g e by (auto simp: table_Get_def)
  next
    case may: True
    show ?thesis
    proof (cases "n < length ess")
      case False
      then have "dropWhile (below (LookupKey key seq)) (concat ess) = []" using sk by presburger
      then have "seek_lookup (concat ess) key seq = None" unfolding seek_lookup_def by (simp only: list.case)
      then show ?thesis using may g e False
        by (simp add: table_Get_def tgt Let_def n_def [symmetric] len)
    next
      case True
      obtain x e1 where x: "ReadBlock e tb (tb_index tb ! n) True = (x, e1)" by force
      note rb = ReadBlock_table [OF t True e x]
      show ?thesis
      proof (cases x)
        case (Inl s)
        then show ?thesis using may g rb x True
          by (auto simp: table_Get_def tgt Let_def n_def [symmetric] len)
      next
        case (Inr c)
        then have o: "block_opened (new_BlockReader c) (ess ! n)" using rb by auto
        define b rest where "b = br_Seek (new_BlockReader c) (LookupKey key seq)"
          and "rest = dropWhile (below (LookupKey key seq)) (ess ! n)"
        have sh: "shows_entry b rest" unfolding b_def rest_def by (rule block_rep_shows [OF block_rep_seek [OF o]])
        then have "r_status (new_BlockReader c) = OK" "r_status b = OK"
          using o by (auto simp: block_opened_def reader_on_def shows_entry_def)
        then have "(r, e') = (if \<not> r_valid b then None
             else if ExtractUserKey (r_key b) \<noteq> key then None
             else if ExtractValueType (r_key b) = kDeletion then Some Deleted
             else Some (Found (r_value b)), e1)"
          using may g x Inr True
          by (auto simp: table_Get_def tgt Let_def n_def [symmetric] len b_def [symmetric] split: if_splits)
        moreover have "seek_lookup (concat ess) key seq =
            (case rest of [] \<Rightarrow> None | e # _ \<Rightarrow> if ExtractUserKey (fst e) \<noteq> key then None else Some (answer e))"
          using sk True by (auto simp: seek_lookup_def rest_def [symmetric] split: list.splits)
        ultimately have "r = seek_lookup (concat ess) key seq \<and> e' = e1"
          unfolding shows_entry_answer [OF sh] by simp
        then show ?thesis using rb by simp
      qed
    qed
  qed
qed


section \<open>The table cursor\<close>

definition ti_opened :: "(u64 \<Rightarrow> u64 \<Rightarrow> bytes option) \<Rightarrow> TableIter \<Rightarrow> version list \<Rightarrow> bool" where
  "ti_opened F it es \<longleftrightarrow> ok (ti_status it) \<and> (\<exists>ess. table_ok F (ti_table it) ess \<and> es = concat ess)"

definition ti_at :: "TableIter \<Rightarrow> version list list \<Rightarrow> version list \<Rightarrow> bool" where
  "ti_at it ess rest \<longleftrightarrow>
     (if ti_valid it
      then ti_block_index it < length ess \<and> (\<exists>r. r \<noteq> [] \<and> block_rep (ti_reader it) (ess ! ti_block_index it) r \<and>
             rest = r @ concat (drop (Suc (ti_block_index it)) ess))
      else rest = [])"

definition ti_rep :: "(u64 \<Rightarrow> u64 \<Rightarrow> bytes option) \<Rightarrow> TableIter \<Rightarrow> version list \<Rightarrow> version list \<Rightarrow> bool" where
  "ti_rep F it es rest \<longleftrightarrow> ok (ti_status it) \<and>
     (\<exists>ess. table_ok F (ti_table it) ess \<and> es = concat ess \<and> ti_at it ess rest)"

definition ti_err :: "TableIter \<Rightarrow> bool" where
  "ti_err it \<longleftrightarrow> \<not> ti_valid it \<and> \<not> ok (ti_status it)"

text \<open>What \<open>LoadBlock\<close> leaves in front of the cursor.\<close>

definition loaded :: "version list list \<Rightarrow> nat \<Rightarrow> bytes option \<Rightarrow> version list" where
  "loaded ess i target =
     (if i < length ess
      then (case target of None \<Rightarrow> ess ! i | Some t \<Rightarrow> dropWhile (below t) (ess ! i)) @ concat (drop (Suc i) ess)
      else [])"

lemma loaded_None: "loaded ess i None = concat (drop i ess)"
  by (auto simp: loaded_def Cons_nth_drop_Suc [symmetric])

text \<open>One round of its loop.\<close>

lemma LoadBlock_round:
  assumes t: "table_ok F (ti_table it) ess" and i: "ti_block_index it < length ess" and e: "env_ok F e"
    and r: "LoadBlock e it target = (e', it')"
  obtains (failed) s where "\<not> ok s" "\<not> env_quiet e" "it' = it\<lparr>ti_status := s, ti_valid := False\<rparr>" "env_ok F e'"
  | (stands) b rest where "block_rep b (ess ! ti_block_index it) rest"
      "rest = (case target of None \<Rightarrow> ess ! ti_block_index it | Some t \<Rightarrow> dropWhile (below t) (ess ! ti_block_index it))"
      "rest \<noteq> []" "it' = it\<lparr>ti_status := OK, ti_reader := b, ti_valid := True\<rparr>" "env_ok F e'" "env_quiet e \<longrightarrow> env_quiet e'"
  | (goes_on) b t e1 where "target = Some t" "dropWhile (below t) (ess ! ti_block_index it) = []"
      "LoadBlock e1 (it\<lparr>ti_status := OK, ti_reader := b, ti_block_index := ti_block_index it + 1\<rparr>) None = (e', it')"
      "env_ok F e1" "env_quiet e \<longrightarrow> env_quiet e1"
proof -
  let ?i = "ti_block_index it"
  obtain x e1 where x: "ReadBlock e (ti_table it) (tb_index (ti_table it) ! ?i) True = (x, e1)" by force
  note rb = ReadBlock_table [OF t i e x]
  note unf = LoadBlock.simps [of e it target]
  show ?thesis
  proof (cases x)
    case (Inl s)
    then show ?thesis using failed [of s] rb r x i by (auto simp: unf table_ok_length [OF t])
  next
    case (Inr c)
    then have o: "block_opened (new_BlockReader c) (ess ! ?i)" using rb by auto
    define b where "b = (case target of Some t \<Rightarrow> br_Seek (new_BlockReader c) t | None \<Rightarrow> br_SeekToFirst (new_BlockReader c))"
    define rest where "rest = (case target of None \<Rightarrow> ess ! ?i | Some t \<Rightarrow> dropWhile (below t) (ess ! ?i))"
    have b: "block_rep b (ess ! ?i) rest"
      using block_rep_first [OF o] block_rep_seek [OF o] by (simp add: b_def rest_def split: option.split)
    note sh = block_rep_shows [OF b]
    have st: "r_status (new_BlockReader c) = OK" using o by (auto simp: block_opened_def reader_on_def)
    have "LoadBlock e it target =
        (if r_valid b then (e1, it\<lparr>ti_status := OK, ti_reader := b, ti_valid := True\<rparr>)
         else LoadBlock e1 (it\<lparr>ti_status := OK, ti_reader := b, ti_block_index := ?i + 1\<rparr>) None)"
      unfolding unf using i x Inr st sh
      by (cases target) (simp_all add: table_ok_length [OF t] b_def shows_entry_def Let_def split: list.splits)
    moreover have "ess ! ?i \<noteq> []" using table_ok_nth [OF t i] by (simp add: block_ok_at_def)
    ultimately show ?thesis
      using r rb Inr sh stands [OF b rest_def] goes_on [of _ e1 b]
      by (cases "rest = []") (auto simp: shows_entry_def rest_def split: list.splits option.splits)
  qed
qed


lemma LoadBlock_end:
  "length (tb_index (ti_table it)) \<le> ti_block_index it \<Longrightarrow> LoadBlock e it target = (e, it\<lparr>ti_valid := False\<rparr>)"
  by (subst LoadBlock.simps) simp

lemma ti_at_stands:
  "i < length ess \<Longrightarrow> block_rep b (ess ! i) rest \<Longrightarrow> rest \<noteq> [] \<Longrightarrow> ti_block_index it = i \<Longrightarrow>
     ti_at (it\<lparr>ti_status := s, ti_reader := b, ti_valid := True\<rparr>) ess (rest @ concat (drop (Suc i) ess))"
  by (auto simp: ti_at_def)

lemma LoadBlock_first:
  assumes t: "table_ok F (ti_table it) ess" and e: "env_ok F e" and s: "ok (ti_status it)"
    and r: "LoadBlock e it None = (e', it')"
  shows "env_ok F e' \<and> (env_quiet e \<longrightarrow> env_quiet e') \<and> ti_table it' = ti_table it \<and>
    (ok (ti_status it') \<and> ti_at it' ess (loaded ess (ti_block_index it) None) \<or> ti_err it' \<and> \<not> env_quiet e)"
proof (cases "ti_block_index it < length ess")
  case True
  show ?thesis
  proof (cases rule: LoadBlock_round [OF t True e r, case_names failed stands goes_on])
    case (failed s)
    then show ?thesis by (simp add: ti_err_def)
  next
    case (stands b rest)
    from ti_at_stands [OF True stands(1,3) refl] stands True show ?thesis
      by (simp add: loaded_def)
  qed simp
next
  case False
  then show ?thesis using r e s by (auto simp: LoadBlock_end table_ok_length [OF t] loaded_def ti_at_def)
qed

lemma LoadBlock_spec:
  assumes t: "table_ok F (ti_table it) ess" and e: "env_ok F e" and s: "ok (ti_status it)"
    and r: "LoadBlock e it target = (e', it')"
  shows "env_ok F e' \<and> (env_quiet e \<longrightarrow> env_quiet e') \<and> ti_table it' = ti_table it \<and>
    (ok (ti_status it') \<and> ti_at it' ess (loaded ess (ti_block_index it) target) \<or> ti_err it' \<and> \<not> env_quiet e)"
proof (cases "ti_block_index it < length ess")
  case True
  show ?thesis
  proof (cases rule: LoadBlock_round [OF t True e r, case_names failed stands goes_on])
    case (failed s)
    then show ?thesis by (simp add: ti_err_def)
  next
    case (stands b rest)
    from ti_at_stands [OF True stands(1,3) refl] stands True show ?thesis
      by (simp add: loaded_def)
  next
    case (goes_on b k e1)
    let ?it = "it\<lparr>ti_status := OK, ti_reader := b, ti_block_index := ti_block_index it + 1\<rparr>"
    have "loaded ess (ti_block_index it) target = loaded ess (ti_block_index it + 1) None"
      using goes_on True by (simp add: loaded_def [of _ _ "Some k"] loaded_None)
    then show ?thesis using LoadBlock_first [of F ?it, OF _ goes_on(4) _ goes_on(3)] t goes_on(5) by auto
  qed
next
  case False
  then show ?thesis using r e s by (auto simp: LoadBlock_end table_ok_length [OF t] loaded_def ti_at_def)
qed

lemma LoadBlock_rep:
  assumes "table_ok F (ti_table it) ess" "env_ok F e" "ok (ti_status it)" "LoadBlock e it target = (e', it')"
    "rest = loaded ess (ti_block_index it) target"
  shows "env_ok F e' \<and> (env_quiet e \<longrightarrow> env_quiet e') \<and> (ti_rep F it' (concat ess) rest \<or> ti_err it' \<and> \<not> env_quiet e)"
  using LoadBlock_spec [OF assms(1-4)] assms(1,5) by (auto simp: ti_rep_def)

lemma ti_first_rep:
  assumes "env_ok F e" "ti_opened F it es" "ti_SeekToFirst e it = (e', it')"
  shows "env_ok F e' \<and> (env_quiet e \<longrightarrow> env_quiet e') \<and> (ti_rep F it' es es \<or> ti_err it' \<and> \<not> env_quiet e)"
proof -
  obtain ess where t: "table_ok F (ti_table it) ess" "es = concat ess" "ok (ti_status it)"
    using assms(2) by (auto simp: ti_opened_def)
  from LoadBlock_rep [of F "it\<lparr>ti_block_index := 0\<rparr>" ess e None] t assms(1,3) show ?thesis
    by (simp add: ti_SeekToFirst_def loaded_None)
qed

lemma ti_seek_rep:
  assumes "env_ok F e" "ti_opened F it es" "ti_Seek e it k = (e', it')"
  shows "env_ok F e' \<and> (env_quiet e \<longrightarrow> env_quiet e') \<and>
    (ti_rep F it' es (dropWhile (below k) es) \<or> ti_err it' \<and> \<not> env_quiet e)"
proof -
  obtain ess where t: "table_ok F (ti_table it) ess" "es = concat ess" "ok (ti_status it)"
    using assms(2) by (auto simp: ti_opened_def)
  let ?n = "IndexSearch (tb_index (ti_table it)) k 0 (length (tb_index (ti_table it)))"
  have "dropWhile (below k) es = loaded ess ?n (Some k)"
    using table_seek [OF t(1), of k] t(2) by (simp only: loaded_def option.case)
  then show ?thesis
    using LoadBlock_rep [of F "it\<lparr>ti_block_index := ?n\<rparr>" ess e "Some k"] t assms(1,3) by (simp add: ti_Seek_def Let_def)
qed

lemma ti_next_rep:
  assumes "env_ok F e" "ti_rep F it es (x # rest)" "ti_Next e it = (e', it')"
  shows "env_ok F e' \<and> (env_quiet e \<longrightarrow> env_quiet e') \<and> (ti_rep F it' es rest \<or> ti_err it' \<and> \<not> env_quiet e)"
proof -
  obtain ess where t: "table_ok F (ti_table it) ess" "es = concat ess" "ok (ti_status it)" "ti_at it ess (x # rest)"
    using assms(2) by (auto simp: ti_rep_def)
  let ?i = "ti_block_index it" and ?b = "br_Next (ti_reader it)"
  have v: "ti_valid it" and i: "?i < length ess" using t(4) by (auto simp: ti_at_def split: if_splits)
  obtain y r where r: "block_rep (ti_reader it) (ess ! ?i) (y # r)" "x # rest = y # r @ concat (drop (Suc ?i) ess)"
    using t(4) v by (auto simp: ti_at_def neq_Nil_conv)
  note b = block_rep_next [OF r(1)] and sh = block_rep_shows [OF block_rep_next [OF r(1)]]
  show ?thesis
  proof (cases "r = []")
    case True
    then have "LoadBlock e (it\<lparr>ti_reader := ?b, ti_block_index := ?i + 1\<rparr>) None = (e', it')"
      using assms(3) v sh by (simp add: ti_Next_def shows_entry_def)
    from LoadBlock_rep [OF _ assms(1) _ this, of ess rest] t r(2) True show ?thesis by (simp add: loaded_None)
  next
    case False
    then have "it' = it\<lparr>ti_reader := ?b\<rparr> \<and> e' = e"
      using assms(3) v sh by (auto simp: ti_Next_def shows_entry_def neq_Nil_conv)
    moreover have "ti_at (it\<lparr>ti_reader := ?b\<rparr>) ess rest" using False b i v r(2) by (auto simp: ti_at_def)
    ultimately show ?thesis using t assms(1) by (auto simp: ti_rep_def)
  qed
qed

lemma ti_rep_suffix: "ti_rep F it es rest \<Longrightarrow> \<exists>used. es = used @ rest"
proof -
  assume "ti_rep F it es rest"
  then obtain ess where "es = concat ess" and a: "ti_at it ess rest" by (auto simp: ti_rep_def)
  show ?thesis
  proof (cases "ti_valid it")
    case True
    then obtain r where r: "ti_block_index it < length ess" "block_rep (ti_reader it) (ess ! ti_block_index it) r"
      "rest = r @ concat (drop (Suc (ti_block_index it)) ess)" using a by (auto simp: ti_at_def)
    obtain used where "ess ! ti_block_index it = used @ r" using block_cursor.rep_suffix [OF r(2)] by blast
    then have "es = (concat (take (ti_block_index it) ess) @ used) @ rest"
      using concat_split [OF r(1)] r(3) \<open>es = concat ess\<close> by simp
    then show ?thesis by blast
  qed (use a in \<open>simp add: ti_at_def\<close>)
qed

lemma ti_rep_head: "ti_rep F it es (x # rest) \<Longrightarrow> ti_key it = fst x \<and> ti_value it = snd x"
proof -
  assume "ti_rep F it es (x # rest)"
  then obtain es' r where "block_rep (ti_reader it) es' (x # r)"
    by (auto simp: ti_rep_def ti_at_def neq_Nil_conv split: if_splits)
  from block_cursor.rep_head [OF this] show ?thesis by (simp add: ti_key_def ti_value_def)
qed

interpretation table_cursor: strict_cursor "env_ok F" env_quiet "ti_opened F" "ti_rep F" "\<lambda>it n. ti_err it"
  ti_valid ti_key ti_value ti_status ti_SeekToFirst ti_Seek ti_Next for F
proof
  show "\<And>s es rest. ti_rep F s es rest \<Longrightarrow> ti_opened F s es" by (auto simp: ti_rep_def ti_opened_def)
  show "\<And>s es. ti_opened F s es \<Longrightarrow> keys_le es" by (auto simp: ti_opened_def table_ok_def intro!: keys_sorted_le)
  show "\<And>s es rest. ti_rep F s es rest \<Longrightarrow> ti_valid s \<longleftrightarrow> rest \<noteq> []" by (auto simp: ti_rep_def ti_at_def split: if_splits)
  show "\<And>s es rest. ti_rep F s es rest \<Longrightarrow> ok (ti_status s)" by (simp add: ti_rep_def)
qed ((rule ti_rep_suffix ti_rep_head ti_first_rep ti_seek_rep ti_next_rep; assumption) | simp add: ti_err_def)+

end
