(* ===== verification/Table_Builder.thy ===== *)
theory Table_Builder
  imports Table_Reader
begin

text \<open>
  The writing half of \<open>src/sstable.cpp\<close>: \<open>TableBuilder\<close>. The builder fills one
  data block at a time, writes it with its checksum when it is large enough and
  notes its last key and place in the index; \<open>Finish\<close> appends filter, index and
  footer. The main result is the round trip: a table that was finished without an
  error opens as a well-formed table over exactly the versions that were added.
\<close>

section \<open>Definitions\<close>

record TableBuilder =
  tbl_options :: Options
  tbl_path :: string
  tbl_fd :: "string option"
  tbl_finished :: bool
  tbl_block :: BlockBuilder
  tbl_index_block :: bytes
  tbl_last_key_in_block :: bytes
  tbl_filter_keys :: "bytes list"
  tbl_file_size :: u64
  tbl_num_entries :: u64
  tbl_smallest_key :: bytes
  tbl_largest_key :: bytes

definition SyncFd :: "world \<Rightarrow> status \<times> world" where
  "SyncFd w = (case simple_call w of (Some e, w) \<Rightarrow> (PosixError ''fsync'' e, w) | (None, w) \<Rightarrow> (OK, w))"

definition new_TableBuilder :: "Options \<Rightarrow> TableBuilder" where
  "new_TableBuilder opt = \<lparr>tbl_options = opt, tbl_path = [], tbl_fd = None, tbl_finished = False,
     tbl_block = new_BlockBuilder (block_restart_interval opt), tbl_index_block = [],
     tbl_last_key_in_block = [], tbl_filter_keys = [], tbl_file_size = 0, tbl_num_entries = 0,
     tbl_smallest_key = [], tbl_largest_key = []\<rparr>"

definition tbl_Open :: "world \<Rightarrow> TableBuilder \<Rightarrow> string \<Rightarrow> status \<times> TableBuilder \<times> world" where
  "tbl_Open w b path =
     (case simple_call w of
        (Some e, w) \<Rightarrow> (PosixError (''open '' @ path) e, b, w)
      | (None, w) \<Rightarrow> (OK, b\<lparr>tbl_fd := Some path, tbl_path := path\<rparr>, put_file w path []))"

text \<open>Offset and size of the written block are the two output parameters.\<close>

definition WriteBlock ::
  "world \<Rightarrow> TableBuilder \<Rightarrow> bytes \<Rightarrow> status \<times> u64 \<times> u64 \<times> TableBuilder \<times> world" where
  "WriteBlock w b contents =
     (let offset = tbl_file_size b; size = of_nat (length contents) in
      case tbl_fd b of
        None \<Rightarrow> (PosixError ''write'' ''Bad file descriptor'', offset, size, b, w)
      | Some fd \<Rightarrow>
        let (s, w) = WriteFully w fd contents in
        if \<not> ok s then (s, offset, size, b, w)
        else let trailer = PutFixed32 [] (Value contents);
                 (s, w) = WriteFully w fd trailer
          in if \<not> ok s then (s, offset, size, b, w)
             else (OK, offset, size,
                   b\<lparr>tbl_file_size := tbl_file_size b + of_nat (length contents + kBlockTrailerSize)\<rparr>, w))"

definition FlushDataBlock :: "world \<Rightarrow> TableBuilder \<Rightarrow> status \<times> TableBuilder \<times> world" where
  "FlushDataBlock w b =
     (if bb_empty (tbl_block b) then (OK, b, w)
      else let (contents, block) = bb_Finish (tbl_block b);
               (s, offset, size, b, w) = WriteBlock w (b\<lparr>tbl_block := block\<rparr>) contents
        in if \<not> ok s then (s, b, w)
           else let index = PutLengthPrefixed (tbl_index_block b) (tbl_last_key_in_block b);
                    index = PutFixed64 index offset;
                    index = PutFixed64 index size
             in (OK, b\<lparr>tbl_index_block := index\<rparr>, w))"

text \<open>The assertion that keys arrive in increasing order is a precondition.\<close>

definition tbl_Add :: "world \<Rightarrow> TableBuilder \<Rightarrow> bytes \<Rightarrow> bytes \<Rightarrow> status \<times> TableBuilder \<times> world" where
  "tbl_Add w b internal_key val =
     (if tbl_fd b = None then (InvalidArgument ''TableBuilder not open'', b, w)
      else let b = (if tbl_num_entries b = 0 then b\<lparr>tbl_smallest_key := internal_key\<rparr> else b);
               b = b\<lparr>tbl_largest_key := internal_key, tbl_last_key_in_block := internal_key,
                     tbl_num_entries := tbl_num_entries b + 1,
                     tbl_filter_keys := tbl_filter_keys b @ [ExtractUserKey internal_key],
                     tbl_block := bb_Add (tbl_block b) internal_key val\<rparr>
        in if block_size_bytes (tbl_options b) \<le> CurrentSizeEstimate (tbl_block b)
           then FlushDataBlock w b else (OK, b, w))"

definition tbl_Finish :: "world \<Rightarrow> TableBuilder \<Rightarrow> status \<times> TableBuilder \<times> world" where
  "tbl_Finish w b =
     (case tbl_fd b of
        None \<Rightarrow> (InvalidArgument ''TableBuilder not open'', b, w)
      | Some fd \<Rightarrow>
        let (s, b, w) = FlushDataBlock w b in
        if \<not> ok s then (s, b, w)
        else let bloom = Build (tbl_filter_keys b) (bloom_bits_per_key (tbl_options b));
                 (s, bloom_offset, bloom_size, b, w) = WriteBlock w b bloom
          in if \<not> ok s then (s, b, w)
             else let (s, index_offset, index_size, b, w) = WriteBlock w b (tbl_index_block b)
               in if \<not> ok s then (s, b, w)
                  else let footer = PutFixed64 [] index_offset;
                           footer = PutFixed64 footer index_size;
                           footer = PutFixed64 footer bloom_offset;
                           footer = PutFixed64 footer bloom_size;
                           footer = PutFixed64 footer kTableMagic;
                           (s, w) = WriteFully w fd footer
                    in if \<not> ok s then (s, b, w)
                       else let b = b\<lparr>tbl_file_size := tbl_file_size b + of_nat (length footer)\<rparr>;
                                (s, w) = SyncFd w
                         in if \<not> ok s then (s, b, w)
                            else let b = b\<lparr>tbl_finished := True, tbl_fd := None\<rparr>
                              in case simple_call w of
                                   (Some e, w) \<Rightarrow> (PosixError ''close'' e, b, w)
                                 | (None, w) \<Rightarrow> (OK, b, w))"

definition Abandon :: "world \<Rightarrow> TableBuilder \<Rightarrow> TableBuilder \<times> world" where
  "Abandon w b =
     (let (b, w) = (if tbl_fd b \<noteq> None then (b\<lparr>tbl_fd := None\<rparr>, snd (simple_call w)) else (b, w))
      in if tbl_path b \<noteq> [] \<and> \<not> tbl_finished b
         then (case simple_call w of
                 (Some e, w) \<Rightarrow> (b, w)
               | (None, w) \<Rightarrow> (b, unlink w (tbl_path b)))
         else (b, w))"

definition destroy_TableBuilder :: "world \<Rightarrow> TableBuilder \<Rightarrow> TableBuilder \<times> world" where
  "destroy_TableBuilder w b = (if tbl_fd b \<noteq> None \<and> \<not> tbl_finished b then Abandon w b else (b, w))"

text \<open>Adding a sequence of versions, as the flush and the compaction do, up to the first error.\<close>

fun tbl_adds :: "world \<Rightarrow> TableBuilder \<Rightarrow> version list \<Rightarrow> status \<times> TableBuilder \<times> world" where
  "tbl_adds w b [] = (OK, b, w)"
| "tbl_adds w b ((k, v) # es) =
     (let (s, b, w) = tbl_Add w b k v in if ok s then tbl_adds w b es else (s, b, w))"

section \<open>The format\<close>

definition framed :: "bytes \<Rightarrow> bytes" where
  "framed c = c @ fixed32 (Value c)"

text \<open>The data blocks of a file: contents and the versions stored in them.\<close>

type_synonym data_blocks = "(bytes \<times> version list) list"

definition data_bytes :: "data_blocks \<Rightarrow> bytes" where
  "data_bytes bs = concat (map (framed \<circ> fst) bs)"

fun index_entries :: "nat \<Rightarrow> data_blocks \<Rightarrow> IndexEntry list" where
  "index_entries off [] = []"
| "index_entries off ((c, es) # bs) =
     \<lparr>ie_last_key = fst (last es), ie_offset = of_nat off, ie_size = of_nat (length c)\<rparr> #
     index_entries (off + length c + 4) bs"

definition enc_entry :: "IndexEntry \<Rightarrow> bytes" where
  "enc_entry ie = PutLengthPrefixed [] (ie_last_key ie) @ fixed64 (ie_offset ie) @ fixed64 (ie_size ie)"

definition index_bytes :: "data_blocks \<Rightarrow> bytes" where
  "index_bytes bs = concat (map enc_entry (index_entries 0 bs))"

definition table_bytes :: "bytes \<Rightarrow> data_blocks \<Rightarrow> bytes" where
  "table_bytes bloom bs =
     (let d = length (data_bytes bs); i = d + length bloom + 4
      in data_bytes bs @ framed bloom @ framed (index_bytes bs) @
         fixed64 (of_nat i) @ fixed64 (of_nat (length (index_bytes bs))) @
         fixed64 (of_nat d) @ fixed64 (of_nat (length bloom)) @ fixed64 kTableMagic)"

lemma length_framed [simp, len]: "length (framed c) = length c + 4"
  by (simp add: framed_def)

lemma data_bytes_snoc [simp]: "data_bytes (bs @ [(c, es)]) = data_bytes bs @ framed c"
  by (simp add: data_bytes_def)

lemma data_bytes_Cons [simp]: "data_bytes ((c, es) # bs) = framed c @ data_bytes bs"
  by (simp add: data_bytes_def)

lemma data_bytes_Nil [simp]: "data_bytes [] = []"
  by (simp add: data_bytes_def)

lemma index_entries_append:
  "index_entries off (bs @ bs') = index_entries off bs @ index_entries (off + length (data_bytes bs)) bs'"
  by (induction off bs rule: index_entries.induct) (simp_all add: ac_simps)

lemma index_bytes_snoc:
  "index_bytes (bs @ [(c, es)]) = index_bytes bs @
     enc_entry \<lparr>ie_last_key = fst (last es), ie_offset = of_nat (length (data_bytes bs)), ie_size = of_nat (length c)\<rparr>"
  by (simp add: index_bytes_def index_entries_append)

lemma index_bytes_Nil [simp]: "index_bytes [] = []"
  by (simp add: index_bytes_def)

section \<open>What the builder has written\<close>

definition written_block :: "bytes \<times> version list \<Rightarrow> bool" where
  "written_block x \<longleftrightarrow> snd x \<noteq> [] \<and>
     (\<exists>b ps rs. builds b ps rs \<and> fst x = block_bytes ps rs \<and> snd x = stored_entries ps)"

definition all_versions :: "data_blocks \<Rightarrow> version list \<Rightarrow> version list" where
  "all_versions bs cur = concat (map snd bs) @ cur"

definition key_range :: "TableBuilder \<Rightarrow> version list \<Rightarrow> bool" where
  "key_range b es \<longleftrightarrow> (es \<noteq> [] \<longrightarrow> tbl_smallest_key b = fst (hd es) \<and> tbl_largest_key b = fst (last es))"

text \<open>
  The invariant of a builder in use: \<open>bs\<close> are the blocks in the file, \<open>cur\<close> is the
  content of the block under construction.
\<close>

definition tbl_writing ::
  "Options \<Rightarrow> string \<Rightarrow> world \<Rightarrow> TableBuilder \<Rightarrow> data_blocks \<Rightarrow> version list \<Rightarrow> bool" where
  "tbl_writing opt path w b bs cur \<longleftrightarrow>
     tbl_options b = opt \<and> tbl_fd b = Some path \<and> tbl_path b = path \<and> \<not> tbl_finished b \<and>
     file_of w path = Some (data_bytes bs) \<and> tbl_file_size b = of_nat (length (data_bytes bs)) \<and>
     tbl_index_block b = index_bytes bs \<and> (\<forall>x \<in> set bs. written_block x) \<and>
     (\<exists>ps rs. builds (tbl_block b) ps rs \<and> stored_entries ps = cur) \<and>
     (cur \<noteq> [] \<longrightarrow> tbl_last_key_in_block b = fst (last cur)) \<and>
     tbl_filter_keys b = map (ExtractUserKey \<circ> fst) (all_versions bs cur) \<and>
     tbl_num_entries b = of_nat (length (all_versions bs cur)) \<and> key_range b (all_versions bs cur)"

lemma tbl_Open_writing:
  assumes "tbl_Open w (new_TableBuilder opt) path = (s, b, w')" "ok s"
  shows "tbl_writing opt path w' b [] []"
  using assms builds_new [of "block_restart_interval opt"]
  by (auto simp: tbl_Open_def tbl_writing_def new_TableBuilder_def all_versions_def key_range_def stored_entries_def
      PosixError_def split: prod.splits option.splits)

lemma WriteFully_ok:
  assumes "WriteFully w fd data = (s, w')" "file_of w fd = Some c" "ok s"
  shows "s = OK \<and> file_of w' fd = Some (c @ data)"
  using WriteFully_spec [OF assms(1,2)] assms(3) by auto

lemma WriteBlock_ok:
  assumes "WriteBlock w b c = (s, off, sz, b', w')" "tbl_fd b = Some path" "file_of w path = Some d"
    "tbl_file_size b = of_nat (length d)" "ok s"
  shows "s = OK \<and> off = of_nat (length d) \<and> sz = of_nat (length c) \<and> file_of w' path = Some (d @ framed c) \<and>
    b' = b\<lparr>tbl_file_size := of_nat (length (d @ framed c))\<rparr>"
proof -
  obtain s1 w1 where 1: "WriteFully w path c = (s1, w1)" by force
  obtain s2 w2 where 2: "WriteFully w1 path (fixed32 (Value c)) = (s2, w2)" by force
  have ok1: "ok s1" using assms 1 by (auto simp: WriteBlock_def Let_def split: if_splits)
  note f1 = WriteFully_ok [OF 1 assms(3) ok1]
  have ok2: "ok s2" using assms 1 2 ok1 by (auto simp: WriteBlock_def Let_def PutFixed32_def split: if_splits)
  note f2 = WriteFully_ok [OF 2 conjunct2 [OF f1] ok2]
  show ?thesis using assms 1 2 ok1 ok2 f2
    by (auto simp: WriteBlock_def Let_def PutFixed32_def framed_def kBlockTrailerSize_def)
qed

lemma FlushDataBlock_writing:
  assumes w: "tbl_writing opt path w b bs cur" and r: "FlushDataBlock w b = (s, b', w')" and ok: "ok s"
  shows "\<exists>bs'. tbl_writing opt path w' b' bs' [] \<and> all_versions bs' [] = all_versions bs cur"
proof -
  obtain ps rs where b: "builds (tbl_block b) ps rs" "stored_entries ps = cur"
    using w by (auto simp: tbl_writing_def)
  have e: "bb_empty (tbl_block b) \<longleftrightarrow> cur = []"
    using b by (auto simp: bb_empty_def builds_def stored_entries_def)
  show ?thesis
  proof (cases "cur = []")
    case True
    then show ?thesis using r w e by (auto simp: FlushDataBlock_def)
  next
    case False
    define c where "c = block_bytes ps rs"
    have f: "bb_Finish (tbl_block b) = (c, bb_Reset (tbl_block b))"
      using bb_Finish_builds [OF b(1)] by (simp add: c_def bb_Finish_def Let_def)
    let ?b = "b\<lparr>tbl_block := bb_Reset (tbl_block b)\<rparr>"
    obtain s1 off sz b1 w1 where 1: "WriteBlock w ?b c = (s1, off, sz, b1, w1)" by (metis prod_cases5)
    have s1: "ok s1" using r ok e False f 1 by (auto simp: FlushDataBlock_def Let_def split: if_splits)
    have wb: "off = of_nat (length (data_bytes bs))" "sz = of_nat (length c)"
      "file_of w1 path = Some (data_bytes bs @ framed c)"
      "b1 = ?b\<lparr>tbl_file_size := of_nat (length (data_bytes bs @ framed c))\<rparr>"
      using WriteBlock_ok [OF 1 _ _ _ s1, of path "data_bytes bs"] w by (auto simp: tbl_writing_def)
    have "tbl_writing opt path w' b' (bs @ [(c, cur)]) []"
    proof -
      have "written_block (c, cur)" using b False by (auto simp: written_block_def c_def)
      moreover have "w' = w1 \<and> b' = b1\<lparr>tbl_index_block := index_bytes (bs @ [(c, cur)])\<rparr>"
        using r e False f 1 s1 w wb
        by (auto simp: FlushDataBlock_def Let_def index_bytes_snoc enc_entry_def tbl_writing_def
            PutLengthPrefixed_append PutFixed64_def)
      ultimately show ?thesis
        using w wb builds_Reset [OF b(1)]
        by (auto simp: tbl_writing_def all_versions_def key_range_def stored_entries_def)
    qed
    then show ?thesis by (intro exI [of _ "bs @ [(c, cur)]"]) (simp add: all_versions_def)
  qed
qed

lemma tbl_Add_writing:
  assumes w: "tbl_writing opt path w b bs cur" and r: "tbl_Add w b k v = (s, b', w')" and ok: "ok s"
    and n: "length (all_versions bs cur) < 2 ^ 64"
  shows "\<exists>bs' cur'. tbl_writing opt path w' b' bs' cur' \<and> all_versions bs' cur' = all_versions bs cur @ [(k, v)]"
proof -
  obtain ps rs where ps: "builds (tbl_block b) ps rs" "stored_entries ps = cur"
    using w by (auto simp: tbl_writing_def)
  obtain shared rs' where bb: "builds (bb_Add (tbl_block b) k v) (ps @ [(shared, k, v)]) rs'"
    using builds_Add [OF ps(1)] by blast
  define b1 where "b1 = (if tbl_num_entries b = 0 then b\<lparr>tbl_smallest_key := k\<rparr> else b)\<lparr>tbl_largest_key := k,
    tbl_last_key_in_block := k, tbl_num_entries := tbl_num_entries b + 1,
    tbl_filter_keys := tbl_filter_keys b @ [ExtractUserKey k], tbl_block := bb_Add (tbl_block b) k v\<rparr>"
  have "tbl_num_entries b = 0 \<longleftrightarrow> all_versions bs cur = []"
    using w n by (auto simp: tbl_writing_def word_of_nat_eq_0_iff dest: nat_dvd_not_less)
  moreover have snoc: "all_versions bs (cur @ [(k, v)]) = all_versions bs cur @ [(k, v)]" by (simp add: all_versions_def)
  moreover have "key_range b (all_versions bs cur)" using w by (simp add: tbl_writing_def)
  ultimately have "key_range b1 (all_versions bs (cur @ [(k, v)]))"
    by (cases "all_versions bs cur = []") (simp_all add: key_range_def b1_def)
  moreover have "\<exists>ps rs. builds (tbl_block b1) ps rs \<and> stored_entries ps = cur @ [(k, v)]"
    using bb ps(2) by (intro exI [of _ "ps @ [(shared, k, v)]"] exI [of _ rs']) (simp add: b1_def stored_entries_def)
  ultimately have b1: "tbl_writing opt path w b1 bs (cur @ [(k, v)])"
    using w by (auto simp: tbl_writing_def b1_def snoc)
  have "tbl_Add w b k v = (if block_size_bytes (tbl_options b1) \<le> CurrentSizeEstimate (tbl_block b1)
      then FlushDataBlock w b1 else (OK, b1, w))"
    using w by (simp add: tbl_Add_def tbl_writing_def b1_def Let_def)
  then consider "FlushDataBlock w b1 = (s, b', w')" | "b' = b1" "w' = w"
    using r by (auto split: if_splits)
  then show ?thesis
  proof cases
    case 1
    from FlushDataBlock_writing [OF b1 1 ok] snoc show ?thesis by auto
  next
    case 2
    with b1 snoc show ?thesis by auto
  qed
qed

lemma tbl_adds_writing:
  assumes "tbl_writing opt path w b bs cur" "tbl_adds w b es = (s, b', w')" "ok s"
    "length (all_versions bs cur) + length es < 2 ^ 64"
  shows "\<exists>bs' cur'. tbl_writing opt path w' b' bs' cur' \<and> all_versions bs' cur' = all_versions bs cur @ es"
  using assms
proof (induction es arbitrary: w b bs cur)
  case (Cons e es)
  obtain k v where e: "e = (k, v)" by force
  obtain s1 b1 w1 where 1: "tbl_Add w b k v = (s1, b1, w1)" by (metis prod_cases3)
  have s1: "ok s1" and rest: "tbl_adds w1 b1 es = (s, b', w')"
    using Cons.prems(2,3) e 1 by (auto split: if_splits)
  obtain bs1 cur1 where w1: "tbl_writing opt path w1 b1 bs1 cur1" "all_versions bs1 cur1 = all_versions bs cur @ [(k, v)]"
    using tbl_Add_writing [OF Cons.prems(1) 1 s1] Cons.prems(4) by auto
  from Cons.IH [OF w1(1) rest Cons.prems(3)] w1(2) Cons.prems(4) e show ?case by auto
qed auto

lemma tbl_Finish_file:
  assumes w: "tbl_writing opt path w b bs cur" and r: "tbl_Finish w b = (s, b', w')" and ok: "ok s"
  shows "\<exists>bs'. file_of w' path =
      Some (table_bytes (Build (map (ExtractUserKey \<circ> fst) (all_versions bs cur)) (bloom_bits_per_key opt)) bs') \<and>
    (\<forall>x \<in> set bs'. written_block x) \<and> concat (map snd bs') = all_versions bs cur \<and> tbl_finished b' \<and> tbl_fd b' = None \<and>
    key_range b' (all_versions bs cur) \<and> tbl_num_entries b' = of_nat (length (all_versions bs cur))"
proof -
  obtain s1 b1 w1 where 1: "FlushDataBlock w b = (s1, b1, w1)" by (metis prod_cases3)
  have fd: "tbl_fd b = Some path" using w by (simp add: tbl_writing_def)
  have s1: "ok s1" using r ok fd 1 by (auto simp: tbl_Finish_def Let_def split: if_splits)
  obtain bs' where w1: "tbl_writing opt path w1 b1 bs' []" and all: "all_versions bs' [] = all_versions bs cur"
    using FlushDataBlock_writing [OF w 1 s1] by blast
  define bloom where "bloom = Build (tbl_filter_keys b1) (bloom_bits_per_key (tbl_options b1))"
  obtain s2 off2 sz2 b2 w2 where 2: "WriteBlock w1 b1 bloom = (s2, off2, sz2, b2, w2)" by (metis prod_cases5)
  have s2: "ok s2" using r ok fd 1 s1 2 by (auto simp: tbl_Finish_def Let_def bloom_def split: if_splits)
  have f1: "file_of w1 path = Some (data_bytes bs')" "tbl_fd b1 = Some path"
    "tbl_file_size b1 = of_nat (length (data_bytes bs'))"
    using w1 by (simp_all add: tbl_writing_def)
  note wb2 = WriteBlock_ok [OF 2 f1(2,1,3) s2]
  have ib: "tbl_index_block b2 = index_bytes bs'" using wb2 w1 by (simp add: tbl_writing_def)
  obtain s3 off3 sz3 b3 w3 where 3: "WriteBlock w2 b2 (index_bytes bs') = (s3, off3, sz3, b3, w3)" by (metis prod_cases5)
  have s3: "ok s3" using r ok fd 1 s1 2 s2 3 ib by (auto simp: tbl_Finish_def Let_def bloom_def [symmetric] split: if_splits)
  have f2: "tbl_fd b2 = Some path" "tbl_file_size b2 = of_nat (length (data_bytes bs' @ framed bloom))"
    using wb2 f1 by simp_all
  note wb3 = WriteBlock_ok [OF 3 f2(1) _ f2(2) s3, simplified wb2, OF refl]
  define footer where "footer = PutFixed64 (PutFixed64 (PutFixed64 (PutFixed64 (PutFixed64 [] off3) sz3) off2) sz2) kTableMagic"
  obtain s4 w4 where 4: "WriteFully w3 path footer = (s4, w4)" by force
  have eq: "tbl_Finish w b = (if \<not> ok s4 then (s4, b3, w4)
      else let b = b3\<lparr>tbl_file_size := tbl_file_size b3 + of_nat (length footer)\<rparr>; (s, w) = SyncFd w4
        in if \<not> ok s then (s, b, w)
           else let b = b\<lparr>tbl_finished := True, tbl_fd := None\<rparr>
             in case simple_call w of (Some e, w) \<Rightarrow> (PosixError ''close'' e, b, w) | (None, w) \<Rightarrow> (OK, b, w))"
    using fd 1 s1 2 s2 3 s3 ib 4 by (simp add: tbl_Finish_def Let_def bloom_def [symmetric] footer_def [symmetric])
  have s4: "ok s4" using r ok eq by (auto split: if_splits)
  have "file_of w3 path = Some (data_bytes bs' @ framed bloom @ framed (index_bytes bs'))" using wb3 by simp
  note wf = WriteFully_ok [OF 4 this s4]
  have fin: "b' = b3\<lparr>tbl_file_size := tbl_file_size b3 + of_nat (length footer), tbl_finished := True, tbl_fd := None\<rparr>"
    "files w' = files w4"
    using r ok eq s4
    by (auto simp: SyncFd_def Let_def PosixError_def split: prod.splits option.splits if_splits dest!: simple_call_files)
  have "footer = fixed64 (of_nat (length (data_bytes bs') + length bloom + 4)) @ fixed64 (of_nat (length (index_bytes bs'))) @
      fixed64 (of_nat (length (data_bytes bs'))) @ fixed64 (of_nat (length bloom)) @ fixed64 kTableMagic"
    using wb2 wb3 by (simp add: footer_def PutFixed64_def ac_simps)
  then have "file_of w' path = Some (table_bytes bloom bs')"
    using wf fin(2) by (simp add: file_of_def table_bytes_def Let_def)
  moreover have "bloom = Build (map (ExtractUserKey \<circ> fst) (all_versions bs cur)) (bloom_bits_per_key opt)"
    using w1 all by (simp add: bloom_def tbl_writing_def)
  moreover have "key_range b' (all_versions bs cur)" "tbl_num_entries b' = of_nat (length (all_versions bs cur))"
    "\<forall>x \<in> set bs'. written_block x"
    using w1 wb2 wb3 fin(1) unfolding tbl_writing_def all by (simp_all add: key_range_def)
  moreover have "concat (map snd bs') = all_versions bs cur" using all by (simp add: all_versions_def [of bs'])
  ultimately show ?thesis using fin(1) by auto
qed

section \<open>Opening what was written\<close>

lemma IndexLoop_entries:
  assumes "\<forall>ie \<in> set ies. length (ie_last_key ie) < 2 ^ 32"
  shows "IndexLoop (concat (map enc_entry ies)) = Some ies"
  using assms
proof (induction ies)
  case Nil
  then show ?case by (simp add: IndexLoop.simps [of "[]"])
next
  case (Cons ie ies)
  let ?rest = "fixed64 (ie_offset ie) @ fixed64 (ie_size ie) @ concat (map enc_entry ies)"
  have g: "GetLengthPrefixed (fixed32 (of_nat (length (ie_last_key ie))) @ ie_last_key ie @ ?rest) = Some (ie_last_key ie, ?rest)"
    using Cons.prems by (intro GetLengthPrefixed_Put) simp
  have "concat (map enc_entry (ie # ies)) = fixed32 (of_nat (length (ie_last_key ie))) @ ie_last_key ie @ ?rest"
    by (simp add: enc_entry_def PutLengthPrefixed_append)
  then show ?case using Cons g
    by (subst IndexLoop.simps) simp
qed

text \<open>The handle \<open>table_Open\<close> returns for a file of the format.\<close>

definition opened_table :: "string \<Rightarrow> Options \<Rightarrow> bool \<Rightarrow> u64 \<Rightarrow> bytes \<Rightarrow> data_blocks \<Rightarrow> Table" where
  "opened_table path opt cache fno bloom bs =
     \<lparr>tb_path = path, tb_fd = table_bytes bloom bs, tb_file_size = of_nat (length (table_bytes bloom bs)),
      tb_verify_checksums = opt_verify_checksums opt, tb_cached = cache, tb_file_number = fno,
      tb_index = index_entries 0 bs, tb_bloom = bloom\<rparr>"

lemma length_table_bytes:
  "length (table_bytes bloom bs) = length (data_bytes bs) + length bloom + 4 + length (index_bytes bs) + 4 + 40"
  by (simp add: table_bytes_def Let_def)

lemma stored_block_at:
  assumes "fd = pre @ framed c @ post" "length fd < 2 ^ 63" "ie_offset ie = of_nat (length pre)" "ie_size ie = of_nat (length c)"
  shows "stored_block fd ie c"
  using assms by (auto simp: stored_block_def unat_of_nat_small framed_def prefix_def)

lemma table_bytes_footer:
  "\<exists>pre. table_bytes bloom bs = pre @ fixed64 (of_nat (length (data_bytes bs) + length bloom + 4)) @
     fixed64 (of_nat (length (index_bytes bs))) @ fixed64 (of_nat (length (data_bytes bs))) @
     fixed64 (of_nat (length bloom)) @ fixed64 kTableMagic \<and> length pre = length (table_bytes bloom bs) - 40"
  by (intro exI [of _ "data_bytes bs @ framed bloom @ framed (index_bytes bs)"]) (simp add: table_bytes_def Let_def)


lemma index_entries_keys:
  assumes "ie \<in> set (index_entries off bs)"
  shows "length (ie_last_key ie) \<le> length (concat (map enc_entry (index_entries off bs)))"
proof -
  have "length (ie_last_key ie) \<le> length (enc_entry ie)" by (simp add: enc_entry_def)
  moreover have "length (enc_entry ie) \<le> length (concat (map enc_entry (index_entries off bs)))"
    using assms by (auto simp: in_set_conv_decomp)
  ultimately show ?thesis by simp
qed

lemma read_footer:
  assumes "length (table_bytes bloom bs) < 2 ^ 32"
    "ReadFullyAt w (table_bytes bloom bs) (of_nat (length (table_bytes bloom bs) - kFooterSize)) kFooterSize [] = (r, w')"
  shows "((\<exists>s. r = Inl s \<and> \<not> ok s) \<and> \<not> no_failure w \<or>
      r = Inr (fixed64 (of_nat (length (data_bytes bs) + length bloom + 4)) @ fixed64 (of_nat (length (index_bytes bs))) @
        fixed64 (of_nat (length (data_bytes bs))) @ fixed64 (of_nat (length bloom)) @ fixed64 kTableMagic)) \<and>
    files w' = files w \<and> (no_failure w \<longrightarrow> no_failure w')"
proof -
  let ?fd = "table_bytes bloom bs"
  obtain pre where pre: "?fd = pre @ fixed64 (of_nat (length (data_bytes bs) + length bloom + 4)) @
     fixed64 (of_nat (length (index_bytes bs))) @ fixed64 (of_nat (length (data_bytes bs))) @
     fixed64 (of_nat (length bloom)) @ fixed64 kTableMagic" and len: "length pre = length ?fd - 40"
    using table_bytes_footer by blast
  have u: "unat (of_nat (length ?fd - kFooterSize) :: u64) = length pre"
    using assms(1) len by (simp add: unat_of_nat_small kFooterSize_def del: of_nat_diff)
  have "take kFooterSize (drop (length pre) ?fd) = drop (length pre) ?fd"
    using len by (simp add: kFooterSize_def)
  also have "\<dots> = fixed64 (of_nat (length (data_bytes bs) + length bloom + 4)) @ fixed64 (of_nat (length (index_bytes bs))) @
        fixed64 (of_nat (length (data_bytes bs))) @ fixed64 (of_nat (length bloom)) @ fixed64 kTableMagic" (is "_ = ?ft")
    unfolding pre by simp
  finally have ft: "take kFooterSize (drop (length pre) ?fd) = ?ft" .
  have le: "length pre + kFooterSize \<le> length ?fd" using len by (simp add: kFooterSize_def length_table_bytes)
  have "files w' = files w" "\<And>buf. r = Inr buf \<Longrightarrow> buf = ?ft" "\<And>s. r = Inl s \<Longrightarrow> \<not> ok s"
    using ReadFullyAt_spec [OF assms(2), unfolded u] assms(1) le ft by simp_all
  moreover have "no_failure w \<Longrightarrow> r = Inr ?ft \<and> no_failure w'"
    using ReadFullyAt_no_failure [of w "of_nat (length ?fd - kFooterSize)" kFooterSize ?fd "[]", unfolded u ft assms(2)]
      assms(1) le by simp
  ultimately show ?thesis by (cases r) auto
qed

lemma OpenBlocks_spec:
  assumes len: "length (table_bytes bloom bs) < 2 ^ 32" and e: "env_ok F e"
    and tb: "tb = (opened_table path opt cache fno bloom bs)\<lparr>tb_index := [], tb_bloom := []\<rparr>"
    and r: "OpenBlocks e tb (fixed64 (of_nat (length (data_bytes bs) + length bloom + 4)) @
        fixed64 (of_nat (length (index_bytes bs))) @ fixed64 (of_nat (length (data_bytes bs))) @
        fixed64 (of_nat (length bloom)) @ fixed64 kTableMagic) = (r, e')"
  shows "(r = Inr (opened_table path opt cache fno bloom bs) \<or> (\<exists>s. r = Inl s \<and> \<not> ok s) \<and> \<not> env_quiet e) \<and>
    env_ok F e' \<and> (env_quiet e \<longrightarrow> env_quiet e') \<and> files (re_world e') = files (re_world e)"
proof -
  let ?d = "length (data_bytes bs)" and ?i = "length (data_bytes bs) + length bloom + 4" and ?n = "length (index_bytes bs)"
  define bl ix where "bl = \<lparr>ie_last_key = [], ie_offset = of_nat ?d, ie_size = of_nat (length bloom)\<rparr>"
    and "ix = \<lparr>ie_last_key = [], ie_offset = of_nat ?i, ie_size = of_nat ?n\<rparr>"
  have fd: "tb_fd tb = table_bytes bloom bs" by (simp add: tb opened_table_def)
  have sb1: "stored_block (tb_fd tb) bl bloom"
    unfolding fd by (rule stored_block_at [of _ "data_bytes bs"]) (use len in \<open>simp_all add: bl_def table_bytes_def Let_def\<close>)
  have sb2: "stored_block (tb_fd tb) ix (index_bytes bs)"
    unfolding fd by (rule stored_block_at [of _ "data_bytes bs @ framed bloom"])
      (use len in \<open>simp_all add: ix_def table_bytes_def Let_def\<close>)
  obtain r1 e1 where 1: "ReadBlock e tb bl False = (r1, e1)" by force
  obtain r2 e2 where 2: "ReadBlock e1 tb ix False = (r2, e2)" by force
  note s1 = ReadBlock_spec [OF sb1 _ e 1]
  have "env_ok F e1" using s1 by simp
  note s2 = ReadBlock_spec [OF sb2 _ this 2]
  have il: "IndexLoop (index_bytes bs) = Some (index_entries 0 bs)"
    unfolding index_bytes_def
    by (rule IndexLoop_entries)
      (use index_entries_keys [of _ 0 bs] len in \<open>fastforce simp: length_table_bytes index_bytes_def\<close>)
  have w: "of_nat ?i + of_nat ?n + of_nat kBlockTrailerSize = (of_nat (?i + ?n + 4) :: u64)"
    "of_nat ?d + of_nat (length bloom) + of_nat kBlockTrailerSize = (of_nat ?i :: u64)"
    by (simp_all add: kBlockTrailerSize_def)
  have b: "\<not> (of_nat ?i + of_nat ?n + of_nat kBlockTrailerSize > tb_file_size tb \<or>
      of_nat ?d + of_nat (length bloom) + of_nat kBlockTrailerSize > tb_file_size tb)"
    unfolding w using len
    by (simp add: tb opened_table_def length_table_bytes word_less_nat_alt unat_of_nat_small del: of_nat_add)
  have eq: "OpenBlocks e tb (fixed64 (of_nat ?i) @ fixed64 (of_nat ?n) @ fixed64 (of_nat ?d) @
        fixed64 (of_nat (length bloom)) @ fixed64 kTableMagic) =
      (case r1 of Inl s \<Rightarrow> (Inl s, e1) | Inr bloom \<Rightarrow>
        (case r2 of Inl s \<Rightarrow> (Inl s, e2) | Inr contents \<Rightarrow>
          (case IndexLoop contents of None \<Rightarrow> (Inl (Corruption (path @ '': malformed index block'')), e2)
           | Some index \<Rightarrow> (Inr (tb\<lparr>tb_bloom := bloom, tb_index := index\<rparr>),
                            count_stat path (\<lambda>s. s\<lparr>blocks_read := 0\<rparr>) e2))))"
  proof -
    have "tb_path tb = path" by (simp add: tb opened_table_def)
    then show ?thesis using b 1 2 by (simp add: OpenBlocks_def Let_def bl_def ix_def split: sum.split)
  qed
  show ?thesis
    using r s1 s2 unfolding eq by (auto simp: il tb opened_table_def split: sum.splits)
qed

lemma table_Open_spec:
  assumes f: "file_of (re_world e) path = Some (table_bytes bloom bs)" and len: "length (table_bytes bloom bs) < 2 ^ 32"
    and e: "env_ok F e" and r: "table_Open e path opt cache fno = (r, e')"
  shows "(r = Inr (opened_table path opt cache fno bloom bs) \<or> (\<exists>s. r = Inl s \<and> \<not> ok s) \<and> \<not> calm (re_world e)) \<and>
    env_ok F e' \<and> (calm (re_world e) \<longrightarrow> env_quiet e') \<and> files (re_world e') = files (re_world e)"
proof -
  let ?fd = "table_bytes bloom bs"
  obtain r1 w1 where 1: "simple_call (re_world e) = (r1, w1)" by force
  obtain r2 w2 where 2: "simple_call w1 = (r2, w2)" by force
  obtain r3 w3 where 3: "ReadFullyAt w2 ?fd (of_nat (length ?fd - kFooterSize)) kFooterSize [] = (r3, w3)" by force
  note ft = read_footer [OF len 3]
  have fs: "files w1 = files (re_world e)" "files w2 = files (re_world e)" "files w3 = files (re_world e)"
    using simple_call_files [OF 1] simple_call_files [OF 2] ft by simp_all
  have calm: "calm (re_world e) \<Longrightarrow> r1 = None \<and> r2 = None \<and> no_failure w2 \<and> no_failure w3"
    using simple_call_calm [OF _ 1] simple_call_calm [OF _ 2] ft calm_no_failure by blast
  define tb where "tb = (opened_table path opt cache fno bloom bs)\<lparr>tb_index := [], tb_bloom := []\<rparr>"
  define e3 where "e3 = (count_stat path (\<lambda>s. \<lparr>blocks_read = 0, bloom_rejections = 0, cache_hits = 0\<rparr>)
    (e\<lparr>re_world := w2\<rparr>))\<lparr>re_world := w3\<rparr>"
  have e3: "env_ok F e3" "re_world e3 = w3" using e by (simp_all add: e3_def)
  have sz: "\<not> length ?fd < kFooterSize" by (simp add: length_table_bytes kFooterSize_def)
  have f1: "file_of w1 path = Some ?fd" using f fs by (simp add: file_of_def)
  have eq: "table_Open e path opt cache fno = (case r1 of
      Some m \<Rightarrow> (Inl (PosixError (''open '' @ path) m), e\<lparr>re_world := w1\<rparr>)
    | None \<Rightarrow> (case r2 of Some m \<Rightarrow> (Inl (PosixError (''fstat '' @ path) m), e\<lparr>re_world := w2\<rparr>)
      | None \<Rightarrow> (case r3 of Inl s \<Rightarrow> (Inl s, e3) | Inr footer \<Rightarrow> OpenBlocks e3 tb footer)))"
    using 1 2 3 f1 sz
    by (simp add: table_Open_def Let_def tb_def opened_table_def e3_def split: option.split sum.split)
  show ?thesis
  proof (cases "r1 = None \<and> r2 = None")
    case False
    then show ?thesis using r e fs calm unfolding eq by (auto simp: PosixError_def split: option.splits)
  next
    case True
    show ?thesis
    proof (cases r3)
      case (Inl s)
      then show ?thesis using r e3 fs calm ft True unfolding eq by (auto simp: e3_def)
    next
      case (Inr footer)
      then have "OpenBlocks e3 tb footer = (r, e')" using r True unfolding eq by simp
      moreover have "footer = fixed64 (of_nat (length (data_bytes bs) + length bloom + 4)) @
        fixed64 (of_nat (length (index_bytes bs))) @ fixed64 (of_nat (length (data_bytes bs))) @
        fixed64 (of_nat (length bloom)) @ fixed64 kTableMagic" using ft Inr by auto
      ultimately have "OpenBlocks e3 tb (fixed64 (of_nat (length (data_bytes bs) + length bloom + 4)) @
        fixed64 (of_nat (length (index_bytes bs))) @ fixed64 (of_nat (length (data_bytes bs))) @
        fixed64 (of_nat (length bloom)) @ fixed64 kTableMagic) = (r, e')" by simp
      from OpenBlocks_spec [OF len e3(1) tb_def this] show ?thesis using e3(2) fs calm by auto
    qed
  qed
qed


text \<open>
  \<open>serves F fno bs\<close>: \<open>F\<close> knows the blocks of file \<open>fno\<close>. \<open>block_map\<close> is the
  map from offsets to blocks that the file itself determines.
\<close>

definition serves :: "(u64 \<Rightarrow> u64 \<Rightarrow> bytes option) \<Rightarrow> u64 \<Rightarrow> nat \<Rightarrow> data_blocks \<Rightarrow> bool" where
  "serves F fno off bs \<longleftrightarrow> list_all2 (\<lambda>ie x. F fno (ie_offset ie) = Some (fst x)) (index_entries off bs) bs"

definition block_map :: "nat \<Rightarrow> data_blocks \<Rightarrow> u64 \<Rightarrow> bytes option" where
  "block_map off bs = map_of (zip (map ie_offset (index_entries off bs)) (map fst bs))"

lemma length_index_entries [simp]: "length (index_entries off bs) = length bs"
  by (induction off bs rule: index_entries.induct) auto

lemma index_entries_offset:
  "ie \<in> set (index_entries off bs) \<Longrightarrow> off + length (data_bytes bs) < 2 ^ 64 \<Longrightarrow>
     off \<le> unat (ie_offset ie) \<and> unat (ie_offset ie) < off + length (data_bytes bs)"
proof (induction off bs rule: index_entries.induct)
  case (2 off c es bs)
  from "2.prems" consider "ie_offset ie = of_nat off" | "ie \<in> set (index_entries (off + length c + 4) bs)" by auto
  then show ?case
  proof cases
    case 1
    with "2.prems" show ?thesis by (simp add: unat_of_nat_small)
  next
    case 2
    from "2.IH" [OF this] "2.prems" show ?thesis by simp
  qed
qed simp

lemma distinct_offsets:
  "off + length (data_bytes bs) < 2 ^ 64 \<Longrightarrow> distinct (map ie_offset (index_entries off bs))"
proof (induction off bs rule: index_entries.induct)
  case (2 off c es bs)
  have "unat (of_nat off :: u64) = off" using "2.prems" by (simp add: unat_of_nat_small)
  then have "ie_offset ie \<noteq> of_nat off" if "ie \<in> set (index_entries (off + length c + 4) bs)" for ie
    using index_entries_offset [OF that] "2.prems" by auto
  then show ?case using 2 by force
qed simp

lemma serves_block_map:
  assumes "length (data_bytes bs) < 2 ^ 64" "F fno = block_map 0 bs"
  shows "serves F fno 0 bs"
proof -
  have "block_map 0 bs (ie_offset (index_entries 0 bs ! i)) = Some (fst (bs ! i))" if "i < length bs" for i
    using map_of_zip_nth [of "map ie_offset (index_entries 0 bs)" "map fst bs" i] distinct_offsets [of 0 bs] assms(1) that
    by (simp add: block_map_def)
  then show ?thesis using assms(2) by (simp add: serves_def list_all2_conv_all_nth)
qed

lemma written_block_opened:
  assumes "written_block (c, es)" "keys_sorted es" "length c < 2 ^ 32"
  shows "block_opened (new_BlockReader c) es"
proof -
  obtain b ps rs where b: "builds b ps rs" "c = block_bytes ps rs" "es = stored_entries ps"
    using assms(1) by (auto simp: written_block_def)
  have "reader_on (new_BlockReader c) ps rs"
    using reads_new block_ok_builds [OF b(1)] assms(3) b(2) by blast
  then show ?thesis using assms(2) b(3) by (auto simp: block_opened_def)
qed

lemma blocks_ok_at:
  assumes "tb_fd tb = pre @ data_bytes bs @ post" "length (tb_fd tb) < 2 ^ 32" "\<forall>x \<in> set bs. written_block x"
    "keys_sorted (concat (map snd bs))" "tb_cached tb \<Longrightarrow> serves F (tb_file_number tb) (length pre) bs"
  shows "list_all2 (block_ok_at F tb) (index_entries (length pre) bs) (map snd bs)"
  using assms
proof (induction bs arbitrary: pre)
  case (Cons x bs)
  obtain c es where x: "x = (c, es)" by force
  define ie where "ie = \<lparr>ie_last_key = fst (last es), ie_offset = of_nat (length pre), ie_size = of_nat (length c)\<rparr>"
  have "block_opened (new_BlockReader c) es"
    by (rule written_block_opened) (use Cons.prems x in \<open>simp_all add: keys_sorted_append\<close>)
  moreover have "stored_block (tb_fd tb) ie c"
    by (rule stored_block_at [of _ pre _ "data_bytes bs @ post"]) (use Cons.prems(1,2) x in \<open>simp_all add: ie_def\<close>)
  moreover have "es \<noteq> []" using Cons.prems(3) x by (auto simp: written_block_def)
  moreover have "tb_cached tb \<Longrightarrow> F (tb_file_number tb) (ie_offset ie) = Some c"
    using Cons.prems(5) x by (simp add: serves_def ie_def)
  ultimately have "block_ok_at F tb ie es" by (auto simp: block_ok_at_def ie_def)
  moreover have "list_all2 (block_ok_at F tb) (index_entries (length (pre @ framed c)) bs) (map snd bs)"
    by (rule Cons.IH) (use Cons.prems x in \<open>auto simp: serves_def keys_sorted_append ac_simps\<close>)
  ultimately show ?case using x by (simp add: ie_def ac_simps)
qed simp


lemma opened_table_ok:
  assumes "\<forall>x \<in> set bs. written_block x" "keys_sorted (concat (map snd bs))" "length (table_bytes bloom bs) < 2 ^ 32"
    "bloom = Build (map (ExtractUserKey \<circ> fst) (concat (map snd bs))) bits" "0 \<le> bits"
    "int (length (concat (map snd bs))) * bits + 7 < 2 ^ 64" "cache \<Longrightarrow> serves F fno 0 bs"
  shows "table_ok F (opened_table path opt cache fno bloom bs) (map snd bs)"
proof -
  have "\<forall>e \<in> set (concat (map snd bs)). MayContain bloom (ExtractUserKey (fst e))"
  proof
    fix e assume "e \<in> set (concat (map snd bs))"
    then have "ExtractUserKey (fst e) \<in> set (map (ExtractUserKey \<circ> fst) (concat (map snd bs)))"
      unfolding set_map comp_def by (rule imageI)
    then show "MayContain bloom (ExtractUserKey (fst e))"
      unfolding assms(4) using assms(5,6) by (intro MayContain_Build) simp_all
  qed
  moreover have "list_all2 (block_ok_at F (opened_table path opt cache fno bloom bs)) (index_entries (length ([] :: bytes)) bs) (map snd bs)"
    by (rule blocks_ok_at) (use assms in \<open>simp_all add: opened_table_def table_bytes_def Let_def\<close>)
  ultimately show ?thesis using assms(2) by (simp add: table_ok_def opened_table_def)
qed

section \<open>How large a table gets\<close>

lemma length_enc_stored: "length (enc_stored (shared, key, val)) \<le> 15 + length key + length val"
proof -
  have "length (PutVarint32 [] v) \<le> 5" for v by (rule length_varint_le)
  from this [of "of_nat shared"] this [of "of_nat (length key - shared)"] this [of "of_nat (length val)"] show ?thesis by simp
qed

definition version_weight :: "version list \<Rightarrow> nat" where
  "version_weight es = sum_list (map (\<lambda>(k, v). 2 * length k + length v + 60) es)"

lemma version_weight_append [simp]: "version_weight (xs @ ys) = version_weight xs + version_weight ys"
  by (simp add: version_weight_def)

text \<open>A block with at least one entry has no more restart points than entries.\<close>

lemma restarts_le:
  assumes "builds b ps rs" "ps \<noteq> []"
  shows "length rs \<le> length ps"
proof -
  have "distinct rs" using assms(1) strict_sorted_imp_sorted strict_sorted_iff by (auto simp: builds_def)
  moreover have "set rs \<subseteq> {..<length ps}" using assms by (fastforce simp: builds_def)
  ultimately show ?thesis by (metis card_lessThan card_mono distinct_card finite_lessThan)
qed

lemma length_stored: "length (concat (map enc_stored ps)) \<le>
    sum_list (map (\<lambda>(k, v). length k + length v + 15) (stored_entries ps))"
proof (induction ps)
  case (Cons p ps)
  obtain shared k v where p: "p = (shared, k, v)" by (metis prod_cases3)
  from Cons length_enc_stored [of shared k v] show ?case by (simp add: p stored_entries_def)
qed (simp add: stored_entries_def)

lemma written_block_size:
  assumes "written_block (c, es)"
  shows "length c + length (fst (last es)) + 28 \<le> version_weight es"
proof -
  obtain b ps rs where b: "builds b ps rs" "c = block_bytes ps rs" "es = stored_entries ps" "es \<noteq> []"
    using assms by (auto simp: written_block_def)
  then have "ps \<noteq> []" by (auto simp: stored_entries_def)
  obtain xs x where es: "es = xs @ [x]" using b(4) by (metis rev_exhaust)
  have 1: "sum_list (map (\<lambda>(k, v). length k + length v + 15) es) + 45 * length es + length (fst (last es)) \<le> version_weight es"
  proof -
    have "sum_list (map (\<lambda>(k, v). length k + length v + 15) zs) + 45 * length zs \<le> version_weight zs" for zs
      by (induction zs) (auto simp: version_weight_def)
    from this [of xs] show ?thesis by (cases x) (simp add: es version_weight_def)
  qed
  have "length es = length ps" using b(3) by simp
  then have "length c + 28 \<le> sum_list (map (\<lambda>(k, v). length k + length v + 15) es) + 45 * length es"
    using length_stored [of ps] restarts_le [OF b(1) \<open>ps \<noteq> []\<close>] b(2,3) \<open>ps \<noteq> []\<close>
    by (cases ps) (auto simp: length_block_bytes entry_offset_def)
  with 1 show ?thesis by simp
qed

lemma blocks_size:
  assumes "\<forall>x \<in> set bs. written_block x"
  shows "length (data_bytes bs) + length (concat (map enc_entry (index_entries off bs))) \<le> version_weight (concat (map snd bs))"
  using assms
proof (induction bs arbitrary: off)
  case (Cons x bs)
  obtain c es where x: "x = (c, es)" by force
  from Cons.IH [of "off + length c + 4"] Cons.prems written_block_size [of c es] show ?case
    by (simp add: x enc_entry_def)
qed simp

definition table_weight :: "Options \<Rightarrow> version list \<Rightarrow> nat" where
  "table_weight opt es = version_weight es + length es * nat (bloom_bits_per_key opt) div 8 + 58"

lemma table_bytes_size:
  assumes "\<forall>x \<in> set bs. written_block x" "0 \<le> bloom_bits_per_key opt"
    "int (length es) * bloom_bits_per_key opt + 7 < 2 ^ 64" "es = concat (map snd bs)"
  shows "length (table_bytes (Build (map f es) (bloom_bits_per_key opt)) bs) \<le> table_weight opt es"
  using blocks_size [OF assms(1), of 0] length_Build [of "bloom_bits_per_key opt" "map f es"] assms(2-4)
  by (simp add: length_table_bytes table_weight_def index_bytes_def)

section \<open>Building without failing calls\<close>

lemma WriteBlock_calm:
  assumes "calm w" "tbl_fd b = Some path" "WriteBlock w b c = (s, off, sz, b', w')"
  shows "s = OK \<and> calm w'"
proof -
  obtain s1 w1 where 1: "WriteFully w path c = (s1, w1)" by force
  obtain s2 w2 where 2: "WriteFully w1 path (PutFixed32 [] (Value c)) = (s2, w2)" by force
  have c1: "s1 = OK \<and> calm w1" by (rule WriteFully_calm [OF assms(1) 1])
  moreover have "s2 = OK \<and> calm w2" using WriteFully_calm [OF _ 2] c1 by blast
  ultimately show ?thesis using assms 1 2 by (auto simp: WriteBlock_def Let_def)
qed

lemma FlushDataBlock_calm:
  assumes "calm w" "tbl_fd b = Some path" "FlushDataBlock w b = (s, b', w')"
  shows "s = OK \<and> calm w'"
proof (cases "bb_empty (tbl_block b)")
  case False
  obtain c bl where f: "bb_Finish (tbl_block b) = (c, bl)" by force
  obtain s1 off sz b1 w1 where 1: "WriteBlock w (b\<lparr>tbl_block := bl\<rparr>) c = (s1, off, sz, b1, w1)" by (metis prod_cases5)
  from WriteBlock_calm [OF assms(1) _ 1, of path] assms(2,3) False f 1 show ?thesis
    by (auto simp: FlushDataBlock_def Let_def)
qed (use assms in \<open>simp add: FlushDataBlock_def\<close>)

lemma tbl_adds_calm:
  assumes "calm w" "tbl_writing opt path w b bs cur" "tbl_adds w b es = (s, b', w')"
    "length (all_versions bs cur) + length es < 2 ^ 64"
  shows "s = OK \<and> calm w'"
  using assms
proof (induction es arbitrary: w b bs cur)
  case (Cons e es)
  obtain k v where e: "e = (k, v)" by force
  obtain s1 b1 w1 where 1: "tbl_Add w b k v = (s1, b1, w1)" by (metis prod_cases3)
  have fd: "tbl_fd b = Some path" using Cons.prems(2) by (simp add: tbl_writing_def)
  have c: "s1 = OK \<and> calm w1"
    using 1 fd Cons.prems(1) by (auto simp: tbl_Add_def Let_def split: if_splits dest!: FlushDataBlock_calm [rotated 2])
  then obtain bs1 cur1 where "tbl_writing opt path w1 b1 bs1 cur1" "all_versions bs1 cur1 = all_versions bs cur @ [(k, v)]"
    using tbl_Add_writing [OF Cons.prems(2) 1] Cons.prems(4) by auto
  from Cons.IH [OF _ this(1)] this(2) c 1 Cons.prems(3,4) e show ?case by auto
qed simp

lemma tbl_Finish_calm:
  assumes "calm w" "tbl_writing opt path w b bs cur" "tbl_Finish w b = (s, b', w')"
  shows "s = OK \<and> calm w'"
proof -
  have fd: "tbl_fd b = Some path" using assms(2) by (simp add: tbl_writing_def)
  obtain s1 b1 w1 where 1: "FlushDataBlock w b = (s1, b1, w1)" by (metis prod_cases3)
  have c1: "s1 = OK \<and> calm w1" by (rule FlushDataBlock_calm [OF assms(1) fd 1])
  then obtain bs' where w1: "tbl_writing opt path w1 b1 bs' []" using FlushDataBlock_writing [OF assms(2) 1] by auto
  then have fd1: "tbl_fd b1 = Some path" "file_of w1 path = Some (data_bytes bs')"
    "tbl_file_size b1 = of_nat (length (data_bytes bs'))" by (simp_all add: tbl_writing_def)
  define bloom where "bloom = Build (tbl_filter_keys b1) (bloom_bits_per_key (tbl_options b1))"
  obtain s2 off2 sz2 b2 w2 where 2: "WriteBlock w1 b1 bloom = (s2, off2, sz2, b2, w2)" by (metis prod_cases5)
  have c2: "s2 = OK \<and> calm w2" using WriteBlock_calm [OF _ fd1(1) 2] c1 by blast
  have fd2: "tbl_fd b2 = Some path" using WriteBlock_ok [OF 2 fd1] c2 fd1 by simp
  obtain s3 off3 sz3 b3 w3 where 3: "WriteBlock w2 b2 (tbl_index_block b2) = (s3, off3, sz3, b3, w3)" by (metis prod_cases5)
  have c3: "s3 = OK \<and> calm w3" using WriteBlock_calm [OF _ fd2 3] c2 by blast
  define footer where "footer = PutFixed64 (PutFixed64 (PutFixed64 (PutFixed64 (PutFixed64 [] off3) sz3) off2) sz2) kTableMagic"
  obtain s4 w4 where 4: "WriteFully w3 path footer = (s4, w4)" by force
  have c4: "s4 = OK \<and> calm w4" using WriteFully_calm [OF _ 4] c3 by blast
  obtain r5 w5 where 5: "simple_call w4 = (r5, w5)" by force
  obtain r6 w6 where 6: "simple_call w5 = (r6, w6)" by force
  have "r5 = None \<and> r6 = None \<and> calm w6" using simple_call_calm 5 6 c4 by blast
  then show ?thesis using assms(3) fd 1 c1 2 c2 3 c3 4 c4 5 6
    by (auto simp: tbl_Finish_def Let_def bloom_def [symmetric] footer_def [symmetric] SyncFd_def)
qed

section \<open>A whole table\<close>

definition build_table :: "world \<Rightarrow> Options \<Rightarrow> string \<Rightarrow> version list \<Rightarrow> status \<times> TableBuilder \<times> world" where
  "build_table w opt path es =
     (let (s, b, w) = tbl_Open w (new_TableBuilder opt) path in
      if \<not> ok s then (s, b, w)
      else let (s, b, w) = tbl_adds w b es in
        if \<not> ok s then (s, b, w) else tbl_Finish w b)"

text \<open>What the table format can hold.\<close>

definition table_fits :: "Options \<Rightarrow> version list \<Rightarrow> bool" where
  "table_fits opt es \<longleftrightarrow> 0 \<le> bloom_bits_per_key opt \<and>
     int (length es) * bloom_bits_per_key opt + 7 < 2 ^ 64 \<and> table_weight opt es < 2 ^ 32"

lemma table_fits_length: "table_fits opt es \<Longrightarrow> length es < 2 ^ 64"
proof -
  assume f: "table_fits opt es"
  have "length es \<le> version_weight es" by (induction es) (auto simp: version_weight_def)
  then show ?thesis using f by (simp add: table_fits_def table_weight_def)
qed

text \<open>A file that a finished builder has left behind, for the versions \<open>es\<close>.\<close>

definition table_file :: "Options \<Rightarrow> version list \<Rightarrow> data_blocks \<Rightarrow> bytes \<Rightarrow> bool" where
  "table_file opt es bs c \<longleftrightarrow> (\<forall>x \<in> set bs. written_block x) \<and> es = concat (map snd bs) \<and>
     c = table_bytes (Build (map (ExtractUserKey \<circ> fst) es) (bloom_bits_per_key opt)) bs"

lemma build_table_file:
  assumes "build_table w opt path es = (s, b, w')" "ok s" "length es < 2 ^ 64"
  shows "\<exists>bs c. file_of w' path = Some c \<and> table_file opt es bs c \<and> key_range b es \<and> tbl_num_entries b = of_nat (length es)"
proof -
  obtain s1 b1 w1 where 1: "tbl_Open w (new_TableBuilder opt) path = (s1, b1, w1)" by (metis prod_cases3)
  obtain s2 b2 w2 where 2: "tbl_adds w1 b1 es = (s2, b2, w2)" by (metis prod_cases3)
  have oks: "ok s1" "ok s2" "tbl_Finish w2 b2 = (s, b, w')"
    using assms(1,2) 1 2 by (auto simp: build_table_def Let_def split: if_splits)
  have all0: "all_versions [] [] = []" by (simp add: all_versions_def)
  obtain bs cur where "tbl_writing opt path w2 b2 bs cur" "all_versions bs cur = es"
    using tbl_adds_writing [OF tbl_Open_writing [OF 1 oks(1)] 2 oks(2)] assms(3) all0 by auto
  from tbl_Finish_file [OF this(1) oks(3) assms(2)] this(2) show ?thesis by (auto simp: table_file_def)
qed

lemma build_table_calm:
  assumes "calm w" "build_table w opt path es = (s, b, w')" "length es < 2 ^ 64"
  shows "s = OK \<and> calm w'"
proof -
  obtain s1 b1 w1 where 1: "tbl_Open w (new_TableBuilder opt) path = (s1, b1, w1)" by (metis prod_cases3)
  obtain r0 w0 where 0: "simple_call w = (r0, w0)" by force
  have c1: "s1 = OK \<and> calm w1" using 0 1 simple_call_calm [OF assms(1) 0] by (auto simp: tbl_Open_def)
  obtain s2 b2 w2 where 2: "tbl_adds w1 b1 es = (s2, b2, w2)" by (metis prod_cases3)
  have w1: "tbl_writing opt path w1 b1 [] []" using tbl_Open_writing [OF 1] c1 by simp
  have c2: "s2 = OK \<and> calm w2" using tbl_adds_calm [OF _ w1 2] c1 assms(3) by (simp add: all_versions_def)
  obtain bs cur where "tbl_writing opt path w2 b2 bs cur"
    using tbl_adds_writing [OF w1 2] c2 assms(3) by (auto simp: all_versions_def)
  from tbl_Finish_calm [OF _ this] c2 assms(2) 1 2 c1 show ?thesis by (simp add: build_table_def Let_def)
qed

text \<open>
  Reopening: the file of a finished builder, opened with a cache that holds nothing
  of this file number, is a well-formed table over the versions that were added.
\<close>

lemma reopen_table:
  assumes tf: "table_file opt es bs c" and f: "file_of (re_world e) path = Some c" and fit: "table_fits opt es"
    and srt: "keys_sorted es" and c: "cache_ok (re_cache e)" "\<And>off. cache_get (re_cache e) fno off = None"
    and r: "table_Open e path opt cache fno = (r, e')"
  shows "(\<exists>F tb ess. r = Inr tb \<and> table_ok F tb ess \<and> concat ess = es \<and> env_ok F e' \<and>
      (calm (re_world e) \<longrightarrow> env_quiet e')) \<or>
    (\<exists>s. r = Inl s \<and> \<not> ok s) \<and> \<not> calm (re_world e)"
proof -
  let ?bits = "bloom_bits_per_key opt"
  define bloom where "bloom = Build (map (ExtractUserKey \<circ> fst) es) ?bits"
  have bs: "\<forall>x \<in> set bs. written_block x" "es = concat (map snd bs)" "c = table_bytes bloom bs"
    using tf by (simp_all add: table_file_def bloom_def)
  have len: "length (table_bytes bloom bs) < 2 ^ 32"
    using table_bytes_size [OF bs(1) _ _ bs(2), of opt "ExtractUserKey \<circ> fst"] fit by (simp add: table_fits_def bloom_def)
  define F where "F f = (if f = fno then block_map 0 bs else cache_get (re_cache e) f)" for f
  have "env_ok F e" using c by (auto simp: lru.coherent_def F_def)
  note sp = table_Open_spec [OF f [unfolded bs(3)] len this r]
  have "serves F fno 0 bs"
    using len by (intro serves_block_map) (simp_all add: F_def length_table_bytes)
  then have "table_ok F (opened_table path opt cache fno bloom bs) (map snd bs)"
    using bs srt len fit by (intro opened_table_ok [of _ _ ?bits]) (simp_all add: table_fits_def bloom_def)
  then show ?thesis using sp bs(2) by metis
qed

text \<open>A table built under a number nobody has used yet, seen next to the other files.\<close>

lemma reopen_table_in:
  assumes tf: "table_file opt es bs c" and f: "file_of (re_world e) path = Some c" and fit: "table_fits opt es"
    and srt: "keys_sorted es" and e: "env_ok F e" and fresh: "F fno = Map.empty"
    and r: "table_Open e path opt cache fno = (r, e')"
  shows "((\<exists>tb ess. r = Inr tb \<and> table_ok (F(fno := block_map 0 bs)) tb ess \<and> concat ess = es \<and> tb_file_number tb = fno) \<or>
      (\<exists>s. r = Inl s \<and> \<not> ok s) \<and> \<not> calm (re_world e)) \<and>
    env_ok (F(fno := block_map 0 bs)) e' \<and> env_ok F e' \<and> (calm (re_world e) \<longrightarrow> env_quiet e') \<and> files (re_world e') = files (re_world e)"
proof -
  let ?F = "F(fno := block_map 0 bs)"
  define bloom where "bloom = Build (map (ExtractUserKey \<circ> fst) es) (bloom_bits_per_key opt)"
  have bs: "\<forall>x \<in> set bs. written_block x" "es = concat (map snd bs)" "c = table_bytes bloom bs"
    using tf by (simp_all add: table_file_def bloom_def)
  have len: "length (table_bytes bloom bs) < 2 ^ 32"
    using table_bytes_size [OF bs(1) _ _ bs(2), of opt "ExtractUserKey \<circ> fst"] fit by (simp add: table_fits_def bloom_def)
  have none: "cache_get (re_cache e) fno p = None" for p
    using e fresh unfolding lru.coherent_def by (metis not_None_eq)
  have e2: "env_ok ?F e" using e none by (auto simp: lru.coherent_def)
  note sp = table_Open_spec [OF f [unfolded bs(3)] len e2 r] table_Open_spec [OF f [unfolded bs(3)] len e r]
  have "serves ?F fno 0 bs" using len by (intro serves_block_map) (simp_all add: length_table_bytes)
  then have "table_ok ?F (opened_table path opt cache fno bloom bs) (map snd bs)"
    using bs srt len fit by (intro opened_table_ok [of _ _ "bloom_bits_per_key opt"]) (simp_all add: table_fits_def bloom_def)
  moreover have "tb_file_number (opened_table path opt cache fno bloom bs) = fno" by (simp add: opened_table_def)
  ultimately show ?thesis using sp bs(2) by metis
qed

definition table_scan :: "nat \<Rightarrow> renv \<Rightarrow> TableIter \<Rightarrow> version list \<times> renv \<times> TableIter" where
  "table_scan n e it = (let (e, it) = ti_SeekToFirst e it in cursor.drain ti_valid ti_key ti_value ti_Next n e it)"

lemma table_scan_ok:
  assumes t: "table_ok F tb ess" and e: "env_ok F e" and n: "length (concat ess) \<le> n"
    and r: "table_scan n e (new_TableIter tb) = (xs, e', it)"
  shows "(ok (ti_status it) \<longrightarrow> xs = concat ess) \<and> prefix xs (concat ess) \<and> (env_quiet e \<longrightarrow> ok (ti_status it))"
proof -
  have o: "ti_opened F (new_TableIter tb) (concat ess)" using t by (auto simp: ti_opened_def new_TableIter_def)
  obtain e1 i1 where 1: "ti_SeekToFirst e (new_TableIter tb) = (e1, i1)" by force
  have d: "table_cursor.drain n e1 i1 = (xs, e', it)" using r 1 by (simp add: table_scan_def)
  from table_cursor.first_rep [OF e o 1] show ?thesis
  proof (elim conjE disjE)
    assume "ti_rep F i1 (concat ess) (concat ess)" "env_ok F e1" "env_quiet e \<longrightarrow> env_quiet e1"
    then show ?thesis using table_cursor.drain_rep [OF _ _ n d] table_cursor.drain_prefix [OF _ _ d] by blast
  next
    assume a: "ti_err i1" "\<not> env_quiet e" "env_ok F e1"
    have "\<not> ti_valid i1" using a(1) by (simp add: ti_err_def)
    then have "xs = []" using d by (cases n) auto
    then show ?thesis using a table_cursor.err_drain [OF a(3,1) n d] by simp
  qed
qed

section \<open>Properties\<close>

text \<open>C25. A table written from sorted versions and opened again answers every point lookup
  correctly. If the builder's Open, every Add and Finish returned OK, a later Table::Open with a
  cache that holds no block of this file either fails because a system call failed, or gives a
  table on which Get finds the newest version of the key at or below the sequence number (a
  tombstone included), reports that there is none, or reports a read error, the last only if a
  system call fails. The versions are any that fit the format.\<close>

theorem table_get_newest:
  assumes "build_table w opt path es = (s, b, w')" "ok s" "versions_ok es" "table_fits opt es"
    and "file_of (re_world e) path = file_of w' path"
    and "cache_ok (re_cache e)" "\<forall>off. cache_get (re_cache e) fno off = None"
    and "table_Open e path opt cache fno = (opened, e1)" "seq \<le> kMaxSequenceNumber"
  shows "case opened of
      Inl s' \<Rightarrow> \<not> ok s' \<and> \<not> calm (re_world e)
    | Inr tb \<Rightarrow> resolves (set es) key seq (fst (table_Get e1 tb key seq)) \<or>
        (\<exists>s'. fst (table_Get e1 tb key seq) = Some (Failed s') \<and> \<not> ok s') \<and> \<not> env_quiet e1"
proof -
  obtain bs c where f: "file_of w' path = Some c" "table_file opt es bs c"
    using build_table_file [OF assms(1,2) table_fits_length [OF assms(4)]] by blast
  have "(\<exists>F tb ess. opened = Inr tb \<and> table_ok F tb ess \<and> concat ess = es \<and> env_ok F e1) \<or>
      (\<exists>s. opened = Inl s \<and> \<not> ok s) \<and> \<not> calm (re_world e)"
    using reopen_table [OF f(2) _ assms(4) _ assms(6) _ assms(8)] assms(3,5,7) f(1) unfolding versions_ok_def by metis
  then show ?thesis
  proof (elim disjE exE conjE)
    fix F tb ess assume t: "opened = Inr tb" "table_ok F tb ess" "concat ess = es" "env_ok F e1"
    obtain r e2 where g: "table_Get e1 tb key seq = (r, e2)" by force
    have "resolves (set es) key seq (seek_lookup es key seq)" by (rule seek_lookup_resolves [OF assms(3,9)])
    then show ?thesis
      using table_Get_seek_lookup [OF t(2,4) _ assms(9) g] assms(3) t(1,3) g by (auto simp: versions_ok_def)
  qed simp
qed

theorem table_get_newest_witness:
  "\<exists>s b w' opened e1. build_table \<lparr>files = [], script = [Short 1, Done]\<rparr> default_Options ''7.sst''
      [(EncodeInternalKey [97] 5 kValue, [1])] = (s, b, w') \<and> ok s \<and>
    table_Open \<lparr>re_world = w', re_cache = new_BlockCache 100 2,
      re_stats = (\<lambda>_. \<lparr>blocks_read = 0, bloom_rejections = 0, cache_hits = 0\<rparr>), re_overrun = False\<rparr>
      ''7.sst'' default_Options True 7 = (opened, e1) \<and>
    (\<exists>tb. opened = Inr tb \<and>
      (resolves (set [(EncodeInternalKey [97] 5 kValue, [1])]) [97] 9 (fst (table_Get e1 tb [97] 9)) \<or>
       (\<exists>s'. fst (table_Get e1 tb [97] 9) = Some (Failed s') \<and> \<not> ok s') \<and> \<not> env_quiet e1))"
proof -
  let ?w = "\<lparr>files = [], script = [Short 1, Done]\<rparr>" and ?es = "[(EncodeInternalKey [97] 5 kValue, [1 :: byte])]"
  obtain s b w' where b: "build_table ?w default_Options ''7.sst'' ?es = (s, b, w')" by (metis prod_cases3)
  have c: "s = OK" "calm w'" using build_table_calm [OF _ b] by (simp_all add: calm_def)
  let ?e = "\<lparr>re_world = w', re_cache = new_BlockCache 100 2,
      re_stats = (\<lambda>_. \<lparr>blocks_read = 0, bloom_rejections = 0, cache_hits = 0\<rparr>), re_overrun = False\<rparr>"
  obtain opened e1 where o: "table_Open ?e ''7.sst'' default_Options True 7 = (opened, e1)" by force
  have "versions_ok ?es" by (simp add: versions_ok_def keys_sorted_def version_ok_def ikey_ok_def type_ok_def kTagSize_def kMaxSequenceNumber_def)
  moreover have "table_fits default_Options ?es"
    by (simp add: table_fits_def table_weight_def version_weight_def default_Options_def)
  moreover have "cache_ok (new_BlockCache 100 2)" "\<forall>off. cache_get (new_BlockCache 100 2) 7 off = None"
    using cache_new [of 100 2] by simp_all
  ultimately have "case opened of
      Inl s' \<Rightarrow> \<not> ok s' \<and> \<not> calm (re_world ?e)
    | Inr tb \<Rightarrow> resolves (set ?es) [97] 9 (fst (table_Get e1 tb [97] 9)) \<or>
        (\<exists>s'. fst (table_Get e1 tb [97] 9) = Some (Failed s') \<and> \<not> ok s') \<and> \<not> env_quiet e1"
    using c by (intro table_get_newest [OF b _ _ _ _ _ _ o]) (simp_all add: kMaxSequenceNumber_def)
  with b o c show ?thesis by (cases opened) auto
qed

text \<open>C26. A scan of a reopened table yields exactly the versions that were added, in order:
  SeekToFirst and Next until the iterator is invalid with an OK status. A scan that ends with an
  error has seen a prefix of them, and errors only occur when a system call fails.\<close>

theorem table_scan_round_trip:
  assumes "build_table w opt path es = (s, b, w')" "ok s" "versions_ok es" "table_fits opt es"
    and "file_of (re_world e) path = file_of w' path"
    and "cache_ok (re_cache e)" "\<forall>off. cache_get (re_cache e) fno off = None"
    and "table_Open e path opt cache fno = (Inr tb, e1)" "length es \<le> n"
    and "table_scan n e1 (new_TableIter tb) = (xs, e2, it)"
  shows "(ok (ti_status it) \<longrightarrow> xs = es) \<and> prefix xs es \<and> (env_quiet e1 \<longrightarrow> ok (ti_status it))"
proof -
  obtain bs c where f: "file_of w' path = Some c" "table_file opt es bs c"
    using build_table_file [OF assms(1,2) table_fits_length [OF assms(4)]] by blast
  obtain F ess where t: "table_ok F tb ess" "concat ess = es" "env_ok F e1"
    using reopen_table [OF f(2) _ assms(4) _ assms(6) _ assms(8)] assms(3,5,7) f(1) by (auto simp: versions_ok_def)
  from table_scan_ok [OF t(1,3) _ assms(10)] assms(9) t(2) show ?thesis by simp
qed

theorem table_scan_round_trip_witness:
  "\<exists>s b w' opened e1. build_table \<lparr>files = [], script = []\<rparr> default_Options ''7.sst''
      [(EncodeInternalKey [97] 5 kValue, [1]), (EncodeInternalKey [97] 4 kDeletion, [])] = (s, b, w') \<and>
    table_Open \<lparr>re_world = w', re_cache = new_BlockCache 100 2,
      re_stats = (\<lambda>_. \<lparr>blocks_read = 0, bloom_rejections = 0, cache_hits = 0\<rparr>), re_overrun = False\<rparr>
      ''7.sst'' default_Options True 7 = (opened, e1) \<and>
    (\<exists>tb. opened = Inr tb \<and> fst (table_scan 2 e1 (new_TableIter tb)) =
      [(EncodeInternalKey [97] 5 kValue, [1]), (EncodeInternalKey [97] 4 kDeletion, [])])"
proof -
  let ?w = "\<lparr>files = [], script = []\<rparr>"
    and ?es = "[(EncodeInternalKey [97] 5 kValue, [1 :: byte]), (EncodeInternalKey [97] 4 kDeletion, [])]"
  obtain s b w' where b: "build_table ?w default_Options ''7.sst'' ?es = (s, b, w')" by (metis prod_cases3)
  have c: "s = OK" "calm w'" using build_table_calm [OF _ b] by (simp_all add: calm_def)
  let ?e = "\<lparr>re_world = w', re_cache = new_BlockCache 100 2,
      re_stats = (\<lambda>_. \<lparr>blocks_read = 0, bloom_rejections = 0, cache_hits = 0\<rparr>), re_overrun = False\<rparr>"
  obtain opened e1 where o: "table_Open ?e ''7.sst'' default_Options True 7 = (opened, e1)" by force
  have ok: "versions_ok ?es"
    by (simp add: versions_ok_def keys_sorted_def version_ok_def ikey_ok_def type_ok_def kTagSize_def
        kMaxSequenceNumber_def less_ikey_def ikey_of_def PackTag_def kValue_def kDeletion_def)
  have fit: "table_fits default_Options ?es"
    by (simp add: table_fits_def table_weight_def version_weight_def default_Options_def)
  have cache: "cache_ok (re_cache ?e)" "\<forall>off. cache_get (re_cache ?e) 7 off = None"
    using cache_new [of 100 2] by simp_all
  obtain bs c where f: "file_of w' ''7.sst'' = Some c" "table_file default_Options ?es bs c"
    using build_table_file [OF b] c by auto
  have srt: "keys_sorted ?es" using ok by (simp add: versions_ok_def)
  have "file_of (re_world ?e) ''7.sst'' = Some c" using f by simp
  from reopen_table [OF f(2) this fit srt cache(1) cache(2) [rule_format] o] c
  obtain tb where tb: "opened = Inr tb" "env_quiet e1" by auto
  obtain xs e2 it where sc: "table_scan 2 e1 (new_TableIter tb) = (xs, e2, it)" by (metis prod_cases3)
  have "xs = ?es"
    using table_scan_round_trip [OF b _ ok fit _ cache o [unfolded tb(1)] _ sc] c tb(2) by simp
  with b o tb sc show ?thesis by simp
qed

end
