(* ===== verification/Version_Set.thy ===== *)
theory Version_Set
  imports Table_Builder
begin

text \<open>
  The tree of tables: \<open>FileMetaData\<close> and \<open>Version\<close> of \<open>include/lsm/db.h\<close>, the
  helpers of \<open>src/db.cpp\<close> that look at them, and what it means that a file, a
  level and a version are well-formed over given versions of keys.
\<close>

section \<open>Definitions\<close>

definition kNumLevels :: nat where "kNumLevels = 7"

record FileMetaData =
  fm_number :: u64
  fm_file_size :: u64
  fm_smallest :: bytes
  fm_largest :: bytes
  fm_table :: Table

type_synonym Version = "FileMetaData list list"

definition empty_Version :: Version where
  "empty_Version = replicate kNumLevels []"

definition LevelBytes :: "Version \<Rightarrow> nat \<Rightarrow> u64" where
  "LevelBytes v level = foldl (\<lambda>total f. total + fm_file_size f) 0 (v ! level)"

definition NumFiles :: "Version \<Rightarrow> nat" where
  "NumFiles v = foldl (\<lambda>n level. n + length level) 0 v"

definition MaxBytesForLevel :: "Options \<Rightarrow> nat \<Rightarrow> u64" where
  "MaxBytesForLevel opt level =
     (if level \<le> 1 then max_bytes_for_level_base opt
      else foldl (\<lambda>result i. result * 10) (max_bytes_for_level_base opt) [1..<level])"

definition RangesOverlap :: "FileMetaData \<Rightarrow> bytes \<Rightarrow> bytes \<Rightarrow> bool" where
  "RangesOverlap f smallest_user largest_user =
     (if ExtractUserKey (fm_largest f) < smallest_user then False
      else if largest_user < ExtractUserKey (fm_smallest f) then False
      else True)"

section \<open>Well-formed files and levels\<close>

text \<open>\<open>file_ok F f es\<close>: the file holds the versions \<open>es\<close>, and its key range is theirs.\<close>

definition file_ok :: "(u64 \<Rightarrow> u64 \<Rightarrow> bytes option) \<Rightarrow> FileMetaData \<Rightarrow> version list \<Rightarrow> bool" where
  "file_ok F f es \<longleftrightarrow> es \<noteq> [] \<and> fm_smallest f = fst (hd es) \<and> fm_largest f = fst (last es) \<and>
     (\<exists>ess. table_ok F (fm_table f) ess \<and> es = concat ess)"

text \<open>
  \<open>level_ok\<close>: a level below the first, whose files are in key order and share no
  user key, so that at most one of them can hold a given key.
\<close>

definition user_keys :: "version list \<Rightarrow> bytes set" where
  "user_keys es = (\<lambda>e. ExtractUserKey (fst e)) ` set es"

definition user_disjoint :: "version list list \<Rightarrow> bool" where
  "user_disjoint ess \<longleftrightarrow> sorted_wrt (\<lambda>es es'. \<forall>k \<in> user_keys es. \<forall>k' \<in> user_keys es'. k < k') ess"

definition level_ok :: "(u64 \<Rightarrow> u64 \<Rightarrow> bytes option) \<Rightarrow> FileMetaData list \<Rightarrow> version list list \<Rightarrow> bool" where
  "level_ok F fs ess \<longleftrightarrow> list_all2 (file_ok F) fs ess \<and> user_disjoint ess"

lemma file_ok_sorted: "file_ok F f es \<Longrightarrow> keys_sorted es"
  by (auto simp: file_ok_def table_ok_def)

lemma level_ok_length: "level_ok F fs ess \<Longrightarrow> length fs = length ess"
  by (auto simp: level_ok_def dest: list_all2_lengthD)

lemma level_ok_nth: "level_ok F fs ess \<Longrightarrow> i < length ess \<Longrightarrow> file_ok F (fs ! i) (ess ! i)"
  by (auto simp: level_ok_def list_all2_conv_all_nth)

text \<open>Files that share no user key and follow each other make one sorted run.\<close>

lemma user_less_ikey: "ExtractUserKey a < ExtractUserKey b \<Longrightarrow> ikey_of a < ikey_of b"
  by (simp add: less_ikey_def)

lemma user_disjoint_sorted:
  "user_disjoint ess \<Longrightarrow> \<forall>es \<in> set ess. keys_sorted es \<Longrightarrow> keys_sorted (concat ess)"
proof (induction ess)
  case (Cons es ess)
  have "ikey_of (fst x) < ikey_of (fst y)" if "x \<in> set es" "y \<in> set (concat ess)" for x y
    using Cons.prems(1) that by (intro user_less_ikey) (fastforce simp: user_disjoint_def user_keys_def)
  then show ?case using Cons by (auto simp: keys_sorted_append user_disjoint_def)
qed simp

lemma level_ok_sorted: "level_ok F fs ess \<Longrightarrow> keys_sorted (concat ess)"
proof -
  assume l: "level_ok F fs ess"
  have "keys_sorted es" if "es \<in> set ess" for es
    using l that file_ok_sorted unfolding level_ok_def list_all2_conv_all_nth in_set_conv_nth by metis
  then show ?thesis using l by (intro user_disjoint_sorted) (auto simp: level_ok_def)
qed

text \<open>The blocks that matter to a file are those under its own number.\<close>

lemma table_ok_cong: "F' (tb_file_number tb) = F (tb_file_number tb) \<Longrightarrow> table_ok F tb ess \<Longrightarrow> table_ok F' tb ess"
  unfolding table_ok_def block_ok_at_def by simp

lemma file_ok_cong:
  "F' (tb_file_number (fm_table f)) = F (tb_file_number (fm_table f)) \<Longrightarrow> file_ok F f es \<Longrightarrow> file_ok F' f es"
  using table_ok_cong unfolding file_ok_def by blast

lemma file_ok_other: "file_ok F f es \<Longrightarrow> tb_file_number (fm_table f) \<noteq> n \<Longrightarrow> file_ok (F(n := g)) f es"
  by (rule file_ok_cong) simp_all

lemma list_all2_cong_left: "list_all2 P xs ys \<Longrightarrow> (\<And>x y. x \<in> set xs \<Longrightarrow> P x y \<Longrightarrow> Q x y) \<Longrightarrow> list_all2 Q xs ys"
  by (simp add: list_all2_conv_all_nth)

lemma level_ok_other:
  "level_ok F fs ess \<Longrightarrow> (\<And>f. f \<in> set fs \<Longrightarrow> tb_file_number (fm_table f) \<noteq> n) \<Longrightarrow> level_ok (F(n := g)) fs ess"
  unfolding level_ok_def by (auto elim!: list_all2_cong_left intro: file_ok_other)

end
