(* ===== verification/Level_Iterator.thy ===== *)
theory Level_Iterator
  imports Version_Set
begin

text \<open>
  \<open>LevelIterator\<close> of \<open>src/db.cpp\<close>: one cursor over a level below the first. It
  opens the tables of the level one after the other. Shown here to satisfy the
  cursor contract over the concatenation of its files.
\<close>

section \<open>Definitions\<close>

record LevelIter =
  lv_files :: "FileMetaData list"
  lv_index :: nat
  lv_iter :: "TableIter option"
  lv_status :: status

definition new_LevelIter :: "FileMetaData list \<Rightarrow> LevelIter" where
  "new_LevelIter fs = \<lparr>lv_files = fs, lv_index = 0, lv_iter = None, lv_status = OK\<rparr>"

definition lv_Valid :: "LevelIter \<Rightarrow> bool" where
  "lv_Valid s = (case lv_iter s of None \<Rightarrow> False | Some it \<Rightarrow> ti_valid it)"

definition OpenCurrentFile :: "LevelIter \<Rightarrow> LevelIter" where
  "OpenCurrentFile s = s\<lparr>lv_iter := (if lv_index s < length (lv_files s)
     then Some (new_TableIter (fm_table (lv_files s ! lv_index s))) else None)\<rparr>"

text \<open>An operation of the current table cursor, when there is one.\<close>

definition on_iter :: "(renv \<Rightarrow> TableIter \<Rightarrow> renv \<times> TableIter) \<Rightarrow> renv \<Rightarrow> LevelIter \<Rightarrow> renv \<times> LevelIter" where
  "on_iter f e s = (case lv_iter s of None \<Rightarrow> (e, s)
     | Some it \<Rightarrow> let (e, it) = f e it in (e, s\<lparr>lv_iter := Some it\<rparr>))"

function SkipEmptyFilesForward :: "renv \<Rightarrow> LevelIter \<Rightarrow> renv \<times> LevelIter" where
  "SkipEmptyFilesForward e s =
     (case lv_iter s of
        None \<Rightarrow> (e, s)
      | Some it \<Rightarrow>
          if ti_valid it then (e, s)
          else if \<not> ok (ti_status it) then (e, s\<lparr>lv_status := ti_status it\<rparr>)
          else let (e, s) = on_iter ti_SeekToFirst e (OpenCurrentFile (s\<lparr>lv_index := lv_index s + 1\<rparr>))
               in SkipEmptyFilesForward e s)"
  by pat_completeness auto
termination
  by (relation "measure (\<lambda>(e, s). case lv_iter s of None \<Rightarrow> 0 | Some it \<Rightarrow> Suc (length (lv_files s) - lv_index s))")
    (auto simp: on_iter_def OpenCurrentFile_def split: if_splits prod.splits option.splits)

declare SkipEmptyFilesForward.simps [simp del]

definition lv_SeekToFirst :: "renv \<Rightarrow> LevelIter \<Rightarrow> renv \<times> LevelIter" where
  "lv_SeekToFirst e s =
     (let (e, s) = on_iter ti_SeekToFirst e (OpenCurrentFile (s\<lparr>lv_index := 0\<rparr>))
      in SkipEmptyFilesForward e s)"

definition lv_Seek :: "renv \<Rightarrow> LevelIter \<Rightarrow> bytes \<Rightarrow> renv \<times> LevelIter" where
  "lv_Seek e s target =
     (let fs = lv_files s;
          lo = bisect (\<lambda>mid. CompareInternalKey (fm_largest (fs ! mid)) target < 0) 0 (length fs);
          (e, s) = on_iter (\<lambda>e it. ti_Seek e it target) e (OpenCurrentFile (s\<lparr>lv_index := lo\<rparr>))
      in SkipEmptyFilesForward e s)"

definition lv_Next :: "renv \<Rightarrow> LevelIter \<Rightarrow> renv \<times> LevelIter" where
  "lv_Next e s = (let (e, s) = on_iter ti_Next e s in SkipEmptyFilesForward e s)"

definition lv_key :: "LevelIter \<Rightarrow> bytes" where
  "lv_key s = (case lv_iter s of None \<Rightarrow> [] | Some it \<Rightarrow> ti_key it)"

definition lv_value :: "LevelIter \<Rightarrow> bytes" where
  "lv_value s = (case lv_iter s of None \<Rightarrow> [] | Some it \<Rightarrow> ti_value it)"

definition lv_stat :: "LevelIter \<Rightarrow> status" where
  "lv_stat s = (if \<not> ok (lv_status s) then lv_status s
     else case lv_iter s of None \<Rightarrow> OK | Some it \<Rightarrow> ti_status it)"

section \<open>The cursor contract\<close>

definition lv_opened :: "(u64 \<Rightarrow> u64 \<Rightarrow> bytes option) \<Rightarrow> LevelIter \<Rightarrow> version list \<Rightarrow> bool" where
  "lv_opened F s es \<longleftrightarrow> ok (lv_status s) \<and> (\<exists>ess. level_ok F (lv_files s) ess \<and> es = concat ess)"

definition lv_at :: "(u64 \<Rightarrow> u64 \<Rightarrow> bytes option) \<Rightarrow> LevelIter \<Rightarrow> version list list \<Rightarrow> version list \<Rightarrow> bool" where
  "lv_at F s ess rest \<longleftrightarrow>
     (case lv_iter s of
        None \<Rightarrow> rest = []
      | Some it \<Rightarrow> lv_index s < length ess \<and> (\<exists>r. r \<noteq> [] \<and> ti_rep F it (ess ! lv_index s) r \<and>
          rest = r @ concat (drop (Suc (lv_index s)) ess)))"

definition lv_rep :: "(u64 \<Rightarrow> u64 \<Rightarrow> bytes option) \<Rightarrow> LevelIter \<Rightarrow> version list \<Rightarrow> version list \<Rightarrow> bool" where
  "lv_rep F s es rest \<longleftrightarrow> ok (lv_status s) \<and>
     (\<exists>ess. level_ok F (lv_files s) ess \<and> es = concat ess \<and> lv_at F s ess rest)"

definition lv_err :: "LevelIter \<Rightarrow> bool" where
  "lv_err s \<longleftrightarrow> \<not> lv_Valid s \<and> \<not> ok (lv_stat s)"

text \<open>
  In the loop that skips exhausted files: the current table cursor has failed, or
  it stands at \<open>r\<close> and everything behind its file follows.
\<close>

definition lv_mid :: "(u64 \<Rightarrow> u64 \<Rightarrow> bytes option) \<Rightarrow> LevelIter \<Rightarrow> version list list \<Rightarrow> version list \<Rightarrow> bool" where
  "lv_mid F s ess rest \<longleftrightarrow> ok (lv_status s) \<and> level_ok F (lv_files s) ess \<and>
     (case lv_iter s of
        None \<Rightarrow> rest = []
      | Some it \<Rightarrow> lv_index s < length ess \<and> (\<exists>r. ti_rep F it (ess ! lv_index s) r \<and>
          rest = r @ concat (drop (Suc (lv_index s)) ess)))"

definition lv_fail :: "LevelIter \<Rightarrow> bool" where
  "lv_fail s \<longleftrightarrow> (\<exists>it. lv_iter s = Some it \<and> ti_err it)"

lemma SkipEmptyFilesForward_fail: "lv_fail s \<Longrightarrow> lv_err (snd (SkipEmptyFilesForward e s)) \<and> fst (SkipEmptyFilesForward e s) = e"
  by (auto simp: SkipEmptyFilesForward.simps [of e s] lv_fail_def ti_err_def lv_err_def lv_Valid_def lv_stat_def)

lemma new_TableIter_opened: "file_ok F f es \<Longrightarrow> ti_opened F (new_TableIter (fm_table f)) es"
  by (auto simp: file_ok_def ti_opened_def new_TableIter_def)

lemma open_first_mid:
  assumes l: "level_ok F (lv_files s) ess" "ok (lv_status s)" and e: "env_ok F e"
    and r: "on_iter ti_SeekToFirst e (OpenCurrentFile s) = (e', s')"
  shows "env_ok F e' \<and> (env_quiet e \<longrightarrow> env_quiet e') \<and>
    (lv_mid F s' ess (concat (drop (lv_index s) ess)) \<or> lv_fail s' \<and> \<not> env_quiet e)"
proof (cases "lv_index s < length ess")
  case True
  note o = new_TableIter_opened [OF level_ok_nth [OF l(1) True]]
  obtain e1 it where 1: "ti_SeekToFirst e (new_TableIter (fm_table (lv_files s ! lv_index s))) = (e1, it)" by force
  have s': "s' = s\<lparr>lv_iter := Some it\<rparr>" "e' = e1"
    using r True 1 by (simp_all add: on_iter_def OpenCurrentFile_def level_ok_length [OF l(1)])
  from table_cursor.first_rep [OF e o 1] s' l True Cons_nth_drop_Suc [OF True, symmetric] show ?thesis
    by (auto simp: lv_mid_def lv_fail_def)
next
  case False
  then show ?thesis using r l e by (auto simp: on_iter_def OpenCurrentFile_def level_ok_length lv_mid_def)
qed

lemma SkipEmptyFilesForward_mid:
  assumes "env_ok F e" "lv_mid F s ess rest" "SkipEmptyFilesForward e s = (e', s')"
  shows "env_ok F e' \<and> (env_quiet e \<longrightarrow> env_quiet e') \<and>
    (lv_rep F s' (concat ess) rest \<or> lv_err s' \<and> \<not> env_quiet e)"
  using assms
proof (induction e s rule: SkipEmptyFilesForward.induct)
  case (1 e s)
  note unf = SkipEmptyFilesForward.simps [of e s]
  show ?case
  proof (cases "lv_iter s")
    case None
    then show ?thesis using "1.prems" by (auto simp: unf lv_mid_def lv_rep_def lv_at_def)
  next
    case (Some it)
    from "1.prems"(2) Some obtain r where m: "ok (lv_status s)" "level_ok F (lv_files s) ess" "lv_index s < length ess"
      "ti_rep F it (ess ! lv_index s) r" "rest = r @ concat (drop (Suc (lv_index s)) ess)"
      by (auto simp: lv_mid_def)
    show ?thesis
    proof (cases "ti_valid it")
      case True
      then have "r \<noteq> []" using table_cursor.rep_valid [OF m(4)] by simp
      with m Some True "1.prems" show ?thesis by (auto simp: unf lv_rep_def lv_at_def)
    next
      case False
      have r: "r = []" "ok (ti_status it)" using False table_cursor.rep_valid [OF m(4)] table_cursor.rep_stat [OF m(4)] by auto
      let ?s = "s\<lparr>lv_index := lv_index s + 1\<rparr>"
      obtain e1 s1 where o: "on_iter ti_SeekToFirst e (OpenCurrentFile ?s) = (e1, s1)" by force
      have rec: "SkipEmptyFilesForward e1 s1 = (e', s')" using "1.prems"(3) Some False r o by (simp add: unf)
      have mid: "env_ok F e1 \<and> (env_quiet e \<longrightarrow> env_quiet e1) \<and> (lv_mid F s1 ess rest \<or> lv_fail s1 \<and> \<not> env_quiet e)"
        using open_first_mid [of F ?s ess e e1 s1] m o "1.prems"(1) r by simp
      show ?thesis
      proof (cases "lv_mid F s1 ess rest")
        case True
        from "1.IH" [OF Some False _ o [symmetric] refl _ True rec] mid r show ?thesis by auto
      next
        case False
        then show ?thesis using mid SkipEmptyFilesForward_fail [of s1 e1] rec by auto
      qed
    qed
  qed
qed

lemma skip_after:
  assumes "env_ok F e1 \<and> (env_quiet e \<longrightarrow> env_quiet e1) \<and> (lv_mid F s1 ess rest \<or> lv_fail s1 \<and> \<not> env_quiet e)"
    "SkipEmptyFilesForward e1 s1 = (e', s')"
  shows "env_ok F e' \<and> (env_quiet e \<longrightarrow> env_quiet e') \<and>
    (lv_rep F s' (concat ess) rest \<or> lv_err s' \<and> \<not> env_quiet e)"
proof (cases "lv_mid F s1 ess rest")
  case True
  then show ?thesis using SkipEmptyFilesForward_mid [OF _ True assms(2)] assms(1) by auto
next
  case False
  then show ?thesis using assms SkipEmptyFilesForward_fail [of s1 e1] by auto
qed

lemma lv_first_rep:
  assumes "env_ok F e" "lv_opened F s es" "lv_SeekToFirst e s = (e', s')"
  shows "env_ok F e' \<and> (env_quiet e \<longrightarrow> env_quiet e') \<and> (lv_rep F s' es es \<or> lv_err s' \<and> \<not> env_quiet e)"
proof -
  obtain ess where l: "level_ok F (lv_files s) ess" "es = concat ess" "ok (lv_status s)"
    using assms(2) by (auto simp: lv_opened_def)
  obtain e1 s1 where o: "on_iter ti_SeekToFirst e (OpenCurrentFile (s\<lparr>lv_index := 0\<rparr>)) = (e1, s1)" by force
  have rec: "SkipEmptyFilesForward e1 s1 = (e', s')" using assms(3) o by (simp add: lv_SeekToFirst_def)
  from skip_after [OF open_first_mid [OF _ _ assms(1) o] rec] l show ?thesis by simp
qed

lemma lv_seek_rep:
  assumes "env_ok F e" "lv_opened F s es" "lv_Seek e s t = (e', s')" "length t < 2 ^ 32"
  shows "env_ok F e' \<and> (env_quiet e \<longrightarrow> env_quiet e') \<and>
    (lv_rep F s' es (dropWhile (below t) es) \<or> lv_err s' \<and> \<not> env_quiet e)"
proof -
  obtain ess where l: "level_ok F (lv_files s) ess" "es = concat ess" "ok (lv_status s)"
    using assms(2) by (auto simp: lv_opened_def)
  note len = level_ok_length [OF l(1)]
  define n where "n = bisect (\<lambda>mid. CompareInternalKey (fm_largest (lv_files s ! mid)) t < 0) 0 (length ess)"
  have "ess ! i \<noteq> []" "CompareInternalKey (fm_largest (lv_files s ! i)) t < 0 \<longleftrightarrow> below t (last (ess ! i))" if "i < length ess" for i
    using level_ok_nth [OF l(1) that] by (auto simp: file_ok_def key_order)
  then have sk: "n \<le> length ess" "dropWhile (below t) es =
      (if n < length ess then dropWhile (below t) (ess ! n) @ concat (drop (Suc n) ess) else [])"
    using runs_seek [OF level_ok_sorted [OF l(1)], of "\<lambda>mid. CompareInternalKey (fm_largest (lv_files s ! mid)) t < 0" t,
        folded n_def] l(2) by blast+
  let ?s = "s\<lparr>lv_index := n\<rparr>"
  obtain e1 s1 where o: "on_iter (\<lambda>e it. ti_Seek e it t) e (OpenCurrentFile ?s) = (e1, s1)" by force
  have rec: "SkipEmptyFilesForward e1 s1 = (e', s')" using assms(3) o len by (simp add: lv_Seek_def n_def)
  have "env_ok F e1 \<and> (env_quiet e \<longrightarrow> env_quiet e1) \<and>
      (lv_mid F s1 ess (dropWhile (below t) es) \<or> lv_fail s1 \<and> \<not> env_quiet e)"
  proof (cases "n < length ess")
    case True
    note op = new_TableIter_opened [OF level_ok_nth [OF l(1) True]]
    obtain e2 it where 1: "ti_Seek e (new_TableIter (fm_table (lv_files s ! n))) t = (e2, it)" by force
    have s1: "s1 = ?s\<lparr>lv_iter := Some it\<rparr>" "e1 = e2"
      using o True 1 len by (simp_all add: on_iter_def OpenCurrentFile_def)
    from table_cursor.seek_rep [OF assms(1) op assms(4) 1] s1 l True sk show ?thesis
      by (auto simp: lv_mid_def lv_fail_def)
  next
    case False
    then show ?thesis using o l assms(1) len sk by (auto simp: on_iter_def OpenCurrentFile_def lv_mid_def)
  qed
  from skip_after [OF this rec] l show ?thesis by simp
qed

lemma lv_next_rep:
  assumes "env_ok F e" "lv_rep F s es (x # rest)" "lv_Next e s = (e', s')"
  shows "env_ok F e' \<and> (env_quiet e \<longrightarrow> env_quiet e') \<and> (lv_rep F s' es rest \<or> lv_err s' \<and> \<not> env_quiet e)"
proof -
  obtain ess it y r where l: "level_ok F (lv_files s) ess" "es = concat ess" "ok (lv_status s)" "lv_iter s = Some it"
    "lv_index s < length ess" "ti_rep F it (ess ! lv_index s) (y # r)" "rest = r @ concat (drop (Suc (lv_index s)) ess)"
    using assms(2) by (auto simp: lv_rep_def lv_at_def neq_Nil_conv split: option.splits)
  obtain e1 it1 where 1: "ti_Next e it = (e1, it1)" by force
  let ?s = "s\<lparr>lv_iter := Some it1\<rparr>"
  have rec: "SkipEmptyFilesForward e1 ?s = (e', s')" using assms(3) l(4) 1 by (simp add: lv_Next_def on_iter_def)
  have "env_ok F e1 \<and> (env_quiet e \<longrightarrow> env_quiet e1) \<and> (lv_mid F ?s ess rest \<or> lv_fail ?s \<and> \<not> env_quiet e)"
    using table_cursor.step_rep [OF assms(1) l(6) 1] l by (auto simp: lv_mid_def lv_fail_def)
  from skip_after [OF this rec] l(2) show ?thesis by simp
qed

lemma lv_rep_suffix: "lv_rep F s es rest \<Longrightarrow> \<exists>used. es = used @ rest"
proof -
  assume "lv_rep F s es rest"
  then obtain ess where ess: "es = concat ess" "lv_at F s ess rest" by (auto simp: lv_rep_def)
  show ?thesis
  proof (cases "lv_iter s")
    case (Some it)
    then obtain r where r: "lv_index s < length ess" "ti_rep F it (ess ! lv_index s) r"
      "rest = r @ concat (drop (Suc (lv_index s)) ess)" using ess(2) by (auto simp: lv_at_def)
    obtain used where "ess ! lv_index s = used @ r" using table_cursor.rep_suffix [OF r(2)] by blast
    then have "es = (concat (take (lv_index s) ess) @ used) @ rest"
      using concat_split [OF r(1)] r(3) ess(1) by simp
    then show ?thesis by blast
  qed (use ess in \<open>simp add: lv_at_def\<close>)
qed

interpretation level_cursor: strict_cursor "env_ok F" env_quiet "lv_opened F" "lv_rep F" "\<lambda>s n. lv_err s"
  lv_Valid lv_key lv_value lv_stat lv_SeekToFirst lv_Seek lv_Next for F
proof
  show "\<And>s es rest. lv_rep F s es rest \<Longrightarrow> lv_opened F s es" by (auto simp: lv_rep_def lv_opened_def)
  show "\<And>s es. lv_opened F s es \<Longrightarrow> keys_le es"
    by (auto simp: lv_opened_def intro!: keys_sorted_le dest: level_ok_sorted)
  show "\<And>s es rest. lv_rep F s es rest \<Longrightarrow> lv_Valid s \<longleftrightarrow> rest \<noteq> []"
    by (auto simp: lv_rep_def lv_at_def lv_Valid_def dest: table_cursor.rep_valid split: option.splits)
  show "\<And>s es x rest. lv_rep F s es (x # rest) \<Longrightarrow> lv_key s = fst x \<and> lv_value s = snd x"
    by (auto simp: lv_rep_def lv_at_def lv_key_def lv_value_def neq_Nil_conv dest!: ti_rep_head split: option.splits)
  show "\<And>s es rest. lv_rep F s es rest \<Longrightarrow> ok (lv_stat s)"
    by (auto simp: lv_rep_def lv_at_def lv_stat_def dest: table_cursor.rep_stat split: option.splits)
qed ((rule lv_rep_suffix lv_first_rep lv_seek_rep lv_next_rep; assumption) | simp add: lv_err_def)+

end
