(* ===== verification/Binary_Heap.thy ===== *)
theory Binary_Heap
  imports Main "HOL-Library.Multiset"
begin

text \<open>
  The array heap inside \<open>MergingIterator\<close> (\<open>src/iterator.cpp\<close>): \<open>SiftDown\<close> and
  Floyd's construction, over slots compared by \<open>Greater\<close>. The code moves entries
  up into a hole and writes the sifted slot at the end; the proofs look at the
  array with the slot in the hole, where each round is a swap.
\<close>

section \<open>Definitions\<close>

function SiftLoop :: "(nat \<Rightarrow> nat \<Rightarrow> bool) \<Rightarrow> nat \<Rightarrow> nat list \<Rightarrow> nat \<Rightarrow> nat list \<times> nat" where
  "SiftLoop gr slot heap pos =
     (let n = length heap; left = 2 * pos + 1 in
      if n \<le> left then (heap, pos)
      else let right = left + 1;
               smallest = (if right < n \<and> gr (heap ! left) (heap ! right) then right else left)
        in if \<not> gr slot (heap ! smallest) then (heap, pos)
           else SiftLoop gr slot (heap[pos := heap ! smallest]) smallest)"
  by pat_completeness auto
termination
  by (relation "measure (\<lambda>(gr, slot, heap, pos). length heap - pos)") (auto simp: Let_def)

declare SiftLoop.simps [simp del]

definition SiftDown :: "(nat \<Rightarrow> nat \<Rightarrow> bool) \<Rightarrow> nat list \<Rightarrow> nat \<Rightarrow> nat list" where
  "SiftDown gr heap pos =
     (let slot = heap ! pos; (heap, pos) = SiftLoop gr slot heap pos in heap[pos := slot])"

text \<open>\<open>for (size_t i = heap_.size() / 2; i-- > 0;) SiftDown(i)\<close>\<close>

definition Heapify :: "(nat \<Rightarrow> nat \<Rightarrow> bool) \<Rightarrow> nat list \<Rightarrow> nat list" where
  "Heapify gr heap = foldl (SiftDown gr) heap (rev [0..<length heap div 2])"

section \<open>Heaps\<close>

abbreviation parent :: "nat \<Rightarrow> nat" where
  "parent i \<equiv> (i - 1) div 2"

text \<open>
  \<open>heap_from f k h\<close>: the children of every node from \<open>k\<close> on are not smaller than it.
  \<open>heap_but f k p h\<close>: the same, except that the node \<open>p\<close> may be larger than its
  children; its parent is not larger than them.
\<close>

definition heap_from :: "(nat \<Rightarrow> 'a::linorder) \<Rightarrow> nat \<Rightarrow> nat list \<Rightarrow> bool" where
  "heap_from f k h \<longleftrightarrow> (\<forall>i < length h. 0 < i \<longrightarrow> k \<le> parent i \<longrightarrow> f (h ! parent i) \<le> f (h ! i))"

definition heap_but :: "(nat \<Rightarrow> 'a::linorder) \<Rightarrow> nat \<Rightarrow> nat \<Rightarrow> nat list \<Rightarrow> bool" where
  "heap_but f k p h \<longleftrightarrow>
     (\<forall>i < length h. 0 < i \<longrightarrow> k \<le> parent i \<longrightarrow> parent i \<noteq> p \<longrightarrow> f (h ! parent i) \<le> f (h ! i)) \<and>
     (\<forall>i < length h. 0 < i \<longrightarrow> parent i = p \<longrightarrow> 0 < p \<longrightarrow> k \<le> parent p \<longrightarrow> f (h ! parent p) \<le> f (h ! i))"

lemma heap_from_min:
  assumes "heap_from f 0 h" "i < length h"
  shows "f (h ! 0) \<le> f (h ! i)"
  using assms(2)
proof (induction i rule: less_induct)
  case (less i)
  show ?case
  proof (cases "i = 0")
    case False
    then have "parent i < i" "f (h ! parent i) \<le> f (h ! i)" using assms(1) less.prems by (auto simp: heap_from_def)
    then show ?thesis using less.IH [of "parent i"] less.prems by (meson less_trans order_trans)
  qed simp
qed

lemma parent_cases: "0 < i \<Longrightarrow> parent i = p \<Longrightarrow> i = 2 * p + 1 \<or> i = 2 * p + 2"
  by presburger

lemma heap_but_leaf:
  assumes "heap_but f k p h" "length h \<le> 2 * p + 1"
  shows "heap_from f k h"
  using assms unfolding heap_but_def heap_from_def by (metis leD le_add1 le_trans parent_cases one_add_one add.assoc)

lemma heap_but_stop:
  assumes "heap_but f k p h" "\<And>i. i < length h \<Longrightarrow> i = 2 * p + 1 \<or> i = 2 * p + 2 \<Longrightarrow> f (h ! p) \<le> f (h ! i)"
  shows "heap_from f k h"
  using assms unfolding heap_but_def heap_from_def by (metis parent_cases)

text \<open>One round: swap the hole with its smaller child.\<close>

lemma heap_but_swap:
  assumes h: "heap_but f k p h" and c: "c < length h" "c = 2 * p + 1 \<or> c = 2 * p + 2" and kp: "k \<le> p"
    and less: "f (h ! c) \<le> f (h ! p)"
    and small: "\<And>i. i < length h \<Longrightarrow> i = 2 * p + 1 \<or> i = 2 * p + 2 \<Longrightarrow> f (h ! c) \<le> f (h ! i)"
  shows "heap_but f k c (h[p := h ! c, c := h ! p])"
proof -
  let ?h = "h[p := h ! c, c := h ! p]"
  have pc: "p < c" "parent c = p" "p < length h" using c by auto
  have nth: "?h ! p = h ! c" "?h ! c = h ! p" "\<And>i. i \<noteq> p \<Longrightarrow> i \<noteq> c \<Longrightarrow> ?h ! i = h ! i"
    using pc c(1) by (auto simp: nth_list_update)
  have 1: "f (?h ! parent i) \<le> f (?h ! i)"
    if i: "i < length h" "0 < i" "k \<le> parent i" "parent i \<noteq> c" for i
  proof (cases "parent i = p")
    case True
    then have "f (h ! c) \<le> f (h ! i)" using small i parent_cases by blast
    then show ?thesis using True nth less i(2) by (cases "i = c") (auto simp: nth(3))
  next
    case False
    show ?thesis
    proof (cases "i = p")
      case True
      then have "f (h ! parent p) \<le> f (h ! c)" using h c(1) pc i unfolding heap_but_def by blast
      then show ?thesis using True nth i(2) pc False by (simp add: nth(3) i(4))
    next
      case False': False
      have "i \<noteq> c" using False pc(2) by blast
      moreover have "f (h ! parent i) \<le> f (h ! i)" using h i False unfolding heap_but_def by blast
      ultimately show ?thesis using nth(3) False False' i(4) by simp
    qed
  qed
  have 2: "f (?h ! parent c) \<le> f (?h ! i)" if i: "i < length h" "0 < i" "parent i = c" for i
  proof -
    have "i \<noteq> p" "i \<noteq> c" "c \<noteq> p" using i pc by auto
    moreover have "f (h ! c) \<le> f (h ! i)" using h i pc kp \<open>c \<noteq> p\<close> unfolding heap_but_def by (metis less_imp_le le_trans)
    ultimately show ?thesis using nth pc(2) by simp
  qed
  show ?thesis unfolding heap_but_def length_list_update using 1 2 by blast
qed

lemma mset_swap2: "p < length h \<Longrightarrow> c < length h \<Longrightarrow> mset (h[p := h ! c, c := h ! p]) = mset h"
  using mset_swap [of c h p] by simp

text \<open>
  The loop, seen on the array with the slot in the hole.
\<close>

lemma SiftLoop_heap:
  assumes "SiftLoop gr slot h p = (h', p')" "p < length h" "k \<le> p"
    "\<forall>a b. gr a b \<longleftrightarrow> f b < f a" "heap_but f k p (h[p := slot])"
  shows "length h' = length h \<and> p' < length h \<and> heap_from f k (h'[p' := slot]) \<and>
    mset (h'[p' := slot]) = mset (h[p := slot])"
  using assms
proof (induction gr slot h p rule: SiftLoop.induct)
  case (1 gr slot h p)
  let ?H = "h[p := slot]" and ?l = "2 * p + 1"
  note unf = SiftLoop.simps [of gr slot h p]
  show ?case
  proof (cases "length h \<le> ?l")
    case True
    then have "h' = h \<and> p' = p" using "1.prems"(1) by (simp add: unf)
    then show ?thesis using heap_but_leaf [OF "1.prems"(5)] True "1.prems"(2) by simp
  next
    case left: False
    define c where "c = (if ?l + 1 < length h \<and> gr (h ! ?l) (h ! (?l + 1)) then ?l + 1 else ?l)"
    have c: "c < length h" "c = 2 * p + 1 \<or> c = 2 * p + 2" "c \<noteq> p" using left by (auto simp: c_def)
    have H: "?H ! p = slot" "?H ! c = h ! c" using c "1.prems"(2) by auto
    have small: "f (?H ! c) \<le> f (?H ! i)" if "i < length ?H" "i = 2 * p + 1 \<or> i = 2 * p + 2" for i
      using that "1.prems"(4) by (auto simp: c_def nth_list_update split: if_splits)
    show ?thesis
    proof (cases "gr slot (h ! c)")
      case False
      then have "h' = h \<and> p' = p" using "1.prems"(1) left unfolding unf Let_def c_def [symmetric] by simp
      moreover have "heap_from f k ?H"
      proof (rule heap_but_stop [OF "1.prems"(5)])
        fix i assume "i < length ?H" "i = 2 * p + 1 \<or> i = 2 * p + 2"
        from small [OF this] H False "1.prems"(4) show "f (?H ! p) \<le> f (?H ! i)" by auto
      qed
      ultimately show ?thesis using "1.prems"(2) by simp
    next
      case True
      let ?h1 = "h[p := h ! c]"
      have rec: "SiftLoop gr slot ?h1 c = (h', p')"
        using "1.prems"(1) left True unfolding unf Let_def c_def [symmetric] by simp
      have H1: "?h1[c := slot] = ?H[p := ?H ! c, c := ?H ! p]" using H c by simp
      have "heap_but f k c (?h1[c := slot])"
        unfolding H1 by (rule heap_but_swap [OF "1.prems"(5)])
          (use c "1.prems"(3,4) True H small in \<open>auto simp: less_imp_le\<close>)
      moreover have "c < length ?h1" "k \<le> c" using c "1.prems"(3) by auto
      ultimately have "length h' = length ?h1 \<and> p' < length ?h1 \<and> heap_from f k (h'[p' := slot]) \<and>
          mset (h'[p' := slot]) = mset (?h1[c := slot])"
        using "1.IH" [OF refl refl left refl c_def _ rec _ _ "1.prems"(4)] True by simp
      moreover have "mset (?h1[c := slot]) = mset ?H"
        unfolding H1 using c "1.prems"(2) by (intro mset_swap2) simp_all
      ultimately show ?thesis by simp
    qed
  qed
qed

lemma SiftDown_heap:
  assumes "\<forall>a b. gr a b \<longleftrightarrow> f b < f a" "heap_but f k p h" "k \<le> p" "p < length h"
  shows "heap_from f k (SiftDown gr h p) \<and> mset (SiftDown gr h p) = mset h"
proof -
  obtain h' p' where "SiftLoop gr (h ! p) h p = (h', p')" by force
  from SiftLoop_heap [OF this assms(4,3,1)] this assms(2) show ?thesis by (simp add: SiftDown_def)
qed

lemma length_SiftLoop: "SiftLoop gr slot h p = (h', p') \<Longrightarrow> length h' = length h"
proof (induction gr slot h p rule: SiftLoop.induct)
  case (1 gr slot h p)
  let ?l = "2 * p + 1"
  define c where "c = (if ?l + 1 < length h \<and> gr (h ! ?l) (h ! (?l + 1)) then ?l + 1 else ?l)"
  consider "h' = h" | "\<not> length h \<le> ?l" "gr slot (h ! c)" "SiftLoop gr slot (h[p := h ! c]) c = (h', p')"
    using "1.prems" unfolding SiftLoop.simps [of gr slot h p] Let_def c_def [symmetric] by (auto split: if_splits)
  then show ?case
  proof cases
    case 2
    from "1.IH" [OF refl refl 2(1) refl c_def _ 2(3)] 2(2) show ?thesis by simp
  qed simp
qed

lemma length_SiftDown [simp]: "length (SiftDown gr h p) = length h"
proof -
  obtain h' p' where "SiftLoop gr (h ! p) h p = (h', p')" by force
  with length_SiftLoop [OF this] show ?thesis by (simp add: SiftDown_def)
qed

lemma heap_from_but:
  assumes "heap_from f (Suc k) h"
  shows "heap_but f k k h"
proof -
  have "\<not> k \<le> parent k" if "0 < k" using that by auto
  then show ?thesis using assms unfolding heap_from_def heap_but_def by (simp add: Suc_le_eq)
qed

lemma Heapify_heap:
  assumes "\<forall>a b. gr a b \<longleftrightarrow> f b < f a"
  shows "heap_from f 0 (Heapify gr h) \<and> mset (Heapify gr h) = mset h"
proof -
  have "heap_from f 0 (foldl (SiftDown gr) g (rev [0..<n])) \<and> mset (foldl (SiftDown gr) g (rev [0..<n])) = mset g"
    if "heap_from f n g" "n \<le> length g div 2" for n g
    using that
  proof (induction n arbitrary: g)
    case (Suc n)
    have sd: "heap_from f n (SiftDown gr g n) \<and> mset (SiftDown gr g n) = mset g"
      using Suc.prems by (intro SiftDown_heap [OF assms]) (auto simp: heap_from_but)
    with Suc.IH [of "SiftDown gr g n"] Suc.prems(2) show ?case by simp
  qed simp
  moreover have "heap_from f (length h div 2) h" by (auto simp: heap_from_def)
  ultimately show ?thesis by (simp add: Heapify_def)
qed

end
