(* ===== verification/Merging_Iterator.thy ===== *)
theory Merging_Iterator
  imports Mem_Table Level_Iterator Binary_Heap "HOL-Library.Product_Lexorder"
begin

text \<open>
  \<open>src/iterator.cpp\<close>: the N-way merge over a binary heap of child cursors. The
  children a merge can have are memtable, table and level cursors; the virtual
  calls of \<open>Iterator\<close> are dispatched by case. What a merge stands for is the
  stable sort of its children's entries by internal key: for equal keys the order
  of the children decides.
\<close>

section \<open>Definitions\<close>

datatype child = MemChild MemIter | TableChild TableIter | LevelChild LevelIter

fun c_Valid :: "child \<Rightarrow> bool" where
  "c_Valid (MemChild it) = mi_Valid it"
| "c_Valid (TableChild it) = ti_valid it"
| "c_Valid (LevelChild it) = lv_Valid it"

fun c_key :: "child \<Rightarrow> bytes" where
  "c_key (MemChild it) = mi_internal_key it"
| "c_key (TableChild it) = ti_key it"
| "c_key (LevelChild it) = lv_key it"

fun c_value :: "child \<Rightarrow> bytes" where
  "c_value (MemChild it) = mi_value it"
| "c_value (TableChild it) = ti_value it"
| "c_value (LevelChild it) = lv_value it"

text \<open>A memtable cursor keeps the default \<open>status()\<close>, which is OK.\<close>

fun c_status :: "child \<Rightarrow> status" where
  "c_status (MemChild it) = OK"
| "c_status (TableChild it) = ti_status it"
| "c_status (LevelChild it) = lv_stat it"

fun c_SeekToFirst :: "renv \<Rightarrow> child \<Rightarrow> renv \<times> child" where
  "c_SeekToFirst e (MemChild it) = (e, MemChild (mi_SeekToFirst it))"
| "c_SeekToFirst e (TableChild it) = apsnd TableChild (ti_SeekToFirst e it)"
| "c_SeekToFirst e (LevelChild it) = apsnd LevelChild (lv_SeekToFirst e it)"

fun c_Seek :: "bytes \<Rightarrow> renv \<Rightarrow> child \<Rightarrow> renv \<times> child" where
  "c_Seek t e (MemChild it) = (e, MemChild (mi_Seek it t))"
| "c_Seek t e (TableChild it) = apsnd TableChild (ti_Seek e it t)"
| "c_Seek t e (LevelChild it) = apsnd LevelChild (lv_Seek e it t)"

fun c_Next :: "renv \<Rightarrow> child \<Rightarrow> renv \<times> child" where
  "c_Next e (MemChild it) = (e, MemChild (mi_Next it))"
| "c_Next e (TableChild it) = apsnd TableChild (ti_Next e it)"
| "c_Next e (LevelChild it) = apsnd LevelChild (lv_Next e it)"

record MergingIter =
  mg_children :: "child list"
  mg_heap :: "nat list"

definition NewMergingIterator :: "child list \<Rightarrow> MergingIter" where
  "NewMergingIterator cs = \<lparr>mg_children = cs, mg_heap = []\<rparr>"

definition mg_Valid :: "MergingIter \<Rightarrow> bool" where
  "mg_Valid m \<longleftrightarrow> mg_heap m \<noteq> []"

definition Greater :: "child list \<Rightarrow> nat \<Rightarrow> nat \<Rightarrow> bool" where
  "Greater cs a b =
     (let c = CompareInternalKey (c_key (cs ! a)) (c_key (cs ! b))
      in if c \<noteq> 0 then 0 < c else b < a)"

definition BuildHeap :: "MergingIter \<Rightarrow> MergingIter" where
  "BuildHeap m =
     (let cs = mg_children m; h = filter (\<lambda>i. c_Valid (cs ! i)) [0..<length cs]
      in m\<lparr>mg_heap := Heapify (Greater cs) h\<rparr>)"

text \<open>\<open>for (auto& child : children_) \<dots>\<close>\<close>

fun each_child :: "(renv \<Rightarrow> child \<Rightarrow> renv \<times> child) \<Rightarrow> renv \<Rightarrow> child list \<Rightarrow> renv \<times> child list" where
  "each_child f e [] = (e, [])"
| "each_child f e (c # cs) = (let (e, c) = f e c; (e, cs) = each_child f e cs in (e, c # cs))"

definition mg_SeekToFirst :: "renv \<Rightarrow> MergingIter \<Rightarrow> renv \<times> MergingIter" where
  "mg_SeekToFirst e m =
     (let (e, cs) = each_child c_SeekToFirst e (mg_children m)
      in (e, BuildHeap (m\<lparr>mg_children := cs\<rparr>)))"

definition mg_Seek :: "renv \<Rightarrow> MergingIter \<Rightarrow> bytes \<Rightarrow> renv \<times> MergingIter" where
  "mg_Seek e m target =
     (let (e, cs) = each_child (c_Seek target) e (mg_children m)
      in (e, BuildHeap (m\<lparr>mg_children := cs\<rparr>)))"

text \<open>\<open>assert(Valid())\<close> is the precondition of \<open>Next\<close>.\<close>

definition mg_Next :: "renv \<Rightarrow> MergingIter \<Rightarrow> renv \<times> MergingIter" where
  "mg_Next e m =
     (let top = hd (mg_heap m);
          (e, c) = c_Next e (mg_children m ! top);
          cs = (mg_children m)[top := c];
          m = m\<lparr>mg_children := cs\<rparr>
      in if c_Valid c then (e, m\<lparr>mg_heap := SiftDown (Greater cs) (mg_heap m) 0\<rparr>)
         else let h = (mg_heap m)[0 := last (mg_heap m)];
                  h = butlast h;
                  h = (if h \<noteq> [] then SiftDown (Greater cs) h 0 else h)
           in (e, m\<lparr>mg_heap := h\<rparr>))"

definition mg_key :: "MergingIter \<Rightarrow> bytes" where
  "mg_key m = c_key (mg_children m ! hd (mg_heap m))"

definition mg_value :: "MergingIter \<Rightarrow> bytes" where
  "mg_value m = c_value (mg_children m ! hd (mg_heap m))"

definition mg_status :: "MergingIter \<Rightarrow> status" where
  "mg_status m = (case find (\<lambda>s. \<not> ok s) (map c_status (mg_children m)) of Some s \<Rightarrow> s | None \<Rightarrow> OK)"

section \<open>Children\<close>

fun c_opened :: "(u64 \<Rightarrow> u64 \<Rightarrow> bytes option) \<Rightarrow> child \<Rightarrow> version list \<Rightarrow> bool" where
  "c_opened F (MemChild it) es = mi_opened it es"
| "c_opened F (TableChild it) es = ti_opened F it es"
| "c_opened F (LevelChild it) es = lv_opened F it es"

fun c_rep :: "(u64 \<Rightarrow> u64 \<Rightarrow> bytes option) \<Rightarrow> child \<Rightarrow> version list \<Rightarrow> version list \<Rightarrow> bool" where
  "c_rep F (MemChild it) es rest = mi_rep it es rest"
| "c_rep F (TableChild it) es rest = ti_rep F it es rest"
| "c_rep F (LevelChild it) es rest = lv_rep F it es rest"

fun c_err :: "child \<Rightarrow> bool" where
  "c_err (MemChild it) = False"
| "c_err (TableChild it) = ti_err it"
| "c_err (LevelChild it) = lv_err it"

text \<open>The three kinds of children satisfy the contract, so their sum does.\<close>

lemma apsnd_eq: "apsnd f p = (a, b) \<longleftrightarrow> (\<exists>x. p = (a, x) \<and> b = f x)"
  by (cases p) auto

interpretation child_cursor: strict_cursor "env_ok F" env_quiet "c_opened F" "c_rep F" "\<lambda>c n. c_err c"
  c_Valid c_key c_value c_status c_SeekToFirst "\<lambda>e c t. c_Seek t e c" c_Next for F
proof (unfold_locales, goal_cases)
  case (1 s es rest)
  then show ?case
    by (cases s) (auto dest: mem_cursor.rep_opened table_cursor.rep_opened level_cursor.rep_opened)
next
  case (2 s es)
  then show ?case
    by (cases s) (auto dest: mem_cursor.opened_sorted table_cursor.opened_sorted level_cursor.opened_sorted)
next
  case (3 s es rest)
  then show ?case
    by (cases s) (simp_all only: c_rep.simps mem_cursor.rep_suffix table_cursor.rep_suffix level_cursor.rep_suffix)
next
  case (4 s es rest)
  then show ?case
    by (cases s) (simp_all only: c_rep.simps c_Valid.simps mem_cursor.rep_valid table_cursor.rep_valid level_cursor.rep_valid)
next
  case (5 s es x rest)
  then show ?case
    by (cases s) (simp_all only: c_rep.simps c_key.simps c_value.simps mem_cursor.rep_head ti_rep_head level_cursor.rep_head)
next
  case (6 s es rest)
  then show ?case
    by (cases s) (auto dest: table_cursor.rep_stat level_cursor.rep_stat)
next
  case (7 s n)
  then show ?case by (cases s) (auto simp: ti_err_def lv_err_def)
next
  case (8 e s es e' s')
  then show ?case
    by (cases s) (auto simp: apsnd_eq mi_rep_first dest: ti_first_rep lv_first_rep)
next
  case (9 e s es t e' s')
  then show ?case
    by (cases s) (auto simp: apsnd_eq mi_rep_seek dest: ti_seek_rep lv_seek_rep)
next
  case (10 e s es x rest e' s')
  then show ?case
    by (cases s) (auto simp: apsnd_eq mi_rep_next dest: ti_next_rep lv_next_rep)
next
  case (11 e s n e' s')
  then show ?case by (cases s) (auto simp: ti_err_def lv_err_def)
next
  case (12 s n)
  then show ?case by (cases s) (auto simp: ti_err_def lv_err_def)
qed

section \<open>Stable merge\<close>

definition merged :: "version list list \<Rightarrow> version list" where
  "merged ess = sort_key (ikey_of \<circ> fst) (concat ess)"

lemma keys_le_merged: "keys_le (merged ess)"
  by (simp add: keys_le_def merged_def)

lemma set_merged [simp]: "set (merged ess) = set (concat ess)"
  by (simp add: merged_def)

lemma length_merged [simp]: "length (merged ess) = length (concat ess)"
  by (simp add: merged_def)

lemma sort_key_pop:
  fixes f :: "'a \<Rightarrow> 'b::linorder"
  assumes "\<forall>z \<in> set xs. f x < f z" "\<forall>z \<in> set ys. f x \<le> f z"
  shows "sort_key f (xs @ x # ys) = x # sort_key f (xs @ ys)"
proof (rule properties_for_sort_key)
  show "mset (x # sort_key f (xs @ ys)) = mset (xs @ x # ys)" by simp
  show "sorted (map f (x # sort_key f (xs @ ys)))" using assms by (auto simp: less_imp_le)
  fix k assume "k \<in> set (x # sort_key f (xs @ ys))"
  show "filter (\<lambda>y. f k = f y) (x # sort_key f (xs @ ys)) = filter (\<lambda>y. f k = f y) (xs @ x # ys)"
  proof (cases "f k = f x")
    case True
    have "filter (\<lambda>y. f k = f y) xs = []" using assms(1) True by (auto simp: filter_empty_conv)
    moreover have "filter (\<lambda>y. f k = f y) (sort_key f (xs @ ys)) = filter (\<lambda>y. f k = f y) (xs @ ys)"
      using sort_key_stable [of f "f k" "xs @ ys"] by (simp add: eq_commute [of "f k"])
    ultimately show ?thesis using True by simp
  next
    case False
    then show ?thesis using sort_key_stable [of f "f k" "xs @ ys"] by (simp add: eq_commute [of "f k"])
  qed
qed

lemma merged_pop:
  assumes "i < length rs" "rs ! i = x # r"
    "\<forall>j < i. \<forall>z \<in> set (rs ! j). ikey_of (fst x) < ikey_of (fst z)"
    "\<forall>j < length rs. \<forall>z \<in> set (rs ! j). ikey_of (fst x) \<le> ikey_of (fst z)"
  shows "merged rs = x # merged (rs[i := r])"
proof -
  have c: "concat rs = concat (take i rs) @ x # (r @ concat (drop (Suc i) rs))"
    using concat_split [OF assms(1)] assms(2) by simp
  have c': "concat (rs[i := r]) = concat (take i rs) @ r @ concat (drop (Suc i) rs)"
    using assms(1) by (simp add: upd_conv_take_nth_drop)
  have "ikey_of (fst x) < ikey_of (fst z)" if "z \<in> set (concat (take i rs))" for z
    using that assms(1,3) by (fastforce simp: in_set_conv_nth [of _ "take i rs"])
  moreover have "ikey_of (fst x) \<le> ikey_of (fst z)" if "z \<in> set (r @ concat (drop (Suc i) rs))" for z
  proof -
    have "z \<in> set (concat rs)" using that c by auto
    then show ?thesis using assms(4) by (fastforce simp: in_set_conv_nth [of _ rs])
  qed
  ultimately show ?thesis unfolding merged_def c c' by (intro sort_key_pop) auto
qed

lemma dropWhile_below_le: "keys_le es \<Longrightarrow> dropWhile (below t) es = filter (\<lambda>e. \<not> below t e) es"
proof (induction es)
  case (Cons x es)
  show ?case
  proof (cases "below t x")
    case True
    then show ?thesis using Cons by (simp add: keys_le_def)
  next
    case False
    with Cons.prems have "\<forall>e \<in> set es. \<not> below t e" by (fastforce simp: keys_le_def)
    with False show ?thesis by (simp add: filter_id_conv)
  qed
qed simp

lemma merged_seek:
  assumes "\<forall>es \<in> set ess. keys_le es"
  shows "dropWhile (below t) (merged ess) = merged (map (dropWhile (below t)) ess)"
proof -
  have eq: "map (dropWhile (below t)) ess = map (filter (\<lambda>e. \<not> below t e)) ess"
    using assms dropWhile_below_le by (intro map_cong) auto
  show ?thesis
    unfolding eq using dropWhile_below_le [OF keys_le_merged, of t ess] by (simp add: merged_def filter_sort filter_concat)
qed

section \<open>The heap of children\<close>

definition rank :: "child list \<Rightarrow> nat \<Rightarrow> ikey \<times> nat" where
  "rank cs i = (ikey_of (c_key (cs ! i)), i)"

lemma Greater_rank: "\<forall>a b. Greater cs a b \<longleftrightarrow> rank cs b < rank cs a"
proof (intro allI)
  fix a b
  show "Greater cs a b \<longleftrightarrow> rank cs b < rank cs a"
    by (auto simp: Greater_def Let_def rank_def key_order less_prod_def')
qed

definition c_state :: "(u64 \<Rightarrow> u64 \<Rightarrow> bytes option) \<Rightarrow> child \<Rightarrow> version list \<Rightarrow> version list \<Rightarrow> bool" where
  "c_state F c es r \<longleftrightarrow> c_rep F c es r \<or> c_err c \<and> r = []"

text \<open>
  The invariant: child \<open>i\<close> stands at \<open>rs ! i\<close> or has failed, and the heap holds
  the children that have entries left, ordered by rank.
\<close>

definition mg_inv :: "(u64 \<Rightarrow> u64 \<Rightarrow> bytes option) \<Rightarrow> MergingIter \<Rightarrow> version list list \<Rightarrow> version list list \<Rightarrow> bool" where
  "mg_inv F m ess rs \<longleftrightarrow>
     length ess = length (mg_children m) \<and> length rs = length (mg_children m) \<and>
     (\<forall>i < length (mg_children m). c_state F (mg_children m ! i) (ess ! i) (rs ! i)) \<and>
     distinct (mg_heap m) \<and> set (mg_heap m) = {i. i < length (mg_children m) \<and> rs ! i \<noteq> []} \<and>
     heap_from (rank (mg_children m)) 0 (mg_heap m)"

lemma c_state_valid: "c_state F c es r \<Longrightarrow> c_Valid c \<longleftrightarrow> r \<noteq> []"
  using child_cursor.rep_valid [of F c es r] child_cursor.err_invalid [of c] by (auto simp: c_state_def)

lemma c_state_sorted: "c_state F c es r \<Longrightarrow> keys_le r"
proof -
  assume s: "c_state F c es r"
  show ?thesis
  proof (cases "r = []")
    case False
    then have rep: "c_rep F c es r" using s by (simp add: c_state_def)
    obtain used where "es = used @ r" using child_cursor.rep_suffix [OF rep] by blast
    then show ?thesis
      using child_cursor.opened_sorted [OF child_cursor.rep_opened [OF rep]] by (simp add: keys_le_def sorted_append)
  qed (simp add: keys_le_def)
qed

lemma BuildHeap_inv:
  assumes "length ess = length cs" "length rs = length cs" "\<forall>i < length cs. c_state F (cs ! i) (ess ! i) (rs ! i)"
    "mg_children m = cs"
  shows "mg_inv F (BuildHeap m) ess rs \<and> mg_children (BuildHeap m) = cs"
proof -
  let ?h = "filter (\<lambda>i. c_Valid (cs ! i)) [0..<length cs]"
  note hp = Heapify_heap [OF Greater_rank, of cs ?h]
  have "set (Heapify (Greater cs) ?h) = set ?h" "distinct (Heapify (Greater cs) ?h)"
    using hp mset_eq_setD mset_eq_imp_distinct_iff by (blast, metis distinct_filter distinct_upt)
  moreover have "set ?h = {i. i < length cs \<and> rs ! i \<noteq> []}" using assms(3) c_state_valid by auto
  ultimately show ?thesis using assms hp by (simp add: mg_inv_def BuildHeap_def Let_def)
qed

text \<open>The top of the heap is the child whose entry comes next.\<close>

lemma mg_top:
  assumes inv: "mg_inv F m ess rs" and ne: "mg_heap m \<noteq> []"
  shows "\<exists>x r. hd (mg_heap m) < length rs \<and> rs ! hd (mg_heap m) = x # r \<and>
    merged rs = x # merged (rs[hd (mg_heap m) := r]) \<and> mg_key m = fst x \<and> mg_value m = snd x"
proof -
  let ?cs = "mg_children m"
  define i where "i = hd (mg_heap m)"
  have "i \<in> set (mg_heap m)" using ne by (simp add: i_def)
  then have i: "i < length ?cs" "rs ! i \<noteq> []" using inv by (auto simp: mg_inv_def)
  then obtain x r where x: "rs ! i = x # r" by (cases "rs ! i") auto
  have head: "c_key (?cs ! j) = fst y \<and> c_value (?cs ! j) = snd y" if "j < length ?cs" "rs ! j = y # ys" for j y ys
    using inv that child_cursor.rep_head [of F "?cs ! j" "ess ! j" y ys] by (auto simp: mg_inv_def c_state_def)
  have le: "rank ?cs i \<le> rank ?cs j" if "j < length ?cs" "rs ! j \<noteq> []" for j
  proof -
    have "j \<in> set (mg_heap m)" using inv that by (simp add: mg_inv_def)
    then obtain k where "k < length (mg_heap m)" "mg_heap m ! k = j" by (auto simp: in_set_conv_nth)
    then show ?thesis using heap_from_min [of "rank ?cs" "mg_heap m" k] inv ne by (simp add: mg_inv_def i_def hd_conv_nth)
  qed
  have z: "ikey_of (fst x) \<le> ikey_of (fst z) \<and> (j < i \<longrightarrow> ikey_of (fst x) < ikey_of (fst z))"
    if j: "j < length rs" and zs: "z \<in> set (rs ! j)" for j z
  proof -
    obtain y ys where y: "rs ! j = y # ys" using zs by (cases "rs ! j") auto
    have jl: "j < length ?cs" using j inv by (simp add: mg_inv_def)
    have "keys_le (rs ! j)" using inv jl c_state_sorted unfolding mg_inv_def by blast
    then have "ikey_of (fst y) \<le> ikey_of (fst z)" using zs y by (auto simp: keys_le_def)
    moreover have "rank ?cs i \<le> rank ?cs j" using le jl y by simp
    ultimately show ?thesis using head [OF i(1) x] head [OF jl y] by (auto simp: rank_def less_eq_prod_def)
  qed
  have len: "i < length rs" using i inv by (simp add: mg_inv_def)
  have "merged rs = x # merged (rs[i := r])"
    using z by (intro merged_pop [OF len x]) (meson len less_trans, blast)
  then show ?thesis using x len head [OF i(1) x] by (auto simp: i_def mg_key_def mg_value_def)
qed

text \<open>Only the entry at the root has changed.\<close>

lemma heap_but_root:
  assumes "heap_from f 0 h" "\<And>i. 0 < i \<Longrightarrow> i < length g \<Longrightarrow> g ! i = h ! i \<and> f' (h ! i) = f (h ! i)" "length g \<le> length h"
  shows "heap_but f' 0 0 g"
  unfolding heap_but_def
proof (intro conjI allI impI)
  fix i assume i: "i < length g" "0 < i" "parent i \<noteq> 0"
  then have "parent i < length g" "0 < parent i" by auto
  moreover have "f (h ! parent i) \<le> f (h ! i)" using assms(1,3) i by (simp add: heap_from_def)
  ultimately show "f' (g ! parent i) \<le> f' (g ! i)" using assms(2) [of i] assms(2) [of "parent i"] i by simp
qed simp

text \<open>\<open>heap_.front() = heap_.back(); heap_.pop_back()\<close> removes the root.\<close>

lemma mset_pop_root:
  assumes "h \<noteq> []"
  shows "mset (butlast (h[0 := last h])) = mset (tl h)"
proof (cases h)
  case (Cons i t)
  show ?thesis
  proof (cases t rule: rev_cases)
    case (snoc u y)
    then show ?thesis using Cons by simp
  qed (use Cons in simp)
qed (use assms in simp)

lemma mg_Next_inv:
  assumes inv: "mg_inv F m ess rs" and ne: "mg_heap m \<noteq> []" and e: "env_ok F e" and r: "mg_Next e m = (e', m')"
  shows "\<exists>i x r r'. i < length rs \<and> i = hd (mg_heap m) \<and> rs ! i = x # r \<and> mg_inv F m' ess (rs[i := r']) \<and> env_ok F e' \<and>
    (env_quiet e \<longrightarrow> env_quiet e') \<and> mg_children m' = (mg_children m)[i := mg_children m' ! i] \<and>
    (c_rep F (mg_children m' ! i) (ess ! i) r \<and> r' = r \<or> c_err (mg_children m' ! i) \<and> r' = [] \<and> \<not> env_quiet e)"
proof -
  let ?cs = "mg_children m" and ?h = "mg_heap m"
  define i where "i = hd ?h"
  obtain x r where x: "i < length rs" "rs ! i = x # r" using mg_top [OF inv ne] by (auto simp: i_def)
  have il: "i < length ?cs" using x inv by (simp add: mg_inv_def)
  have rep: "c_rep F (?cs ! i) (ess ! i) (x # r)" using inv il x(2) by (auto simp: mg_inv_def c_state_def)
  obtain e1 c where c: "c_Next e (?cs ! i) = (e1, c)" by force
  define r' where "r' = (if c_rep F c (ess ! i) r then r else [])"
  have st: "env_ok F e1 \<and> (env_quiet e \<longrightarrow> env_quiet e1) \<and>
      (c_rep F c (ess ! i) r \<and> r' = r \<or> c_err c \<and> r' = [] \<and> \<not> env_quiet e)"
    using child_cursor.step_rep [OF e rep c] by (auto simp: r'_def)
  then have cst: "c_state F c (ess ! i) r'" by (auto simp: c_state_def)
  define cs' where "cs' = ?cs[i := c]"
  have h0: "?h = i # tl ?h" using ne by (simp add: i_def)
  have d: "distinct ?h" and set: "set ?h = {j. j < length ?cs \<and> rs ! j \<noteq> []}" and hp: "heap_from (rank ?cs) 0 ?h"
    using inv by (auto simp: mg_inv_def)
  have rk: "rank cs' (?h ! k) = rank ?cs (?h ! k)" if "0 < k" "k < length ?h" for k
  proof -
    have "?h ! k \<noteq> ?h ! 0" using d that ne by (simp add: nth_eq_iff_index_eq)
    then show ?thesis using ne by (simp add: rank_def cs'_def i_def hd_conv_nth)
  qed
  define g where "g = (if c_Valid c then ?h else butlast (?h[0 := last ?h]))"
  define g' where "g' = (if g = [] then [] else SiftDown (Greater cs') g 0)"
  have m': "m' = m\<lparr>mg_children := cs', mg_heap := g'\<rparr>" "e' = e1"
    using r c ne by (cases "c_Valid c"; auto simp: mg_Next_def Let_def g'_def g_def cs'_def i_def)+
  have gk: "0 < k \<Longrightarrow> k < length g \<Longrightarrow> g ! k = ?h ! k" "length g \<le> length ?h" for k
    by (auto simp: g_def nth_butlast)
  have "heap_but (rank cs') 0 0 g" by (rule heap_but_root [OF hp]) (use gk rk in \<open>auto simp: less_le_trans\<close>)
  then have heap': "heap_from (rank cs') 0 g' \<and> mset g' = mset g"
    using SiftDown_heap [OF Greater_rank [of cs'], of 0 0 g] by (auto simp: g'_def heap_from_def)
  have valid: "c_Valid c \<longleftrightarrow> r' \<noteq> []" by (rule c_state_valid [OF cst])
  have mg: "mset g = (if r' \<noteq> [] then mset ?h else mset (tl ?h))"
    using valid mset_pop_root [OF ne] by (simp add: g_def)
  have "distinct g'" "set g' = {j. j < length cs' \<and> rs[i := r'] ! j \<noteq> []}"
  proof -
    obtain t where t: "?h = i # t" using h0 by blast
    have tl: "distinct (tl ?h)" "set (tl ?h) = set ?h - {i}" using d unfolding t by auto
    have ms: "mset g' = mset (if r' \<noteq> [] then ?h else tl ?h)" using heap' mg by auto
    then have "distinct g' \<longleftrightarrow> distinct (if r' \<noteq> [] then ?h else tl ?h)" by (rule mset_eq_imp_distinct_iff)
    then show "distinct g'" using d tl by simp
    have "set g' = set (if r' \<noteq> [] then ?h else tl ?h)" using ms by (rule mset_eq_setD)
    then have "set g' = {j. j < length ?cs \<and> (if j = i then r' \<noteq> [] else rs ! j \<noteq> [])}"
      using x(2) il unfolding tl(2) set by (cases "r' = []") (force simp: set tl(2))+
    moreover have "rs[i := r'] ! j \<noteq> [] \<longleftrightarrow> (if j = i then r' \<noteq> [] else rs ! j \<noteq> [])" for j
      using x(1) by (simp add: nth_list_update)
    ultimately show "set g' = {j. j < length cs' \<and> rs[i := r'] ! j \<noteq> []}" by (simp add: cs'_def)
  qed
  moreover have "\<forall>j < length cs'. c_state F (cs' ! j) (ess ! j) (rs[i := r'] ! j)"
    using inv cst x(1) by (auto simp: cs'_def nth_list_update mg_inv_def)
  ultimately have "mg_inv F m' ess (rs[i := r'])" using inv heap' m' by (simp add: mg_inv_def cs'_def)
  moreover have "mg_children m' ! i = c" using m' il by (simp add: cs'_def)
  ultimately show ?thesis using x st m' by (intro exI [of _ i] exI [of _ x] exI [of _ r] exI [of _ r']) (auto simp: i_def cs'_def)
qed

section \<open>The contract\<close>

text \<open>
  A merge over open children is a cursor over the stable merge of their entries.
  Once a child has failed, \<open>status()\<close> says so, and the merge goes on with the
  entries of the children that are left.
\<close>

definition mg_opened :: "(u64 \<Rightarrow> u64 \<Rightarrow> bytes option) \<Rightarrow> MergingIter \<Rightarrow> version list \<Rightarrow> bool" where
  "mg_opened F m es \<longleftrightarrow> (\<exists>ess. list_all2 (c_opened F) (mg_children m) ess \<and> es = merged ess)"

definition mg_rep :: "(u64 \<Rightarrow> u64 \<Rightarrow> bytes option) \<Rightarrow> MergingIter \<Rightarrow> version list \<Rightarrow> version list \<Rightarrow> bool" where
  "mg_rep F m es rest \<longleftrightarrow>
     (\<exists>ess rs. mg_inv F m ess rs \<and> (\<forall>i < length rs. c_rep F (mg_children m ! i) (ess ! i) (rs ! i)) \<and>
        es = merged ess \<and> rest = merged rs) \<and> (\<exists>used. es = used @ rest)"

definition mg_err :: "(u64 \<Rightarrow> u64 \<Rightarrow> bytes option) \<Rightarrow> MergingIter \<Rightarrow> nat \<Rightarrow> bool" where
  "mg_err F m n \<longleftrightarrow>
     (\<exists>ess rs. mg_inv F m ess rs \<and> (\<exists>i < length (mg_children m). c_err (mg_children m ! i)) \<and> length (concat rs) \<le> n)"

lemma mg_status_ok: "ok (mg_status m) \<longleftrightarrow> (\<forall>c \<in> set (mg_children m). ok (c_status c))"
proof (cases "find (\<lambda>s. \<not> ok s) (map c_status (mg_children m))")
  case None
  then have "\<forall>c \<in> set (mg_children m). ok (c_status c)" by (simp add: find_None_iff)
  then show ?thesis using None by (simp add: mg_status_def)
next
  case (Some s)
  then have "\<not> ok s \<and> s \<in> c_status ` set (mg_children m)" by (auto simp: find_Some_iff)
  then show ?thesis using Some by (auto simp: mg_status_def)
qed

lemma mg_inv_valid: "mg_inv F m ess rs \<Longrightarrow> mg_Valid m \<longleftrightarrow> merged rs \<noteq> []"
proof -
  assume inv: "mg_inv F m ess rs"
  have "mg_heap m = [] \<longleftrightarrow> (\<forall>i < length rs. rs ! i = [])" using inv by (auto simp: mg_inv_def simp flip: set_empty)
  also have "\<dots> \<longleftrightarrow> concat rs = []" by (auto simp: all_set_conv_all_nth)
  also have "\<dots> \<longleftrightarrow> merged rs = []" by (metis length_0_conv length_merged)
  finally show ?thesis by (simp add: mg_Valid_def)
qed

text \<open>Positioning all children and building the heap.\<close>

lemma each_child_rep:
  assumes law: "\<forall>e c es e' c'. env_ok F e \<longrightarrow> c_opened F c es \<longrightarrow> f e c = (e', c') \<longrightarrow>
      env_ok F e' \<and> (env_quiet e \<longrightarrow> env_quiet e') \<and> (c_rep F c' es (g es) \<or> c_err c' \<and> \<not> env_quiet e)"
  shows "env_ok F e \<Longrightarrow> list_all2 (c_opened F) cs ess \<Longrightarrow> each_child f e cs = (e', cs') \<Longrightarrow>
    env_ok F e' \<and> (env_quiet e \<longrightarrow> env_quiet e') \<and>
    list_all2 (\<lambda>c es. c_rep F c es (g es) \<or> c_err c \<and> \<not> env_quiet e) cs' ess"
proof (induction cs arbitrary: e ess cs')
  case (Cons c cs)
  obtain es ess' where ess: "ess = es # ess'" "c_opened F c es" "list_all2 (c_opened F) cs ess'"
    using Cons.prems(2) by (auto simp: list_all2_Cons1)
  obtain e1 c1 where c1: "f e c = (e1, c1)" by force
  obtain cs1 where cs1: "each_child f e1 cs = (e', cs1)" "cs' = c1 # cs1"
    using Cons.prems(3) c1 by (auto split: prod.splits)
  have l: "env_ok F e1 \<and> (env_quiet e \<longrightarrow> env_quiet e1) \<and> (c_rep F c1 es (g es) \<or> c_err c1 \<and> \<not> env_quiet e)"
    using law Cons.prems(1) ess(2) c1 by blast
  from Cons.IH [OF _ ess(3) cs1(1)] l
  show ?case using ess cs1(2) by (auto elim!: list_all2_mono)
qed auto

lemma BuildHeap_rep:
  assumes cs: "list_all2 (\<lambda>c es. c_rep F c es (g es) \<or> c_err c \<and> \<not> quiet) cs ess" and m: "mg_children m = cs"
    and g: "merged (map g ess) = dropWhile P (merged ess)"
  shows "mg_rep F (BuildHeap m) (merged ess) (merged (map g ess)) \<or>
    mg_err F (BuildHeap m) (length (merged (map g ess))) \<and> \<not> quiet"
proof -
  define rs where "rs = map (\<lambda>(c, es). if c_rep F c es (g es) then g es else []) (zip cs ess)"
  have len: "length ess = length cs" "length rs = length cs" using list_all2_lengthD [OF cs] by (simp_all add: rs_def)
  have st: "c_rep F (cs ! i) (ess ! i) (g (ess ! i)) \<or> c_err (cs ! i) \<and> \<not> quiet" if "i < length cs" for i
    using list_all2_nthD [OF cs that] .
  have "\<forall>i < length cs. c_state F (cs ! i) (ess ! i) (rs ! i)"
    using st len by (auto simp: rs_def c_state_def)
  from BuildHeap_inv [OF len this m] have inv: "mg_inv F (BuildHeap m) ess rs" "mg_children (BuildHeap m) = cs" by auto
  show ?thesis
  proof (cases "\<forall>i < length cs. c_rep F (cs ! i) (ess ! i) (g (ess ! i))")
    case True
    then have rs: "rs = map g ess" using len by (auto simp: rs_def intro!: nth_equalityI)
    have "\<exists>used. merged ess = used @ merged (map g ess)" unfolding g by (metis takeWhile_dropWhile_id)
    moreover have "\<forall>i < length (map g ess). c_rep F (mg_children (BuildHeap m) ! i) (ess ! i) (map g ess ! i)"
      using inv(2) True len by simp
    ultimately show ?thesis using inv(1) unfolding mg_rep_def rs by blast
  next
    case False
    have "length (concat rs) \<le> length (concat (map g ess))"
      using len(1) unfolding rs_def by (induction cs ess rule: list_induct2') auto
    then show ?thesis using False st inv unfolding mg_err_def by auto
  qed
qed

lemma mg_opened_sorted: "mg_opened F m es \<Longrightarrow> keys_le es"
  by (auto simp: mg_opened_def keys_le_merged)

lemma children_sorted:
  assumes "list_all2 (c_opened F) cs ess"
  shows "\<forall>es \<in> set ess. keys_le es"
  using assms child_cursor.opened_sorted by (induction rule: list_all2_induct) auto

lemma mg_first_rep:
  assumes "env_ok F e" "mg_opened F m es" "mg_SeekToFirst e m = (e', m')"
  shows "env_ok F e' \<and> (env_quiet e \<longrightarrow> env_quiet e') \<and>
    (mg_rep F m' es es \<or> mg_err F m' (length es) \<and> \<not> env_quiet e)"
proof -
  obtain ess where ess: "list_all2 (c_opened F) (mg_children m) ess" "es = merged ess"
    using assms(2) by (auto simp: mg_opened_def)
  obtain cs where cs: "each_child c_SeekToFirst e (mg_children m) = (e', cs)"
      "m' = BuildHeap (m\<lparr>mg_children := cs\<rparr>)"
    using assms(3) by (auto simp: mg_SeekToFirst_def split: prod.splits)
  have "\<forall>e c es e' c'. env_ok F e \<longrightarrow> c_opened F c es \<longrightarrow> c_SeekToFirst e c = (e', c') \<longrightarrow>
      env_ok F e' \<and> (env_quiet e \<longrightarrow> env_quiet e') \<and> (c_rep F c' es (id es) \<or> c_err c' \<and> \<not> env_quiet e)"
    using child_cursor.first_rep by (metis id_apply)
  note ch = each_child_rep [OF this assms(1) ess(1) cs(1)]
  have m: "mg_children (m\<lparr>mg_children := cs\<rparr>) = cs" by simp
  have g: "merged (map id ess) = dropWhile (\<lambda>_. False) (merged ess)" by (cases "merged ess") simp_all
  show ?thesis using BuildHeap_rep [OF conjunct2 [OF conjunct2 [OF ch]] m g] ch ess(2) cs(2) by simp
qed

lemma mg_seek_rep:
  assumes "env_ok F e" "mg_opened F m es" "length t < 2 ^ 32" "mg_Seek e m t = (e', m')"
  shows "env_ok F e' \<and> (env_quiet e \<longrightarrow> env_quiet e') \<and>
    (mg_rep F m' es (dropWhile (below t) es) \<or> mg_err F m' (length (dropWhile (below t) es)) \<and> \<not> env_quiet e)"
proof -
  obtain ess where ess: "list_all2 (c_opened F) (mg_children m) ess" "es = merged ess"
    using assms(2) by (auto simp: mg_opened_def)
  obtain cs where cs: "each_child (c_Seek t) e (mg_children m) = (e', cs)"
      "m' = BuildHeap (m\<lparr>mg_children := cs\<rparr>)"
    using assms(4) by (auto simp: mg_Seek_def split: prod.splits)
  have "\<forall>e c es e' c'. env_ok F e \<longrightarrow> c_opened F c es \<longrightarrow> c_Seek t e c = (e', c') \<longrightarrow>
      env_ok F e' \<and> (env_quiet e \<longrightarrow> env_quiet e') \<and>
      (c_rep F c' es (dropWhile (below t) es) \<or> c_err c' \<and> \<not> env_quiet e)"
    using child_cursor.seek_rep [OF _ _ assms(3)] by blast
  note ch = each_child_rep [OF this assms(1) ess(1) cs(1)]
  have m: "mg_children (m\<lparr>mg_children := cs\<rparr>) = cs" by simp
  have g: "merged (map (dropWhile (below t)) ess) = dropWhile (below t) (merged ess)"
    using merged_seek [OF children_sorted [OF ess(1)]] by simp
  show ?thesis using BuildHeap_rep [OF conjunct2 [OF conjunct2 [OF ch]] m g] ch ess(2) cs(2) unfolding g by simp
qed

lemma mg_step_rep:
  assumes "env_ok F e" "mg_rep F m es (x # rest)" "mg_Next e m = (e', m')"
  shows "env_ok F e' \<and> (env_quiet e \<longrightarrow> env_quiet e') \<and>
    (mg_rep F m' es rest \<or> mg_err F m' (length rest) \<and> \<not> env_quiet e)"
proof -
  obtain ess rs used where m: "mg_inv F m ess rs" "\<forall>i < length rs. c_rep F (mg_children m ! i) (ess ! i) (rs ! i)"
      "es = merged ess" "x # rest = merged rs" "es = used @ x # rest"
    using assms(2) by (auto simp: mg_rep_def)
  have ne: "mg_heap m \<noteq> []" using mg_inv_valid [OF m(1)] m(4) by (auto simp: mg_Valid_def)
  obtain i y r r' where i: "i < length rs" "i = hd (mg_heap m)" "rs ! i = y # r"
      "mg_inv F m' ess (rs[i := r'])" "mg_children m' = (mg_children m)[i := mg_children m' ! i]"
    and env: "env_ok F e'" "env_quiet e \<longrightarrow> env_quiet e'"
    and st: "c_rep F (mg_children m' ! i) (ess ! i) r \<and> r' = r \<or> c_err (mg_children m' ! i) \<and> r' = [] \<and> \<not> env_quiet e"
    using mg_Next_inv [OF m(1) ne assms(1,3)] by blast
  have rest: "rest = merged (rs[i := r])" using mg_top [OF m(1) ne] i(1-3) m(4) by auto
  have il: "i < length (mg_children m)" using i(1) m(1) by (simp add: mg_inv_def)
  from st show ?thesis
  proof
    assume c: "c_rep F (mg_children m' ! i) (ess ! i) r \<and> r' = r"
    have "c_rep F (mg_children m' ! j) (ess ! j) (rs[i := r] ! j)" if "j < length (rs[i := r])" for j
    proof (cases "j = i")
      case False
      then have "mg_children m' ! j = mg_children m ! j" using i(5) by (metis nth_list_update_neq)
      then show ?thesis using False m(2) that by simp
    qed (use c i(1) in simp)
    moreover have "es = (used @ [x]) @ rest" using m(5) by simp
    ultimately have "mg_rep F m' es rest" using i(4) c m(3) rest unfolding mg_rep_def by blast
    then show ?thesis using env by blast
  next
    assume c: "c_err (mg_children m' ! i) \<and> r' = [] \<and> \<not> env_quiet e"
    have "length (concat (rs[i := []])) \<le> length (concat (rs[i := r]))"
      using i(1) by (simp add: upd_conv_take_nth_drop)
    moreover have "i < length (mg_children m')" using il i(5) by (metis length_list_update)
    ultimately have "mg_err F m' (length rest)" using i(4) c unfolding mg_err_def rest length_merged by blast
    then show ?thesis using env c by blast
  qed
qed

lemma mg_step_err:
  assumes "env_ok F e" "mg_err F m n" "mg_Valid m" "mg_Next e m = (e', m')"
  shows "env_ok F e' \<and> (env_quiet e \<longrightarrow> env_quiet e') \<and> mg_err F m' (n - 1)"
proof -
  obtain ess rs j where m: "mg_inv F m ess rs" "length (concat rs) \<le> n"
    and j: "j < length (mg_children m)" "c_err (mg_children m ! j)"
    using assms(2) by (auto simp: mg_err_def)
  have ne: "mg_heap m \<noteq> []" using assms(3) by (simp add: mg_Valid_def)
  obtain i y r r' where i: "i < length rs" "rs ! i = y # r"
      "mg_inv F m' ess (rs[i := r'])" "mg_children m' = (mg_children m)[i := mg_children m' ! i]"
    and env: "env_ok F e'" "env_quiet e \<longrightarrow> env_quiet e'" and r': "r' = r \<or> r' = []"
    using mg_Next_inv [OF m(1) ne assms(1,4)] by blast
  have "c_state F (mg_children m ! i) (ess ! i) (y # r)" using m(1) i(1,2) unfolding mg_inv_def by metis
  then have "i \<noteq> j" using c_state_valid child_cursor.err_invalid j(2) by blast
  then have "c_err (mg_children m' ! j)" using i(4) j by (metis nth_list_update_neq)
  moreover have "j < length (mg_children m')" using j(1) i(4) by (metis length_list_update)
  moreover have "length (concat (rs[i := r'])) \<le> n - 1"
  proof -
    have "length (concat (rs[i := r'])) < length (concat rs)"
      using i(1,2) r' concat_split [OF i(1)] by (auto simp: upd_conv_take_nth_drop)
    then show ?thesis using m(2) by simp
  qed
  ultimately have "mg_err F m' (n - 1)" using i(3) unfolding mg_err_def by blast
  then show ?thesis using env by blast
qed

interpretation merge_cursor: cursor "env_ok F" env_quiet "mg_opened F" "mg_rep F" "mg_err F"
  mg_Valid mg_key mg_value mg_status mg_SeekToFirst mg_Seek mg_Next for F
proof (unfold_locales, goal_cases)
  case (1 m es rest)
  then obtain ess rs where m: "mg_inv F m ess rs" "\<forall>i < length rs. c_rep F (mg_children m ! i) (ess ! i) (rs ! i)"
      "es = merged ess"
    by (auto simp: mg_rep_def)
  then have "list_all2 (c_opened F) (mg_children m) ess"
    using child_cursor.rep_opened by (fastforce simp: list_all2_conv_all_nth mg_inv_def)
  then show ?case using m(3) by (auto simp: mg_opened_def)
next
  case (4 m es rest)
  then show ?case using mg_inv_valid by (auto simp: mg_rep_def)
next
  case (5 m es x rest)
  then obtain ess rs where m: "mg_inv F m ess rs" "x # rest = merged rs" by (auto simp: mg_rep_def)
  then have "mg_heap m \<noteq> []" using mg_inv_valid [OF m(1)] by (auto simp: mg_Valid_def)
  from mg_top [OF m(1) this] m(2) show ?case by auto
next
  case (6 m es rest)
  then show ?case
    using child_cursor.rep_stat by (fastforce simp: mg_status_ok mg_rep_def mg_inv_def in_set_conv_nth)
next
  case (7 m n)
  then obtain ess rs i where m: "mg_inv F m ess rs" "length (concat rs) \<le> n"
    and i: "i < length (mg_children m)" "c_err (mg_children m ! i)"
    by (auto simp: mg_err_def)
  have "\<not> ok (c_status (mg_children m ! i))" using child_cursor.err_stat [OF i(2)] by blast
  then have "\<not> ok (mg_status m)" using i(1) unfolding mg_status_ok by (meson nth_mem)
  moreover have "0 < n" if "mg_Valid m"
  proof -
    have "0 < length (merged rs)" using that mg_inv_valid [OF m(1)] by (simp del: length_merged)
    then show ?thesis using m(2) by (simp only: length_merged)
  qed
  ultimately show ?case by blast
next
  case (3 m es rest)
  then show ?case by (simp add: mg_rep_def)
qed (fact mg_opened_sorted mg_first_rep mg_seek_rep mg_step_rep mg_step_err)+

definition merge_scan :: "nat \<Rightarrow> renv \<Rightarrow> MergingIter \<Rightarrow> version list \<times> renv \<times> MergingIter" where
  "merge_scan n e m = (let (e, m) = mg_SeekToFirst e m in cursor.drain mg_Valid mg_key mg_value mg_Next n e m)"

text \<open>Two memtables with concrete writes, for the witnesses.\<close>

abbreviation sample_env :: renv where
  "sample_env \<equiv> \<lparr>re_world = \<lparr>files = [], script = []\<rparr>, re_cache = new_BlockCache 100 2,
     re_stats = (\<lambda>_. \<lparr>blocks_read = 0, bloom_rejections = 0, cache_hits = 0\<rparr>), re_overrun = False\<rparr>"

lemma sample_children:
  "\<exists>mt mt' es es'. mem_adds (\<lambda>i. 0) (new_MemTable (\<lambda>i. 0) (\<lambda>i. 0)) [(1, kValue, [97], [1]), (4, kValue, [99], [2])] = Some mt \<and>
    mem_adds (\<lambda>i. 0) (new_MemTable (\<lambda>i. 0) (\<lambda>i. 0)) [(3, kDeletion, [97], []), (2, kValue, [98], [7])] = Some mt' \<and>
    set es = version_of ` {(1, kValue, [97], [1]), (4, kValue, [99], [2])} \<and>
    set es' = version_of ` {(3, kDeletion, [97], []), (2, kValue, [98], [7])} \<and>
    list_all2 (c_opened (\<lambda>_ _. None)) [MemChild (new_MemIter mt), MemChild (new_MemIter mt')] [es, es'] \<and>
    env_ok (\<lambda>_ _. None) sample_env"
proof -
  let ?ws = "[(1, kValue, [97], [1]), (4, kValue, [99], [2])] :: mem_write list"
    and ?ws' = "[(3, kDeletion, [97], []), (2, kValue, [98], [7])] :: mem_write list"
  have ok: "writes_ok ?ws" "writes_ok ?ws'"
    by (simp_all add: writes_ok_def type_ok_def kMaxSequenceNumber_def kValue_def kDeletion_def)
  obtain mt es where mt: "mem_adds (\<lambda>i. 0) (new_MemTable (\<lambda>i. 0) (\<lambda>i. 0)) ?ws = Some mt" "mem_holds mt es"
      "set es = version_of ` set ?ws"
    using mem_adds_holds [OF mem_holds_new ok(1), of "\<lambda>i. 0" "\<lambda>i. 0" "\<lambda>i. 0"] by auto
  obtain mt' es' where mt': "mem_adds (\<lambda>i. 0) (new_MemTable (\<lambda>i. 0) (\<lambda>i. 0)) ?ws' = Some mt'" "mem_holds mt' es'"
      "set es' = version_of ` set ?ws'"
    using mem_adds_holds [OF mem_holds_new ok(2), of "\<lambda>i. 0" "\<lambda>i. 0" "\<lambda>i. 0"] by auto
  have "list_all2 (c_opened (\<lambda>_ _. None)) [MemChild (new_MemIter mt), MemChild (new_MemIter mt')] [es, es']"
    using mt(2) mt'(2) by (simp add: mi_opened_def new_MemIter_def)
  moreover have "env_ok (\<lambda>_ _. None) sample_env" using cache_new [of 100 2] by (simp add: lru.coherent_def)
  ultimately show ?thesis using mt(1,3) mt'(1,3) by (intro exI [of _ mt] exI [of _ mt'] exI [of _ es] exI [of _ es']) simp
qed

section \<open>Properties\<close>

text \<open>C27. A full run of the merging iterator over open memtable, table and level cursors visits
  the entries of all of them in internal key order, each exactly once, entries with equal internal
  keys in the order of the children: the stable sort of their concatenation. It ends after at most
  as many steps as there are entries, whatever system calls fail; if its status is then OK nothing
  was left out, and the status is OK when no system call fails.\<close>

theorem merge_is_stable_sort:
  assumes "env_ok F e" "list_all2 (c_opened F) cs ess" "length (concat ess) \<le> n"
    and "merge_scan n e (NewMergingIterator cs) = (xs, e', m)"
  shows "\<not> mg_Valid m \<and> (ok (mg_status m) \<longrightarrow> xs = sort_key (ikey_of \<circ> fst) (concat ess)) \<and>
    (env_quiet e \<longrightarrow> ok (mg_status m))"
proof -
  have o: "mg_opened F (NewMergingIterator cs) (merged ess)"
    using assms(2) by (auto simp: mg_opened_def NewMergingIterator_def)
  obtain e1 m1 where 1: "mg_SeekToFirst e (NewMergingIterator cs) = (e1, m1)" by force
  have d: "merge_cursor.drain n e1 m1 = (xs, e', m)" using assms(4) 1 by (simp add: merge_scan_def)
  have n: "length (merged ess) \<le> n" using assms(3) by (simp only: length_merged)
  from merge_cursor.first_rep [OF assms(1) o 1] show ?thesis
    using merge_cursor.drain_rep [OF _ _ n d] merge_cursor.err_drain [OF _ _ n d] unfolding merged_def by blast
qed

theorem merge_is_stable_sort_witness:
  "\<exists>mt mt' es es'. mem_adds (\<lambda>i. 0) (new_MemTable (\<lambda>i. 0) (\<lambda>i. 0)) [(1, kValue, [97], [1]), (4, kValue, [99], [2])] = Some mt \<and>
    mem_adds (\<lambda>i. 0) (new_MemTable (\<lambda>i. 0) (\<lambda>i. 0)) [(3, kDeletion, [97], []), (2, kValue, [98], [7])] = Some mt' \<and>
    set es = version_of ` {(1, kValue, [97], [1]), (4, kValue, [99], [2])} \<and>
    set es' = version_of ` {(3, kDeletion, [97], []), (2, kValue, [98], [7])} \<and>
    fst (merge_scan (length (es @ es')) sample_env
      (NewMergingIterator [MemChild (new_MemIter mt), MemChild (new_MemIter mt')])) =
    sort_key (ikey_of \<circ> fst) (es @ es')"
proof -
  obtain mt mt' es es' where
      mt: "mem_adds (\<lambda>i. 0) (new_MemTable (\<lambda>i. 0) (\<lambda>i. 0)) [(1, kValue, [97], [1]), (4, kValue, [99], [2])] = Some mt"
        "mem_adds (\<lambda>i. 0) (new_MemTable (\<lambda>i. 0) (\<lambda>i. 0)) [(3, kDeletion, [97], []), (2, kValue, [98], [7])] = Some mt'"
    and es: "set es = version_of ` {(1, kValue, [97], [1]), (4, kValue, [99], [2])}"
      "set es' = version_of ` {(3, kDeletion, [97], []), (2, kValue, [98], [7])}"
    and op: "list_all2 (c_opened (\<lambda>_ _. None)) [MemChild (new_MemIter mt), MemChild (new_MemIter mt')] [es, es']"
    and env: "env_ok (\<lambda>_ _. None) sample_env"
    using sample_children by auto
  obtain xs e' m where sc: "merge_scan (length (es @ es')) sample_env
      (NewMergingIterator [MemChild (new_MemIter mt), MemChild (new_MemIter mt')]) = (xs, e', m)" by (metis prod_cases3)
  have "xs = sort_key (ikey_of \<circ> fst) (es @ es')"
    using merge_is_stable_sort [OF env op _ sc] by (simp add: no_failure_def)
  then show ?thesis using mt es sc by (intro exI [of _ mt] exI [of _ mt'] exI [of _ es] exI [of _ es']) simp
qed

end
