(* ===== verification/File_Names.thy ===== *)
theory File_Names
  imports Prelude
begin

text \<open>
  The names of table and log files: \<open>NumberedFile\<close> and \<open>ParseFileName\<close> of
  \<open>src/db.cpp\<close>. Recovery and the removal of obsolete files read a directory and
  rely on the number and the kind being recovered from the name.
\<close>

section \<open>Definitions\<close>

text \<open>\<open>%llu\<close> and \<open>strtoull\<close> in base ten; the latter saturates.\<close>

definition digit :: "nat \<Rightarrow> char" where
  "digit n = char_of (48 + n)"

fun decimal :: "nat \<Rightarrow> string" where
  "decimal n = (if n < 10 then [digit n] else decimal (n div 10) @ [digit (n mod 10)])"

declare decimal.simps [simp del]

definition strtoull :: "string \<Rightarrow> u64" where
  "strtoull s = of_nat (min (2 ^ 64 - 1) (foldl (\<lambda>acc c. acc * 10 + (of_char c - 48)) 0 s))"

text \<open>\<open>snprintf(buf, sizeof buf, "/%06llu%s", \<dots>)\<close> with a buffer of 32 bytes.\<close>

definition NumberedFile :: "string \<Rightarrow> u64 \<Rightarrow> string \<Rightarrow> string" where
  "NumberedFile dir number ext =
     (let digits = decimal (unat number);
          buf = take 31 (CHR ''/'' # replicate (6 - length digits) (CHR ''0'') @ digits @ ext)
      in dir @ buf)"

definition rfind :: "string \<Rightarrow> char \<Rightarrow> nat option" where
  "rfind s c = (if c \<in> set s then Some (length s - 1 - length (takeWhile (\<lambda>d. d \<noteq> c) (rev s))) else None)"

definition is_digit :: "char \<Rightarrow> bool" where
  "is_digit c \<longleftrightarrow> 48 \<le> (of_char c :: nat) \<and> of_char c \<le> (57 :: nat)"

definition ParseFileName :: "string \<Rightarrow> (u64 \<times> string) option" where
  "ParseFileName name =
     (case rfind name (CHR ''.'') of
        None \<Rightarrow> None
      | Some dot \<Rightarrow>
          if dot = 0 then None
          else if list_all is_digit (take dot name)
          then Some (strtoull (take dot name), drop (dot + 1) name)
          else None)"

section \<open>Numbers\<close>

lemma of_char_digit [simp]: "n < 10 \<Longrightarrow> of_char (digit n) = 48 + n"
  by (simp add: digit_def)

lemma is_digit_digit [simp]: "n < 10 \<Longrightarrow> is_digit (digit n)"
  by (simp add: is_digit_def)

lemma decimal_digits: "list_all is_digit (decimal n)"
proof (induction n rule: decimal.induct)
  case (1 n)
  then show ?case by (simp add: decimal.simps [of n])
qed

lemma decimal_value: "foldl (\<lambda>acc c. acc * 10 + (of_char c - 48)) 0 (decimal n) = n"
proof (induction n rule: decimal.induct)
  case (1 n)
  then show ?case by (cases "n < 10") (simp_all add: decimal.simps [of n])
qed

lemma foldl_zeros: "foldl (\<lambda>acc c. acc * 10 + (of_char c - 48)) (0 :: nat) (replicate k (CHR ''0'') @ s) =
    foldl (\<lambda>acc c. acc * 10 + (of_char c - 48)) 0 s"
  by (induction k) (simp_all add: of_char_def)

lemma length_decimal: "0 < k \<Longrightarrow> n < 10 ^ k \<Longrightarrow> length (decimal n) \<le> k"
proof (induction n arbitrary: k rule: decimal.induct)
  case (1 n)
  show ?case
  proof (cases "n < 10")
    case False
    then have k: "k > 1" using "1.prems" by (cases "k = 1") auto
    then obtain j where "k = Suc j" "0 < j" by (cases k) auto
    with "1.IH" [OF False, of j] "1.prems" show ?thesis using False by (simp add: decimal.simps [of n])
  qed (use "1.prems" in \<open>simp add: decimal.simps [of n]\<close>)
qed

text \<open>A file number as it stands in a name.\<close>

definition number_text :: "u64 \<Rightarrow> string" where
  "number_text number = replicate (6 - length (decimal (unat number))) (CHR ''0'') @ decimal (unat number)"

lemma number_text_digits: "list_all is_digit (number_text number)"
proof -
  have "is_digit (CHR ''0'')" by (simp add: is_digit_def of_char_def)
  then show ?thesis using decimal_digits by (auto simp: number_text_def list_all_iff)
qed

lemma unat_u64: "unat (n :: u64) < 2 ^ 64"
proof -
  have "unat n < 2 ^ LENGTH(64)" by (rule unsigned_less)
  then show ?thesis by simp
qed

lemma number_text_value: "strtoull (number_text number) = number"
proof -
  have "unat number \<le> 2 ^ 64 - 1" using unat_u64 [of number] by simp
  then show ?thesis by (simp add: strtoull_def number_text_def foldl_zeros decimal_value min_absorb2 del: foldl_append)
qed

lemma number_text_nonempty: "number_text number \<noteq> []"
  by (simp add: number_text_def decimal.simps [of "unat number"])

lemma length_number_text: "length (number_text number) \<le> 20"
proof -
  have "unat number < 10 ^ 20" using unat_u64 [of number] by simp
  then have "length (decimal (unat number)) \<le> 20" by (intro length_decimal) simp_all
  then show ?thesis by (simp add: number_text_def)
qed

lemma NumberedFile_text:
  "length ext \<le> 10 \<Longrightarrow> NumberedFile dir number ext = dir @ CHR ''/'' # number_text number @ ext"
  using length_number_text [of number] by (simp add: NumberedFile_def Let_def number_text_def)

section \<open>Names\<close>

lemma ParseFileName_dot:
  assumes "CHR ''.'' \<notin> set kind"
  shows "ParseFileName (name @ CHR ''.'' # kind) =
    (if name \<noteq> [] \<and> list_all is_digit name then Some (strtoull name, kind) else None)"
proof -
  have "takeWhile (\<lambda>d. d \<noteq> CHR ''.'') (rev kind @ CHR ''.'' # rev name) = rev kind"
    using assms by (subst takeWhile_append2) auto
  then have "rfind (name @ CHR ''.'' # kind) (CHR ''.'') = Some (length name)" by (simp add: rfind_def)
  then show ?thesis by (simp add: ParseFileName_def)
qed

lemma number_text_parse: "CHR ''.'' \<notin> set kind \<Longrightarrow> ParseFileName (number_text n @ CHR ''.'' # kind) = Some (n, kind)"
  by (simp add: ParseFileName_dot number_text_digits number_text_value number_text_nonempty)

section \<open>Properties\<close>

text \<open>C30. The name of a table or log file determines its number and kind: for every 64-bit number
  and for the suffixes the engine uses, parsing the last component of the path that NumberedFile
  builds gives back the number and the suffix. So no two files of the database share a name, and a
  directory scan classifies every file correctly; MANIFEST and its temporary file are never taken
  for numbered ones.\<close>

theorem file_name_round_trip:
  "ParseFileName (drop (length dir + 1) (NumberedFile dir number ''.sst'')) = Some (number, ''sst'') \<and>
   ParseFileName (drop (length dir + 1) (NumberedFile dir number ''.log'')) = Some (number, ''log'') \<and>
   ParseFileName ''MANIFEST'' = None \<and> ParseFileName ''MANIFEST.tmp'' = None"
  using number_text_parse [of "''sst''" number] number_text_parse [of "''log''" number]
    ParseFileName_dot [of "''tmp''" "''MANIFEST''"]
  by (simp add: NumberedFile_text) (simp add: ParseFileName_def rfind_def is_digit_def of_char_def)

end
