(* ===== verification/Db_Iter.thy ===== *)
theory Db_Iter
  imports Merging_Iterator "HOL-Library.Monad_Syntax"
begin

text \<open>
  \<open>DBIter\<close> of \<open>src/db.cpp\<close>: the range scan. It collapses the stream of versions a
  merge yields into live user keys: the newest version visible at the sequence
  number of the scan, hidden if it is a tombstone. The specification is
  \<open>live_rows\<close>; the theorem at the end says that a scan yields exactly the keys
  that resolve to a value, in order, and that it always ends.
\<close>

section \<open>Definitions\<close>

record DBIter =
  di_inner :: MergingIter
  di_seq :: SequenceNumber
  di_returned_count :: u64
  di_skipped_count :: u64
  di_key :: bytes
  di_value :: bytes
  di_valid :: bool

definition new_DBIter :: "MergingIter \<Rightarrow> SequenceNumber \<Rightarrow> DBIter" where
  "new_DBIter inner seq =
     \<lparr>di_inner = inner, di_seq = seq, di_returned_count = 0, di_skipped_count = 0,
      di_key = [], di_value = [], di_valid = False\<rparr>"

text \<open>The destructor publishes the counts: the two shared counters of the database.\<close>

definition destroy_DBIter :: "DBIter \<Rightarrow> u64 \<times> u64 \<Rightarrow> u64 \<times> u64" where
  "destroy_DBIter d = (\<lambda>(returned, skipped). (returned + di_returned_count d, skipped + di_skipped_count d))"

partial_function (option) SkipRestOfCurrentKey :: "renv \<Rightarrow> DBIter \<Rightarrow> (renv \<times> DBIter) option" where
  "SkipRestOfCurrentKey e d =
     (if mg_Valid (di_inner d) \<and> ExtractUserKey (mg_key (di_inner d)) = di_key d
      then let (e, m) = mg_Next e (di_inner d)
        in SkipRestOfCurrentKey e (d\<lparr>di_inner := m, di_skipped_count := di_skipped_count d + 1\<rparr>)
      else Some (e, d))"

partial_function (option) AdvanceToNextLiveKey :: "renv \<Rightarrow> DBIter \<Rightarrow> (renv \<times> DBIter) option" where
  "AdvanceToNextLiveKey e d =
     (if \<not> mg_Valid (di_inner d) then Some (e, d\<lparr>di_valid := False\<rparr>)
      else let ikey = mg_key (di_inner d) in
        if di_seq d < ExtractSequence ikey
        then let (e, m) = mg_Next e (di_inner d)
          in AdvanceToNextLiveKey e (d\<lparr>di_inner := m, di_skipped_count := di_skipped_count d + 1\<rparr>)
        else let d = d\<lparr>di_key := ExtractUserKey ikey\<rparr> in
          if ExtractValueType ikey = kDeletion
          then Option.bind (SkipRestOfCurrentKey e d) (\<lambda>(e, d). AdvanceToNextLiveKey e d)
          else Some (e, d\<lparr>di_value := mg_value (di_inner d), di_valid := True,
                         di_returned_count := di_returned_count d + 1\<rparr>))"

definition di_SeekToFirst :: "renv \<Rightarrow> DBIter \<Rightarrow> (renv \<times> DBIter) option" where
  "di_SeekToFirst e d =
     (let (e, m) = mg_SeekToFirst e (di_inner d) in AdvanceToNextLiveKey e (d\<lparr>di_inner := m\<rparr>))"

definition di_Seek :: "renv \<Rightarrow> DBIter \<Rightarrow> bytes \<Rightarrow> (renv \<times> DBIter) option" where
  "di_Seek e d target =
     (let (e, m) = mg_Seek e (di_inner d) (LookupKey target (di_seq d))
      in AdvanceToNextLiveKey e (d\<lparr>di_inner := m\<rparr>))"

definition di_Next :: "renv \<Rightarrow> DBIter \<Rightarrow> (renv \<times> DBIter) option" where
  "di_Next e d = Option.bind (SkipRestOfCurrentKey e d) (\<lambda>(e, d). AdvanceToNextLiveKey e d)"

definition di_status :: "DBIter \<Rightarrow> status" where
  "di_status d = mg_status (di_inner d)"

section \<open>Rows\<close>

abbreviation user :: "version \<Rightarrow> bytes" where
  "user x \<equiv> ExtractUserKey (fst x)"

abbreviation seqno :: "version \<Rightarrow> SequenceNumber" where
  "seqno x \<equiv> ExtractSequence (fst x)"

abbreviation tombstone :: "version \<Rightarrow> bool" where
  "tombstone x \<equiv> ExtractValueType (fst x) = kDeletion"

text \<open>What the loops do to the list of versions that is left.\<close>

function live_rows :: "SequenceNumber \<Rightarrow> version list \<Rightarrow> (bytes \<times> bytes) list" where
  "live_rows seq [] = []"
| "live_rows seq (x # xs) =
     (if seq < seqno x then live_rows seq xs
      else (if tombstone x then [] else [(user x, snd x)]) @
           live_rows seq (dropWhile (\<lambda>y. user y = user x) xs))"
  by pat_completeness auto
termination
  by (relation "measure (\<lambda>(seq, xs). length xs)") (auto simp: length_dropWhile_le le_imp_less_Suc)

text \<open>The same on a list of visible versions.\<close>

function first_rows :: "version list \<Rightarrow> (bytes \<times> bytes) list" where
  "first_rows [] = []"
| "first_rows (x # xs) =
     (if tombstone x then [] else [(user x, snd x)]) @ first_rows (filter (\<lambda>y. user y \<noteq> user x) xs)"
  by pat_completeness auto
termination
  by (relation "measure length") (auto simp: le_imp_less_Suc)

lemma ikey_le_user_seq:
  assumes "ikey_of a \<le> ikey_of b"
  shows "ExtractUserKey a \<le> ExtractUserKey b \<and>
    (ExtractUserKey a = ExtractUserKey b \<longrightarrow> ExtractSequence b \<le> ExtractSequence a)"
proof (cases "ikey_of a = ikey_of b")
  case True
  then show ?thesis by (simp add: ikey_of_def ExtractSequence_def)
next
  case False
  then show ?thesis using assms by (intro sorted_user_seq) simp
qed

lemma keys_le_Cons: "keys_le (x # xs) \<longleftrightarrow> keys_le xs \<and> (\<forall>y \<in> set xs. ikey_of (fst x) \<le> ikey_of (fst y))"
  by (auto simp: keys_le_def)

lemma keys_le_filter: "keys_le xs \<Longrightarrow> keys_le (filter P xs)"
  unfolding keys_le_def map_map [symmetric] by (simp add: sorted_filter)

lemma keys_le_user: "keys_le (x # xs) \<Longrightarrow> y \<in> set xs \<Longrightarrow> user x \<le> user y \<and> (user x = user y \<longrightarrow> seqno y \<le> seqno x)"
  by (rule ikey_le_user_seq) (auto simp: keys_le_Cons)

lemma dropWhile_user: "keys_le (x # xs) \<Longrightarrow> dropWhile (\<lambda>y. user y = user x) xs = filter (\<lambda>y. user y \<noteq> user x) xs"
proof (induction xs)
  case (Cons y xs)
  have s: "keys_le (x # xs)" using Cons.prems by (auto simp: keys_le_Cons)
  show ?case
  proof (cases "user y = user x")
    case True
    then show ?thesis using Cons.IH [OF s] by simp
  next
    case False
    then have "user x < user y" using keys_le_user [OF Cons.prems, of y] by auto
    moreover have "user y \<le> user z" if "z \<in> set xs" for z
      using Cons.prems that by (intro conjunct1 [OF ikey_le_user_seq]) (auto simp: keys_le_Cons)
    ultimately have "\<forall>z \<in> set xs. user z \<noteq> user x" by (metis not_le)
    then show ?thesis using False by (simp add: filter_id_conv)
  qed
qed simp

lemma live_rows_visible: "keys_le xs \<Longrightarrow> live_rows seq xs = first_rows (filter (\<lambda>x. seqno x \<le> seq) xs)"
proof (induction seq xs rule: live_rows.induct)
  case (2 seq x xs)
  have s: "keys_le xs" using "2.prems" by (simp add: keys_le_Cons)
  show ?case
  proof (cases "seq < seqno x")
    case True
    then show ?thesis using "2.IH"(1) [OF _ s] by (simp add: not_le)
  next
    case False
    have "keys_le (dropWhile (\<lambda>y. user y = user x) xs)"
      unfolding dropWhile_user [OF "2.prems"] by (rule keys_le_filter [OF s])
    from "2.IH"(2) [OF False this] dropWhile_user [OF "2.prems"]
    have "live_rows seq (filter (\<lambda>y. user y \<noteq> user x) xs) =
        first_rows (filter (\<lambda>y. user y \<noteq> user x) (filter (\<lambda>x. seqno x \<le> seq) xs))"
      by (simp add: conj_commute)
    moreover have "seqno x \<le> seq" using False by simp
    ultimately show ?thesis using False dropWhile_user [OF "2.prems"] by simp
  qed
qed simp

lemma first_rows_filter:
  "first_rows (filter (\<lambda>x. t \<le> user x) xs) = filter (\<lambda>(k, v). t \<le> k) (first_rows xs)"
proof (induction xs rule: first_rows.induct)
  case (2 x xs)
  have eq: "filter (\<lambda>y. user y \<noteq> user x) (filter (\<lambda>x. t \<le> user x) xs) =
      filter (\<lambda>x. t \<le> user x) (filter (\<lambda>y. user y \<noteq> user x) xs)"
    by (simp add: conj_commute)
  show ?case
  proof (cases "t \<le> user x")
    case True
    then show ?thesis using 2 unfolding filter.simps if_P [OF True] first_rows.simps eq by auto
  next
    case False
    then have "filter (\<lambda>x. t \<le> user x) xs = filter (\<lambda>x. t \<le> user x) (filter (\<lambda>y. user y \<noteq> user x) xs)"
      by (induction xs) auto
    then show ?thesis using 2 False by auto
  qed
qed simp

lemma first_rows_user: "p \<in> set (first_rows xs) \<Longrightarrow> fst p \<in> user ` set xs"
  by (induction xs rule: first_rows.induct) (auto split: if_splits)

lemma first_rows_sorted: "keys_le xs \<Longrightarrow> sorted_wrt (<) (map fst (first_rows xs))"
proof (induction xs rule: first_rows.induct)
  case (2 x xs)
  have "keys_le (filter (\<lambda>y. user y \<noteq> user x) xs)" using "2.prems" by (simp add: keys_le_Cons keys_le_filter)
  moreover have "user x < fst p" if "p \<in> set (first_rows (filter (\<lambda>y. user y \<noteq> user x) xs))" for p
    using first_rows_user [OF that] keys_le_user [OF "2.prems"] by fastforce
  ultimately show ?case using 2 by auto
qed simp

text \<open>A row is the newest of the visible versions of its key; a key without a row has none, or a tombstone.\<close>

definition row_of :: "version list \<Rightarrow> bytes \<Rightarrow> (bytes \<times> bytes) list \<Rightarrow> bool" where
  "row_of vs k rows \<longleftrightarrow>
     (case filter (\<lambda>x. user x = k) vs of
        [] \<Rightarrow> k \<notin> fst ` set rows
      | x # _ \<Rightarrow> if tombstone x then k \<notin> fst ` set rows else \<forall>v. (k, v) \<in> set rows \<longleftrightarrow> v = snd x)"

lemma first_rows_row: "row_of vs k (first_rows vs)"
proof (induction vs rule: first_rows.induct)
  case (2 x xs)
  let ?ys = "filter (\<lambda>y. user y \<noteq> user x) xs"
  have other: "user x \<notin> fst ` set (first_rows ?ys)" by (auto dest!: first_rows_user)
  show ?case
  proof (cases "user x = k")
    case True
    have "(k, v) \<notin> set (first_rows ?ys)" for v using other True by force
    then show ?thesis using True other by (auto simp: row_of_def)
  next
    case False
    have "filter (\<lambda>y. user y = k) ?ys = filter (\<lambda>y. user y = k) xs"
      using False by (simp add: conj_commute) (metis (mono_tags, lifting) filter_cong)
    then show ?thesis using 2 False by (auto simp: row_of_def split: list.splits if_splits)
  qed
qed (simp add: row_of_def)

lemma live_rows_resolve:
  assumes "keys_le xs"
  shows "sorted_wrt (<) (map fst (live_rows seq xs)) \<and>
    (\<forall>k v. (k, v) \<in> set (live_rows seq xs) \<longrightarrow> resolves (set xs) k seq (Some (Found v))) \<and>
    (\<forall>k. k \<notin> fst ` set (live_rows seq xs) \<longrightarrow>
       resolves (set xs) k seq None \<or> resolves (set xs) k seq (Some Deleted))"
proof -
  let ?vs = "filter (\<lambda>x. seqno x \<le> seq) xs"
  have vis: "visible (set xs) k seq = set (filter (\<lambda>x. user x = k) ?vs)" for k by (auto simp: visible_def)
  have srt: "keys_le (filter (\<lambda>x. user x = k) ?vs)" for k by (intro keys_le_filter assms)
  have new: "newest (set xs) k seq x" if f: "filter (\<lambda>x. user x = k) ?vs = x # ys" for k x ys
  proof -
    have "\<forall>y \<in> set (x # ys). user y = k" unfolding f [symmetric] by simp
    then show ?thesis
      using keys_le_user [OF srt [of k, unfolded f]] vis [of k] unfolding newest_def f by auto
  qed
  note row = first_rows_row [of ?vs, unfolded row_of_def]
  have "resolves (set xs) k seq (Some (Found v))" if "(k, v) \<in> set (first_rows ?vs)" for k v
  proof (cases "filter (\<lambda>x. user x = k) ?vs")
    case Nil
    then show ?thesis using row [of k] that by force
  next
    case (Cons x ys)
    then have "\<not> tombstone x" "v = snd x" using row [of k] that by (force split: if_splits)+
    then have "Found v = answer x" by (simp add: answer_def)
    then show ?thesis using new [OF Cons] unfolding resolves_def option.case by blast
  qed
  moreover have "resolves (set xs) k seq None \<or> resolves (set xs) k seq (Some Deleted)"
    if "k \<notin> fst ` set (first_rows ?vs)" for k
  proof (cases "filter (\<lambda>x. user x = k) ?vs")
    case Nil
    then show ?thesis using vis [of k] by simp
  next
    case (Cons x ys)
    have "(k, snd x) \<in> set (first_rows ?vs)" if "\<not> tombstone x" using row [of k] Cons that by simp
    then have "tombstone x" using that imageI [of "(k, snd x)" "set (first_rows ?vs)" fst] by auto
    then have "Deleted = answer x" by (simp add: answer_def)
    then show ?thesis using new [OF Cons] unfolding resolves_def option.case by blast
  qed
  moreover have "sorted_wrt (<) (map fst (first_rows ?vs))" by (intro first_rows_sorted keys_le_filter assms)
  ultimately show ?thesis unfolding live_rows_visible [OF assms] by blast
qed

lemma live_rows_seek:
  assumes "keys_le xs" "\<forall>x \<in> set xs. version_ok x" "seq \<le> kMaxSequenceNumber"
  shows "live_rows seq (dropWhile (below (LookupKey t seq)) xs) = filter (\<lambda>(k, v). t \<le> k) (live_rows seq xs)"
proof -
  let ?b = "below (LookupKey t seq)"
  have "filter (\<lambda>x. seqno x \<le> seq) (filter (\<lambda>x. \<not> ?b x) xs) = filter (\<lambda>x. t \<le> user x) (filter (\<lambda>x. seqno x \<le> seq) xs)"
    unfolding filter_filter using below_LookupKey [OF _ assms(3)] assms(2) by (intro filter_cong) auto
  then show ?thesis
    using live_rows_visible [OF assms(1)] live_rows_visible [OF keys_le_filter [OF assms(1), of "\<lambda>x. \<not> ?b x"]]
    unfolding dropWhile_below_le [OF assms(1)] by (simp only: first_rows_filter)
qed

section \<open>The loops\<close>

text \<open>
  \<open>di_frame d d'\<close>: only the inner cursor and the counter have changed. The inner
  cursor either stands at what the rows are computed from, or a read has failed
  and a bounded number of entries is left.
\<close>

abbreviation env_steps :: "(u64 \<Rightarrow> u64 \<Rightarrow> bytes option) \<Rightarrow> renv \<Rightarrow> renv \<Rightarrow> bool" where
  "env_steps F e e' \<equiv> env_ok F e' \<and> (env_quiet e \<longrightarrow> env_quiet e')"

definition di_frame :: "DBIter \<Rightarrow> DBIter \<Rightarrow> bool" where
  "di_frame d d' \<longleftrightarrow> di_seq d' = di_seq d \<and> di_key d' = di_key d \<and> di_value d' = di_value d \<and> di_valid d' = di_valid d"

lemma mg_err_mono: "mg_err F m k \<Longrightarrow> k \<le> n \<Longrightarrow> mg_err F m n"
  by (fastforce simp: mg_err_def)

lemma SkipRest_err:
  "env_ok F e \<Longrightarrow> mg_err F (di_inner d) n \<Longrightarrow>
    \<exists>e' d'. SkipRestOfCurrentKey e d = Some (e', d') \<and> env_steps F e e' \<and> di_frame d d' \<and>
      mg_err F (di_inner d') n \<and>
      (mg_Valid (di_inner d) \<and> ExtractUserKey (mg_key (di_inner d)) = di_key d \<longrightarrow> mg_err F (di_inner d') (n - 1))"
proof (induction n arbitrary: e d)
  case 0
  then have "\<not> mg_Valid (di_inner d)" using merge_cursor.err_stat [OF "0.prems"(2)] by auto
  then show ?case using 0 by (subst SkipRestOfCurrentKey.simps) (simp add: di_frame_def)
next
  case (Suc n)
  show ?case
  proof (cases "mg_Valid (di_inner d) \<and> ExtractUserKey (mg_key (di_inner d)) = di_key d")
    case True
    obtain e1 m where m: "mg_Next e (di_inner d) = (e1, m)" by force
    let ?d = "d\<lparr>di_inner := m, di_skipped_count := di_skipped_count d + 1\<rparr>"
    note st = mg_step_err [OF Suc.prems conjunct1 [OF True] m]
    then have "mg_err F (di_inner ?d) n" by simp
    from Suc.IH [OF conjunct1 [OF st] this] obtain e' d' where r: "SkipRestOfCurrentKey e1 ?d = Some (e', d')" "env_steps F e1 e'"
      "di_frame ?d d'" "mg_err F (di_inner d') n" by blast
    have "SkipRestOfCurrentKey e d = Some (e', d')"
      using True m r(1) by (subst SkipRestOfCurrentKey.simps) simp
    moreover have "di_frame d d'" using r(3) by (simp add: di_frame_def)
    moreover have "env_steps F e e'" using r(2) st by blast
    ultimately show ?thesis using True r(4) mg_err_mono [OF r(4), of "Suc n"] by simp
  next
    case False
    have "SkipRestOfCurrentKey e d = Some (e, d)" by (subst SkipRestOfCurrentKey.simps) (rule if_not_P [OF False])
    then show ?thesis using False Suc.prems by (auto simp: di_frame_def)
  qed
qed

lemma SkipRest_rep:
  "env_ok F e \<Longrightarrow> mg_rep F (di_inner d) es rest \<Longrightarrow>
    \<exists>e' d'. SkipRestOfCurrentKey e d = Some (e', d') \<and> env_steps F e e' \<and> di_frame d d' \<and>
      (mg_rep F (di_inner d') es (dropWhile (\<lambda>x. user x = di_key d) rest) \<or>
       mg_err F (di_inner d') (length rest - 1) \<and> \<not> env_quiet e)"
proof (induction rest arbitrary: e d)
  case Nil
  then have "\<not> mg_Valid (di_inner d)" using merge_cursor.rep_valid [OF Nil.prems(2)] by simp
  then have "SkipRestOfCurrentKey e d = Some (e, d)" by (subst SkipRestOfCurrentKey.simps) simp
  then show ?case using Nil by (auto simp: di_frame_def)
next
  case (Cons x rest)
  have v: "mg_Valid (di_inner d)" "mg_key (di_inner d) = fst x"
    using merge_cursor.rep_valid [OF Cons.prems(2)] merge_cursor.rep_head [OF Cons.prems(2)] by simp_all
  show ?case
  proof (cases "user x = di_key d")
    case True
    obtain e1 m where m: "mg_Next e (di_inner d) = (e1, m)" by force
    let ?d = "d\<lparr>di_inner := m, di_skipped_count := di_skipped_count d + 1\<rparr>"
    have unf: "SkipRestOfCurrentKey e d = SkipRestOfCurrentKey e1 ?d"
      using True v m by (subst SkipRestOfCurrentKey.simps) simp
    note st = mg_step_rep [OF Cons.prems m]
    then consider "mg_rep F (di_inner ?d) es rest" | "mg_err F (di_inner ?d) (length rest)" "\<not> env_quiet e" by auto
    then show ?thesis
    proof cases
      case 1
      from Cons.IH [OF conjunct1 [OF st] 1] obtain e' d' where r: "SkipRestOfCurrentKey e1 ?d = Some (e', d')"
          "env_steps F e1 e'" "di_frame ?d d'"
        and c: "mg_rep F (di_inner d') es (dropWhile (\<lambda>x. user x = di_key ?d) rest) \<or>
          mg_err F (di_inner d') (length rest - 1) \<and> \<not> env_quiet e1"
        by blast
      from c have "mg_rep F (di_inner d') es (dropWhile (\<lambda>x. user x = di_key d) (x # rest)) \<or>
          mg_err F (di_inner d') (length (x # rest) - 1) \<and> \<not> env_quiet e"
        using True st mg_err_mono [of F "di_inner d'" "length rest - 1" "length rest"] by auto
      moreover have "di_frame d d'" using r(3) by (simp add: di_frame_def)
      moreover have "env_steps F e e'" using r(2) st by blast
      ultimately show ?thesis using r(1) unf by metis
    next
      case 2
      from SkipRest_err [OF conjunct1 [OF st] 2(1)] obtain e' d' where r: "SkipRestOfCurrentKey e1 ?d = Some (e', d')" "env_steps F e1 e'"
        "di_frame ?d d'" "mg_err F (di_inner d') (length rest)" by blast
      have "di_frame d d'" using r(3) by (simp add: di_frame_def)
      moreover have "env_steps F e e'" using r(2) st by blast
      moreover have "mg_err F (di_inner d') (length (x # rest) - 1) \<and> \<not> env_quiet e" using r(4) 2(2) by simp
      ultimately show ?thesis using r(1) unf by metis
    qed
  next
    case False
    then have "SkipRestOfCurrentKey e d = Some (e, d)" using v by (subst SkipRestOfCurrentKey.simps) simp
    then show ?thesis using False Cons.prems by (auto simp: di_frame_def)
  qed
qed

text \<open>The states between the calls of a client.\<close>

definition di_at :: "(u64 \<Rightarrow> u64 \<Rightarrow> bytes option) \<Rightarrow> DBIter \<Rightarrow> version list \<Rightarrow> version list \<Rightarrow> bool" where
  "di_at F d es rest \<longleftrightarrow> mg_rep F (di_inner d) es rest \<and>
     (case rest of [] \<Rightarrow> \<not> di_valid d
      | x # _ \<Rightarrow> di_valid d \<and> di_key d = user x \<and> di_value d = snd x \<and> seqno x \<le> di_seq d \<and> \<not> tombstone x)"

definition di_err :: "(u64 \<Rightarrow> u64 \<Rightarrow> bytes option) \<Rightarrow> DBIter \<Rightarrow> nat \<Rightarrow> bool" where
  "di_err F d n \<longleftrightarrow> mg_err F (di_inner d) n \<and>
     (di_valid d \<longrightarrow> mg_Valid (di_inner d) \<and> ExtractUserKey (mg_key (di_inner d)) = di_key d)"

lemma di_err_mono: "di_err F d k \<Longrightarrow> k \<le> n \<Longrightarrow> di_err F d n"
  by (auto simp: di_err_def elim: mg_err_mono)

lemma Advance_err:
  "env_ok F e \<Longrightarrow> mg_err F (di_inner d) n \<Longrightarrow>
    \<exists>e' d'. AdvanceToNextLiveKey e d = Some (e', d') \<and> env_steps F e e' \<and> di_seq d' = di_seq d \<and> di_err F d' n"
proof (induction n arbitrary: e d rule: less_induct)
  case (less n)
  let ?m = "di_inner d" and ?k = "mg_key (di_inner d)"
  note unf = AdvanceToNextLiveKey.simps [of e d]
  have pos: "0 < n" if "mg_Valid ?m" using merge_cursor.err_stat [OF less.prems(2)] that by blast
  consider "\<not> mg_Valid ?m" | "mg_Valid ?m" "di_seq d < ExtractSequence ?k"
    | "mg_Valid ?m" "\<not> di_seq d < ExtractSequence ?k" "ExtractValueType ?k = kDeletion"
    | "mg_Valid ?m" "\<not> di_seq d < ExtractSequence ?k" "ExtractValueType ?k \<noteq> kDeletion" by blast
  then show ?case
  proof cases
    case 1
    then show ?thesis using less.prems unf by (auto simp: di_err_def)
  next
    case 2
    obtain e1 m where m: "mg_Next e ?m = (e1, m)" by force
    let ?d = "d\<lparr>di_inner := m, di_skipped_count := di_skipped_count d + 1\<rparr>"
    note st = mg_step_err [OF less.prems 2(1) m]
    then have err: "env_ok F e1" "mg_err F (di_inner ?d) (n - 1)" by simp_all
    have lt: "n - 1 < n" using pos [OF 2(1)] by simp
    from less.IH [OF lt err] obtain e' d' where r: "AdvanceToNextLiveKey e1 ?d = Some (e', d')"
      "env_steps F e1 e'" "di_seq d' = di_seq ?d" "di_err F d' (n - 1)" by blast
    have "AdvanceToNextLiveKey e d = Some (e', d')" using unf 2 m r(1) by (simp add: Let_def)
    moreover have "env_steps F e e'" "di_seq d' = di_seq d" "di_err F d' n"
      using r st by (simp_all add: di_err_mono [OF r(4)])
    ultimately show ?thesis by blast
  next
    case 3
    let ?d = "d\<lparr>di_key := ExtractUserKey ?k\<rparr>"
    have inn: "mg_err F (di_inner ?d) n" using less.prems(2) by simp
    from SkipRest_err [OF less.prems(1) inn] obtain e1 d1 where s: "SkipRestOfCurrentKey e ?d = Some (e1, d1)"
      "env_steps F e e1" "di_frame ?d d1" "mg_err F (di_inner d1) (n - 1)" using 3(1) by auto
    have lt: "n - 1 < n" using pos [OF 3(1)] by simp
    from less.IH [OF lt conjunct1 [OF s(2)] s(4)] obtain e' d' where r: "AdvanceToNextLiveKey e1 d1 = Some (e', d')"
      "env_steps F e1 e'" "di_seq d' = di_seq d1" "di_err F d' (n - 1)" by blast
    have "AdvanceToNextLiveKey e d = Some (e', d')" using unf 3 s(1) r(1) by (simp add: Let_def)
    moreover have "env_steps F e e'" "di_seq d' = di_seq d" "di_err F d' n"
      using r s by (simp_all add: di_err_mono [OF r(4)] di_frame_def)
    ultimately show ?thesis by blast
  next
    case 4
    then show ?thesis using unf less.prems by (simp add: Let_def di_err_def)
  qed
qed

text \<open>\<open>AdvanceToNextLiveKey\<close> does not change the rows that are to come.\<close>

definition di_settles :: "(u64 \<Rightarrow> u64 \<Rightarrow> bytes option) \<Rightarrow> renv \<Rightarrow> DBIter \<Rightarrow> version list \<Rightarrow> (bytes \<times> bytes) list \<Rightarrow> nat \<Rightarrow> bool" where
  "di_settles F e d es rows n \<longleftrightarrow>
     (\<exists>rest. di_at F d es rest \<and> live_rows (di_seq d) rest = rows \<and> length rest \<le> n) \<or> di_err F d n \<and> \<not> env_quiet e"

lemma di_settles_mono:
  "di_settles F e1 d es rows k \<Longrightarrow> k \<le> n \<Longrightarrow> (env_quiet e \<longrightarrow> env_quiet e1) \<Longrightarrow> di_settles F e d es rows n"
  unfolding di_settles_def using di_err_mono le_trans by blast

lemma Advance_failed:
  assumes "env_ok F e" "mg_err F (di_inner d) n" "\<not> env_quiet e0"
  shows "\<exists>e' d'. AdvanceToNextLiveKey e d = Some (e', d') \<and> env_steps F e e' \<and> di_seq d' = di_seq d \<and>
    di_settles F e0 d' es rows n"
  using Advance_err [OF assms(1,2)] assms(3) unfolding di_settles_def by blast

lemma Advance_rep:
  "env_ok F e \<Longrightarrow> mg_rep F (di_inner d) es rest \<Longrightarrow>
    \<exists>e' d'. AdvanceToNextLiveKey e d = Some (e', d') \<and> env_steps F e e' \<and> di_seq d' = di_seq d \<and>
      di_settles F e d' es (live_rows (di_seq d) rest) (length rest)"
proof (induction "length rest" arbitrary: e d rest rule: less_induct)
  case less
  let ?m = "di_inner d"
  note unf = AdvanceToNextLiveKey.simps [of e d]
  show ?case
  proof (cases rest)
    case Nil
    have "\<not> mg_Valid ?m" using merge_cursor.rep_valid [OF less.prems(2)] Nil by simp
    then show ?thesis using unf less.prems Nil by (auto simp: di_settles_def di_at_def)
  next
    case (Cons x xs)
    have v: "mg_Valid ?m" "mg_key ?m = fst x" "mg_value ?m = snd x"
      using merge_cursor.rep_valid [OF less.prems(2)] merge_cursor.rep_head [OF less.prems(2) [unfolded Cons]] Cons by simp_all
    consider "di_seq d < seqno x" | "\<not> di_seq d < seqno x" "tombstone x" | "\<not> di_seq d < seqno x" "\<not> tombstone x" by blast
    then show ?thesis
    proof cases
      case 1
      obtain e1 m where m: "mg_Next e ?m = (e1, m)" by force
      let ?d = "d\<lparr>di_inner := m, di_skipped_count := di_skipped_count d + 1\<rparr>"
      note st = mg_step_rep [OF less.prems(1) less.prems(2) [unfolded Cons] m]
      have "\<exists>e' d'. AdvanceToNextLiveKey e1 ?d = Some (e', d') \<and> env_steps F e1 e' \<and> di_seq d' = di_seq ?d \<and>
          di_settles F e d' es (live_rows (di_seq ?d) xs) (length xs)"
      proof (cases "mg_rep F m es xs")
        case True
        from less.hyps [of xs e1 ?d] True st Cons show ?thesis
          by (fastforce elim: di_settles_mono [of F e1])
      next
        case False
        from Advance_failed [of F e1 ?d "length xs" e es] False st show ?thesis by auto
      qed
      then obtain e' d' where r: "AdvanceToNextLiveKey e1 ?d = Some (e', d')" "env_steps F e1 e'" "di_seq d' = di_seq ?d"
          "di_settles F e d' es (live_rows (di_seq ?d) xs) (length xs)" by blast
      have "AdvanceToNextLiveKey e d = Some (e', d')" using unf 1 v m r(1) by (simp add: Let_def)
      moreover have "di_settles F e d' es (live_rows (di_seq d) rest) (length rest)"
        using di_settles_mono [OF r(4), of "length rest" e] 1 Cons by simp
      moreover have "env_steps F e e'" "di_seq d' = di_seq d" using r st by simp_all
      ultimately show ?thesis by blast
    next
      case 2
      let ?d = "d\<lparr>di_key := user x\<rparr>" and ?xs = "dropWhile (\<lambda>y. user y = user x) xs"
      have inn: "mg_rep F (di_inner ?d) es (x # xs)" using less.prems(2) Cons by simp
      from SkipRest_rep [OF less.prems(1) inn] obtain e1 d1 where s: "SkipRestOfCurrentKey e ?d = Some (e1, d1)"
        "env_steps F e e1" "di_frame ?d d1" "mg_rep F (di_inner d1) es ?xs \<or> mg_err F (di_inner d1) (length xs) \<and> \<not> env_quiet e"
        by auto
      have sq: "di_seq d1 = di_seq d" using s(3) by (simp add: di_frame_def)
      have le: "length ?xs \<le> length xs" by (rule length_dropWhile_le)
      have "\<exists>e' d'. AdvanceToNextLiveKey e1 d1 = Some (e', d') \<and> env_steps F e1 e' \<and> di_seq d' = di_seq d1 \<and>
          di_settles F e d' es (live_rows (di_seq d1) ?xs) (length xs)"
        using s(4)
      proof
        assume "mg_rep F (di_inner d1) es ?xs"
        from less.hyps [OF _ conjunct1 [OF s(2)] this] le Cons s(2) show ?thesis
          by (fastforce elim: di_settles_mono [of F e1])
      next
        assume "mg_err F (di_inner d1) (length xs) \<and> \<not> env_quiet e"
        with Advance_failed [OF conjunct1 [OF s(2)]] show ?thesis by blast
      qed
      then obtain e' d' where r: "AdvanceToNextLiveKey e1 d1 = Some (e', d')" "env_steps F e1 e'" "di_seq d' = di_seq d1"
          "di_settles F e d' es (live_rows (di_seq d1) ?xs) (length xs)" by blast
      have "AdvanceToNextLiveKey e d = Some (e', d')" using unf 2 v s(1) r(1) by (simp add: Let_def)
      moreover have "di_settles F e d' es (live_rows (di_seq d) rest) (length rest)"
        using di_settles_mono [OF r(4), of "length rest" e] 2 Cons sq by simp
      moreover have "env_steps F e e'" "di_seq d' = di_seq d" using r s sq by simp_all
      ultimately show ?thesis by blast
    next
      case 3
      then show ?thesis using unf less.prems Cons v by (auto simp: Let_def di_settles_def di_at_def)
    qed
  qed
qed

lemma di_Next_err:
  assumes "env_ok F e" "di_err F d n" "di_valid d"
  shows "\<exists>e' d'. di_Next e d = Some (e', d') \<and> env_steps F e e' \<and> di_err F d' (n - 1) \<and> 0 < n"
proof -
  have d: "mg_err F (di_inner d) n" "mg_Valid (di_inner d)" "ExtractUserKey (mg_key (di_inner d)) = di_key d"
    using assms(2,3) by (simp_all add: di_err_def)
  from SkipRest_err [OF assms(1) d(1)] d obtain e1 d1 where s: "SkipRestOfCurrentKey e d = Some (e1, d1)"
    "env_steps F e e1" "mg_err F (di_inner d1) (n - 1)" by auto
  have "0 < n" using merge_cursor.err_stat [OF d(1)] d(2) by blast
  with Advance_err [OF conjunct1 [OF s(2)] s(3)] s show ?thesis by (auto simp: di_Next_def)
qed

lemma di_Next_rep:
  assumes "env_ok F e" "di_at F d es (x # xs)"
  shows "\<exists>e' d'. di_Next e d = Some (e', d') \<and> env_steps F e e' \<and> di_seq d' = di_seq d \<and>
    di_settles F e d' es (tl (live_rows (di_seq d) (x # xs))) (length xs) \<and>
    hd (live_rows (di_seq d) (x # xs)) = (di_key d, di_value d) \<and> live_rows (di_seq d) (x # xs) \<noteq> []"
proof -
  let ?xs = "dropWhile (\<lambda>y. user y = user x) xs"
  have d: "mg_rep F (di_inner d) es (x # xs)" "di_key d = user x" "di_value d = snd x" "\<not> di_seq d < seqno x" "\<not> tombstone x"
    using assms(2) by (auto simp: di_at_def)
  from SkipRest_rep [OF assms(1) d(1)] d obtain e1 d1 where s: "SkipRestOfCurrentKey e d = Some (e1, d1)"
    "env_steps F e e1" "di_frame d d1" "mg_rep F (di_inner d1) es ?xs \<or> mg_err F (di_inner d1) (length xs) \<and> \<not> env_quiet e"
    by auto
  have sq: "di_seq d1 = di_seq d" using s(3) by (simp add: di_frame_def)
  have "\<exists>e' d'. AdvanceToNextLiveKey e1 d1 = Some (e', d') \<and> env_steps F e1 e' \<and> di_seq d' = di_seq d1 \<and>
      di_settles F e d' es (live_rows (di_seq d1) ?xs) (length xs)"
    using s(4)
  proof
    assume "mg_rep F (di_inner d1) es ?xs"
    from Advance_rep [OF conjunct1 [OF s(2)] this] s(2) show ?thesis
      by (fastforce simp: length_dropWhile_le elim: di_settles_mono [of F e1])
  next
    assume "mg_err F (di_inner d1) (length xs) \<and> \<not> env_quiet e"
    with Advance_failed [OF conjunct1 [OF s(2)]] show ?thesis by blast
  qed
  then obtain e' d' where r: "AdvanceToNextLiveKey e1 d1 = Some (e', d')" "env_steps F e1 e'" "di_seq d' = di_seq d1"
      "di_settles F e d' es (live_rows (di_seq d1) ?xs) (length xs)" by blast
  have "di_Next e d = Some (e', d')" using s(1) r(1) by (simp add: di_Next_def)
  moreover have "live_rows (di_seq d) (x # xs) = (di_key d, di_value d) # live_rows (di_seq d1) ?xs" using d sq by simp
  moreover have "env_steps F e e'" "di_seq d' = di_seq d" using r s sq by simp_all
  ultimately show ?thesis using r(4) by auto
qed

text \<open>Positioning: from the start, and at the first row whose key is not below the target.\<close>

lemma di_SeekToFirst_rep:
  assumes "env_ok F e" "mg_opened F (di_inner d) es"
  shows "\<exists>e' d'. di_SeekToFirst e d = Some (e', d') \<and> env_steps F e e' \<and> di_seq d' = di_seq d \<and>
    di_settles F e d' es (live_rows (di_seq d) es) (length es)"
proof -
  obtain e1 m where m: "mg_SeekToFirst e (di_inner d) = (e1, m)" by force
  let ?d = "d\<lparr>di_inner := m\<rparr>"
  note st = mg_first_rep [OF assms m]
  then have "\<exists>e' d'. AdvanceToNextLiveKey e1 ?d = Some (e', d') \<and> env_steps F e1 e' \<and> di_seq d' = di_seq ?d \<and>
      di_settles F e d' es (live_rows (di_seq d) es) (length es)"
    using Advance_rep [of F e1 ?d es es] Advance_failed [of F e1 ?d "length es" e es]
    by (fastforce elim: di_settles_mono [of F e1])
  then show ?thesis using m st by (auto simp: di_SeekToFirst_def)
qed

lemma di_Seek_rep:
  assumes "env_ok F e" "mg_opened F (di_inner d) es" "length target + 8 < 2 ^ 32"
    and "\<forall>x \<in> set es. version_ok x" "di_seq d \<le> kMaxSequenceNumber"
  shows "\<exists>e' d'. di_Seek e d target = Some (e', d') \<and> env_steps F e e' \<and> di_seq d' = di_seq d \<and>
    di_settles F e d' es (filter (\<lambda>(k, v). target \<le> k) (live_rows (di_seq d) es)) (length es)"
proof -
  let ?t = "LookupKey target (di_seq d)"
  obtain e1 m where m: "mg_Seek e (di_inner d) ?t = (e1, m)" by force
  let ?d = "d\<lparr>di_inner := m\<rparr>" and ?es = "dropWhile (below ?t) es"
  have len: "length ?t < 2 ^ 32" using assms(3) by (simp add: LookupKey_def)
  note st = mg_seek_rep [OF assms(1,2) len m]
  have rows: "live_rows (di_seq d) ?es = filter (\<lambda>(k, v). target \<le> k) (live_rows (di_seq d) es)"
    by (rule live_rows_seek [OF mg_opened_sorted [OF assms(2)] assms(4,5)])
  have le: "length ?es \<le> length es" by (rule length_dropWhile_le)
  have "\<exists>e' d'. AdvanceToNextLiveKey e1 ?d = Some (e', d') \<and> env_steps F e1 e' \<and> di_seq d' = di_seq ?d \<and>
      di_settles F e d' es (live_rows (di_seq d) ?es) (length es)"
  proof (cases "mg_rep F m es ?es")
    case True
    from Advance_rep [of F e1 ?d es ?es] True st le show ?thesis
      by (fastforce elim: di_settles_mono [of F e1])
  next
    case False
    then have "mg_err F (di_inner ?d) (length es)" "\<not> env_quiet e" "env_ok F e1" using st le by (auto elim: mg_err_mono)
    from Advance_failed [OF this(3,1,2)] show ?thesis by blast
  qed
  then show ?thesis using m st rows by (auto simp: di_Seek_def)
qed

section \<open>A whole scan\<close>

text \<open>\<open>for (; it->Valid(); it->Next())\<close>, with a bound on the rounds.\<close>

fun db_scan :: "nat \<Rightarrow> renv \<Rightarrow> DBIter \<Rightarrow> ((bytes \<times> bytes) list \<times> renv \<times> DBIter) option" where
  "db_scan 0 e d = Some ([], e, d)"
| "db_scan (Suc n) e d =
     (if \<not> di_valid d then Some ([], e, d)
      else Option.bind (di_Next e d) (\<lambda>(e1, d1). Option.bind (db_scan n e1 d1)
        (\<lambda>(rows, e2, d2). Some ((di_key d, di_value d) # rows, e2, d2))))"

lemma db_scan_err:
  "env_ok F e \<Longrightarrow> di_err F d n \<Longrightarrow>
    \<exists>rows e' d'. db_scan n e d = Some (rows, e', d') \<and> \<not> di_valid d' \<and> \<not> ok (di_status d')"
proof (induction n arbitrary: e d)
  case 0
  then show ?case
    using merge_cursor.err_stat [of F "di_inner d" 0] by (auto simp: di_err_def di_status_def)
next
  case (Suc n)
  show ?case
  proof (cases "di_valid d")
    case True
    from di_Next_err [OF Suc.prems True] obtain e1 d1 where r: "di_Next e d = Some (e1, d1)" "env_ok F e1" "di_err F d1 n" by auto
    from Suc.IH [OF r(2,3)] True r(1) show ?thesis by auto
  next
    case False
    then show ?thesis
      using Suc.prems merge_cursor.err_stat [of F "di_inner d" "Suc n"] by (auto simp: di_err_def di_status_def)
  qed
qed

lemma db_scan_rows:
  "env_ok F e \<Longrightarrow> di_settles F e0 d es rows n \<Longrightarrow> (env_quiet e0 \<longrightarrow> env_quiet e) \<Longrightarrow>
    \<exists>rows' e' d'. db_scan n e d = Some (rows', e', d') \<and> \<not> di_valid d' \<and>
      (ok (di_status d') \<longrightarrow> rows' = rows) \<and> (env_quiet e0 \<longrightarrow> ok (di_status d'))"
proof (induction n arbitrary: e d rows)
  case (0 e d rows)
  show ?case
  proof (cases "di_err F d 0 \<and> \<not> env_quiet e0")
    case True
    then show ?thesis using db_scan_err [OF "0.prems"(1)] by blast
  next
    case False
    then have "di_at F d es []" "rows = []" using "0.prems"(2) by (auto simp: di_settles_def)
    then show ?thesis using merge_cursor.rep_stat [of F "di_inner d" es "[]"] by (auto simp: di_at_def di_status_def)
  qed
next
  case (Suc n)
  show ?case
  proof (cases "di_err F d (Suc n) \<and> \<not> env_quiet e0")
    case True
    then show ?thesis using db_scan_err [OF Suc.prems(1)] by blast
  next
    case False
    then obtain rest where at: "di_at F d es rest" and rows: "live_rows (di_seq d) rest = rows" "length rest \<le> Suc n"
      using Suc.prems(2) by (auto simp: di_settles_def)
    show ?thesis
    proof (cases rest)
      case Nil
      then show ?thesis
        using at rows merge_cursor.rep_stat [of F "di_inner d" es "[]"] by (auto simp: di_at_def di_status_def)
    next
      case (Cons x xs)
      from di_Next_rep [OF Suc.prems(1) at [unfolded Cons]] obtain e1 d1 where r: "di_Next e d = Some (e1, d1)"
        "env_steps F e e1" "di_settles F e d1 es (tl rows) (length xs)" "hd rows = (di_key d, di_value d)" "rows \<noteq> []"
        using rows(1) Cons by blast
      have "length xs \<le> n" using rows(2) Cons by simp
      from di_settles_mono [OF r(3) this Suc.prems(3)] have st: "di_settles F e0 d1 es (tl rows) n" .
      have v: "di_valid d" using at Cons by (simp add: di_at_def)
      have rs: "rows = (di_key d, di_value d) # tl rows" using r(4,5) by (metis list.collapse)
      from Suc.IH [OF conjunct1 [OF r(2)] st] r(2) Suc.prems(3) v r(1) show ?thesis by (subst rs) auto
    qed
  qed
qed

lemma scan_of_children:
  assumes "env_ok F e" "list_all2 (c_opened F) cs ess" "length (concat ess) \<le> n"
  shows "\<exists>e1 d1 rows e' d'. di_SeekToFirst e (new_DBIter (NewMergingIterator cs) seq) = Some (e1, d1) \<and>
    db_scan n e1 d1 = Some (rows, e', d') \<and> \<not> di_valid d' \<and> (env_quiet e \<longrightarrow> ok (di_status d')) \<and>
    (ok (di_status d') \<longrightarrow> sorted_wrt (<) (map fst rows) \<and>
       (\<forall>k v. (k, v) \<in> set rows \<longrightarrow> resolves (set (concat ess)) k seq (Some (Found v))) \<and>
       (\<forall>k. k \<notin> fst ` set rows \<longrightarrow>
          resolves (set (concat ess)) k seq None \<or> resolves (set (concat ess)) k seq (Some Deleted)))"
proof -
  let ?d = "new_DBIter (NewMergingIterator cs) seq"
  have o: "mg_opened F (di_inner ?d) (merged ess)"
    using assms(2) by (auto simp: mg_opened_def NewMergingIterator_def new_DBIter_def)
  obtain e1 d1 where 1: "di_SeekToFirst e ?d = Some (e1, d1)" "env_steps F e e1"
      "di_settles F e d1 (merged ess) (live_rows seq (merged ess)) (length (merged ess))"
    using di_SeekToFirst_rep [OF assms(1) o] by (auto simp: new_DBIter_def)
  have "length (merged ess) \<le> n" using assms(3) by (simp only: length_merged)
  from di_settles_mono [OF 1(3) this] have "di_settles F e d1 (merged ess) (live_rows seq (merged ess)) n" by blast
  from db_scan_rows [OF conjunct1 [OF 1(2)] this conjunct2 [OF 1(2)]] obtain rows e' d'
    where 2: "db_scan n e1 d1 = Some (rows, e', d')" "\<not> di_valid d'"
      "ok (di_status d') \<longrightarrow> rows = live_rows seq (merged ess)" "env_quiet e \<longrightarrow> ok (di_status d')" by blast
  show ?thesis
    using 1(1) 2 live_rows_resolve [OF keys_le_merged, of seq ess] unfolding set_merged by metis
qed

section \<open>Properties\<close>

text \<open>C28. A range scan shows exactly the live view of the database at its sequence number. Over
  any open memtable, table and level cursors, SeekToFirst and Next until the iterator is invalid
  always ends. If the status is then OK, which it is when no system call fails, the rows have
  strictly ascending keys, each row holds the value of the newest visible version of its key, and a
  key without a row has no visible version or a tombstone as its newest one.\<close>

theorem scan_is_live_view:
  assumes "env_ok F e" "list_all2 (c_opened F) cs ess" "length (concat ess) \<le> n"
  shows "\<exists>e1 d1 rows e' d'. di_SeekToFirst e (new_DBIter (NewMergingIterator cs) seq) = Some (e1, d1) \<and>
    db_scan n e1 d1 = Some (rows, e', d') \<and> \<not> di_valid d' \<and> (env_quiet e \<longrightarrow> ok (di_status d')) \<and>
    (ok (di_status d') \<longrightarrow> sorted_wrt (<) (map fst rows) \<and>
       (\<forall>k v. (k, v) \<in> set rows \<longrightarrow> resolves (set (concat ess)) k seq (Some (Found v))) \<and>
       (\<forall>k. k \<notin> fst ` set rows \<longrightarrow>
          resolves (set (concat ess)) k seq None \<or> resolves (set (concat ess)) k seq (Some Deleted)))"
  by (rule scan_of_children [OF assms])

theorem scan_is_live_view_witness:
  "\<exists>n mt mt' e1 d1 rows e' d' S.
    mem_adds (\<lambda>i. 0) (new_MemTable (\<lambda>i. 0) (\<lambda>i. 0)) [(1, kValue, [97], [1]), (4, kValue, [99], [2])] = Some mt \<and>
    mem_adds (\<lambda>i. 0) (new_MemTable (\<lambda>i. 0) (\<lambda>i. 0)) [(3, kDeletion, [97], []), (2, kValue, [98], [7])] = Some mt' \<and>
    S = version_of ` {(1, kValue, [97], [1]), (4, kValue, [99], [2]), (3, kDeletion, [97], []), (2, kValue, [98], [7])} \<and>
    di_SeekToFirst sample_env (new_DBIter (NewMergingIterator [MemChild (new_MemIter mt), MemChild (new_MemIter mt')]) 4) = Some (e1, d1) \<and>
    db_scan n e1 d1 = Some (rows, e', d') \<and> sorted_wrt (<) (map fst rows) \<and>
    (\<forall>k v. (k, v) \<in> set rows \<longrightarrow> resolves S k 4 (Some (Found v))) \<and>
    (\<forall>k. k \<notin> fst ` set rows \<longrightarrow> resolves S k 4 None \<or> resolves S k 4 (Some Deleted))"
proof -
  obtain mt mt' es es' where
      mt: "mem_adds (\<lambda>i. 0) (new_MemTable (\<lambda>i. 0) (\<lambda>i. 0)) [(1, kValue, [97], [1]), (4, kValue, [99], [2])] = Some mt"
        "mem_adds (\<lambda>i. 0) (new_MemTable (\<lambda>i. 0) (\<lambda>i. 0)) [(3, kDeletion, [97], []), (2, kValue, [98], [7])] = Some mt'"
    and es: "set es = version_of ` {(1, kValue, [97], [1]), (4, kValue, [99], [2])}"
      "set es' = version_of ` {(3, kDeletion, [97], []), (2, kValue, [98], [7])}"
    and op: "list_all2 (c_opened (\<lambda>_ _. None)) [MemChild (new_MemIter mt), MemChild (new_MemIter mt')] [es, es']"
    and env: "env_ok (\<lambda>_ _. None) sample_env"
    using sample_children by auto
  have "set (concat [es, es']) =
      version_of ` {(1, kValue, [97], [1]), (4, kValue, [99], [2]), (3, kDeletion, [97], []), (2, kValue, [98], [7])}"
    using es by auto
  then show ?thesis
    using scan_is_live_view [OF env op order_refl, of 4] mt by (simp add: no_failure_def) blast
qed

text \<open>C29. Seek starts the scan at the target: Seek and Next until invalid ends and, if the status
  is OK, yields exactly the live rows whose key is not below the target, in ascending order. No key
  at or after the target that has a visible value is missed, whatever newer versions hide it from
  the sequence number of the scan.\<close>

theorem seek_scans_from_target:
  assumes "env_ok F e" "list_all2 (c_opened F) cs ess" "length (concat ess) \<le> n"
    and "\<forall>x \<in> set (concat ess). version_ok x" "seq \<le> kMaxSequenceNumber" "length target + 8 < 2 ^ 32"
  shows "\<exists>e1 d1 rows e' d'. di_Seek e (new_DBIter (NewMergingIterator cs) seq) target = Some (e1, d1) \<and>
    db_scan n e1 d1 = Some (rows, e', d') \<and> \<not> di_valid d' \<and> (env_quiet e \<longrightarrow> ok (di_status d')) \<and>
    (ok (di_status d') \<longrightarrow> sorted_wrt (<) (map fst rows) \<and>
       (\<forall>k v. (k, v) \<in> set rows \<longrightarrow> target \<le> k \<and> resolves (set (concat ess)) k seq (Some (Found v))) \<and>
       (\<forall>k. target \<le> k \<and> k \<notin> fst ` set rows \<longrightarrow>
          resolves (set (concat ess)) k seq None \<or> resolves (set (concat ess)) k seq (Some Deleted)))"
proof -
  let ?d = "new_DBIter (NewMergingIterator cs) seq" and ?rows = "live_rows seq (merged ess)"
  let ?part = "filter (\<lambda>(k, v). target \<le> k) ?rows"
  have d: "di_seq ?d \<le> kMaxSequenceNumber" using assms(5) by (simp add: new_DBIter_def)
  have o: "mg_opened F (di_inner ?d) (merged ess)"
    using assms(2) by (auto simp: mg_opened_def NewMergingIterator_def new_DBIter_def)
  have vs: "\<forall>x \<in> set (merged ess). version_ok x" using assms(4) by (simp only: set_merged)
  obtain e1 d1 where 1: "di_Seek e ?d target = Some (e1, d1)" "env_steps F e e1"
      "di_settles F e d1 (merged ess) ?part (length (merged ess))"
    using di_Seek_rep [OF assms(1) o assms(6) vs d] by (auto simp: new_DBIter_def)
  have "length (merged ess) \<le> n" using assms(3) by (simp only: length_merged)
  from di_settles_mono [OF 1(3) this] have "di_settles F e d1 (merged ess) ?part n" by blast
  from db_scan_rows [OF conjunct1 [OF 1(2)] this conjunct2 [OF 1(2)]] obtain rows e' d'
    where 2: "db_scan n e1 d1 = Some (rows, e', d')" "\<not> di_valid d'"
      "ok (di_status d') \<longrightarrow> rows = ?part" "env_quiet e \<longrightarrow> ok (di_status d')" by blast
  note live = live_rows_resolve [OF keys_le_merged, of seq ess, unfolded set_merged]
  have "sorted_wrt (<) (map fst ?part)" using live by (auto simp: sorted_wrt_map intro: sorted_wrt_filter)
  moreover have "\<forall>k v. (k, v) \<in> set ?part \<longrightarrow> target \<le> k \<and> resolves (set (concat ess)) k seq (Some (Found v))"
    using live by simp
  moreover have "\<forall>k. target \<le> k \<and> k \<notin> fst ` set ?part \<longrightarrow> k \<notin> fst ` set ?rows" by force
  ultimately show ?thesis using 1(1) 2 live by metis
qed

theorem seek_scans_from_target_witness:
  "\<exists>n mt mt' e1 d1 rows e' d' S.
    mem_adds (\<lambda>i. 0) (new_MemTable (\<lambda>i. 0) (\<lambda>i. 0)) [(1, kValue, [97], [1]), (4, kValue, [99], [2])] = Some mt \<and>
    mem_adds (\<lambda>i. 0) (new_MemTable (\<lambda>i. 0) (\<lambda>i. 0)) [(3, kDeletion, [97], []), (2, kValue, [98], [7])] = Some mt' \<and>
    S = version_of ` {(1, kValue, [97], [1]), (4, kValue, [99], [2]), (3, kDeletion, [97], []), (2, kValue, [98], [7])} \<and>
    di_Seek sample_env (new_DBIter (NewMergingIterator [MemChild (new_MemIter mt), MemChild (new_MemIter mt')]) 4) [98] = Some (e1, d1) \<and>
    db_scan n e1 d1 = Some (rows, e', d') \<and> sorted_wrt (<) (map fst rows) \<and>
    (\<forall>k v. (k, v) \<in> set rows \<longrightarrow> [98] \<le> k \<and> resolves S k 4 (Some (Found v))) \<and>
    (\<forall>k. [98] \<le> k \<and> k \<notin> fst ` set rows \<longrightarrow> resolves S k 4 None \<or> resolves S k 4 (Some Deleted))"
proof -
  obtain mt mt' es es' where
      mt: "mem_adds (\<lambda>i. 0) (new_MemTable (\<lambda>i. 0) (\<lambda>i. 0)) [(1, kValue, [97], [1]), (4, kValue, [99], [2])] = Some mt"
        "mem_adds (\<lambda>i. 0) (new_MemTable (\<lambda>i. 0) (\<lambda>i. 0)) [(3, kDeletion, [97], []), (2, kValue, [98], [7])] = Some mt'"
    and es: "set es = version_of ` {(1, kValue, [97], [1]), (4, kValue, [99], [2])}"
      "set es' = version_of ` {(3, kDeletion, [97], []), (2, kValue, [98], [7])}"
    and op: "list_all2 (c_opened (\<lambda>_ _. None)) [MemChild (new_MemIter mt), MemChild (new_MemIter mt')] [es, es']"
    and env: "env_ok (\<lambda>_ _. None) sample_env"
    using sample_children by auto
  have S: "set (concat [es, es']) =
      version_of ` {(1, kValue, [97], [1]), (4, kValue, [99], [2]), (3, kDeletion, [97], []), (2, kValue, [98], [7])}"
    using es by auto
  have vs: "\<forall>x \<in> set (concat [es, es']). version_ok x"
    unfolding S by (auto simp: version_ok_def type_ok_def kMaxSequenceNumber_def kValue_def kDeletion_def)
  show ?thesis
    using seek_scans_from_target [OF env op order_refl vs, of 4 "[98]"] S mt
    by (simp add: no_failure_def kMaxSequenceNumber_def) blast
qed

end
