(* ===== verification/Db_State.thy ===== *)
theory Db_State
  imports File_Names Db_Iter Wal
begin

text \<open>
  The state of \<open>DB\<close> (\<open>include/lsm/db.h\<close>): its fields, the constructor, file paths,
  snapshots and statistics of \<open>src/db.cpp\<close>, and the invariant that ties the state
  to the versions it stores. The mutex is left out: an operation here is what one
  thread does while it holds the lock, or between two such regions where the code
  argues that nobody else writes. Two parameters of the state stand for what the
  sources do not contain: the addresses the allocator hands out and the random
  numbers of \<open>std::mt19937\<close>.
\<close>

section \<open>Definitions\<close>

record DbStats =
  st_writes :: u64
  st_wal_syncs :: u64
  st_write_groups :: u64
  st_writes_grouped :: u64
  st_memtable_flushes :: u64
  st_compactions :: u64
  st_compaction_input_bytes :: u64
  st_compaction_output_bytes :: u64
  st_flush_output_bytes :: u64
  st_flush_versions_dropped :: u64
  st_bytes_written_to_wal :: u64
  st_user_bytes_written :: u64
  st_gets :: u64
  st_get_hits_memtable :: u64
  st_sstable_blocks_read :: u64
  st_bloom_rejections :: u64
  st_tables_probed :: u64
  st_block_cache_hits :: u64
  st_block_cache_misses :: u64
  st_block_cache_evictions :: u64
  st_block_cache_bytes_used :: nat
  st_scan_entries_returned :: u64
  st_scan_entries_skipped :: u64

definition empty_DbStats :: DbStats where
  "empty_DbStats =
     \<lparr>st_writes = 0, st_wal_syncs = 0, st_write_groups = 0, st_writes_grouped = 0, st_memtable_flushes = 0,
      st_compactions = 0, st_compaction_input_bytes = 0, st_compaction_output_bytes = 0, st_flush_output_bytes = 0,
      st_flush_versions_dropped = 0, st_bytes_written_to_wal = 0, st_user_bytes_written = 0, st_gets = 0,
      st_get_hits_memtable = 0, st_sstable_blocks_read = 0, st_bloom_rejections = 0, st_tables_probed = 0,
      st_block_cache_hits = 0, st_block_cache_misses = 0, st_block_cache_evictions = 0, st_block_cache_bytes_used = 0,
      st_scan_entries_returned = 0, st_scan_entries_skipped = 0\<rparr>"

text \<open>
  \<open>db_has_cache\<close> says whether \<open>block_cache_\<close> is set; the cache itself is in the
  environment all readers share. A snapshot is its address and its sequence
  number. Times are milliseconds.
\<close>

record DB =
  db_options :: Options
  db_path :: string
  db_mem :: MemTable
  db_imm :: "MemTable option"
  db_current :: Version
  db_has_cache :: bool
  db_snapshots :: "(nat \<times> SequenceNumber) list"
  db_compact_pointer :: "bytes list"
  db_log :: "WalWriter option"
  db_log_number :: u64
  db_imm_log_number :: u64
  db_next_file_number :: u64
  db_last_sequence :: SequenceNumber
  db_last_sync_time :: nat
  db_wal_dirty :: bool
  db_bg_error :: status
  db_stats :: DbStats
  db_stat_gets :: u64
  db_stat_get_hits_memtable :: u64
  db_stat_tables_probed :: u64
  db_stat_scan_returned :: u64
  db_stat_scan_skipped :: u64
  db_base :: "nat \<Rightarrow> nat"
  db_rnd :: "nat \<Rightarrow> u32"

text \<open>The constructor. \<open>mem_\<close> and \<open>current_\<close> are set by \<open>Recover\<close>; here they start empty.\<close>

definition new_DB :: "(nat \<Rightarrow> nat) \<Rightarrow> (nat \<Rightarrow> u32) \<Rightarrow> nat \<Rightarrow> Options \<Rightarrow> string \<Rightarrow> DB" where
  "new_DB base rnd now options path =
     \<lparr>db_options = options, db_path = path, db_mem = new_MemTable base rnd, db_imm = None,
      db_current = empty_Version, db_has_cache = (0 < block_cache_bytes options), db_snapshots = [],
      db_compact_pointer = replicate kNumLevels [], db_log = None, db_log_number = 0,
      db_imm_log_number = 0, db_next_file_number = 1, db_last_sequence = 0, db_last_sync_time = now,
      db_wal_dirty = False, db_bg_error = OK, db_stats = empty_DbStats, db_stat_gets = 0,
      db_stat_get_hits_memtable = 0, db_stat_tables_probed = 0, db_stat_scan_returned = 0,
      db_stat_scan_skipped = 0, db_base = base, db_rnd = rnd\<rparr>"

definition TablePath :: "DB \<Rightarrow> u64 \<Rightarrow> string" where
  "TablePath db number = NumberedFile (db_path db) number ''.sst''"

definition LogPath :: "DB \<Rightarrow> u64 \<Rightarrow> string" where
  "LogPath db number = NumberedFile (db_path db) number ''.log''"

definition ManifestPath :: "DB \<Rightarrow> string" where
  "ManifestPath db = db_path db @ ''/MANIFEST''"

definition OldestLiveLog :: "DB \<Rightarrow> u64" where
  "OldestLiveLog db = (if db_imm db \<noteq> None then db_imm_log_number db else db_log_number db)"

text \<open>\<open>raw\<close> is the address of the new snapshot.\<close>

definition GetSnapshot :: "DB \<Rightarrow> nat \<Rightarrow> nat \<times> DB" where
  "GetSnapshot db raw =
     (raw, if raw \<in> fst ` set (db_snapshots db) then db
           else db\<lparr>db_snapshots := (raw, db_last_sequence db) # db_snapshots db\<rparr>)"

definition ReleaseSnapshot :: "DB \<Rightarrow> nat option \<Rightarrow> DB" where
  "ReleaseSnapshot db snapshot =
     (case snapshot of None \<Rightarrow> db
      | Some raw \<Rightarrow> db\<lparr>db_snapshots := filter (\<lambda>(p, s). p \<noteq> raw) (db_snapshots db)\<rparr>)"

definition SmallestSnapshot :: "DB \<Rightarrow> SequenceNumber" where
  "SmallestSnapshot db = foldl (\<lambda>smallest (p, s). min smallest s) (db_last_sequence db) (db_snapshots db)"

definition GetStats :: "renv \<Rightarrow> DB \<Rightarrow> DbStats" where
  "GetStats e db =
     (let snapshot = db_stats db;
          snapshot = snapshot\<lparr>st_gets := db_stat_gets db, st_get_hits_memtable := db_stat_get_hits_memtable db,
            st_tables_probed := db_stat_tables_probed db, st_scan_entries_returned := db_stat_scan_returned db,
            st_scan_entries_skipped := db_stat_scan_skipped db\<rparr>;
          snapshot = foldl (\<lambda>st level. foldl (\<lambda>st f.
              let s = re_stats e (tb_path (fm_table f))
              in st\<lparr>st_sstable_blocks_read := st_sstable_blocks_read st + of_nat (blocks_read s),
                    st_bloom_rejections := st_bloom_rejections st + of_nat (bloom_rejections s)\<rparr>) st level)
            snapshot (db_current db)
      in if db_has_cache db
         then snapshot\<lparr>st_block_cache_hits := bc_hits (re_cache e),
                st_block_cache_misses := bc_misses (re_cache e),
                st_block_cache_evictions := bc_evictions (re_cache e),
                st_block_cache_bytes_used := charge_bytes (re_cache e)\<rparr>
         else snapshot)"

definition DebugLevelSummary :: "DB \<Rightarrow> string" where
  "DebugLevelSummary db =
     concat (map (\<lambda>level.
       let files = db_current db ! level in
       if files = [] then []
       else ''L'' @ decimal level @ '': '' @ decimal (length files) @ '' files, '' @
            decimal (unat (LevelBytes (db_current db) level div 1024)) @ '' KiB'' @ [CHR 0x0A]) [0..<kNumLevels])"

section \<open>What a database holds\<close>

text \<open>
  \<open>version_holds F v sss\<close>: level \<open>l\<close> of the version consists of files with the
  versions \<open>sss ! l\<close>; below level 0 the files of a level are ordered and share no
  user key.
\<close>

definition version_holds :: "(u64 \<Rightarrow> u64 \<Rightarrow> bytes option) \<Rightarrow> Version \<Rightarrow> version list list list \<Rightarrow> bool" where
  "version_holds F v sss \<longleftrightarrow>
     (\<exists>fs fss ss lss. v = fs # fss \<and> sss = ss # lss \<and> length fss = kNumLevels - 1 \<and>
        list_all2 (file_ok F) fs ss \<and> list_all2 (level_ok F) fss lss)"

text \<open>The sources a read consults, from the newest to the oldest.\<close>

definition db_sources :: "version list \<Rightarrow> version list option \<Rightarrow> version list list list \<Rightarrow> version list list" where
  "db_sources mes ies sss = mes # (case ies of None \<Rightarrow> [] | Some es \<Rightarrow> [es]) @ hd sss @ map concat (tl sss)"

definition db_holds ::
  "(u64 \<Rightarrow> u64 \<Rightarrow> bytes option) \<Rightarrow> DB \<Rightarrow> version list \<Rightarrow> version list option \<Rightarrow> version list list list \<Rightarrow> bool" where
  "db_holds F db mes ies sss \<longleftrightarrow>
     mem_holds (db_mem db) mes \<and> rel_option mem_holds (db_imm db) ies \<and> version_holds F (db_current db) sss"

text \<open>
  The invariant. Every stored version is well-formed and not newer than the last
  sequence number, a source shadows the ones after it, and a sequence number
  belongs to one version of a key.
\<close>

definition stored :: "version list list \<Rightarrow> version set" where
  "stored srcs = set (concat srcs)"

definition sources_ok :: "SequenceNumber \<Rightarrow> version list list \<Rightarrow> bool" where
  "sources_ok cap srcs \<longleftrightarrow> (\<forall>x \<in> stored srcs. version_ok x \<and> seqno x \<le> cap) \<and>
     sorted_wrt (\<lambda>es es'. shadows (set es) (set es')) srcs \<and> unique_versions (stored srcs) \<and> cap \<le> kMaxSequenceNumber"

definition db_ok :: "(u64 \<Rightarrow> u64 \<Rightarrow> bytes option) \<Rightarrow> DB \<Rightarrow> version list list \<Rightarrow> bool" where
  "db_ok F db srcs \<longleftrightarrow> (\<exists>mes ies sss. db_holds F db mes ies sss \<and> srcs = db_sources mes ies sss) \<and>
     sources_ok (db_last_sequence db) srcs"

lemma version_holds_other:
  assumes "version_holds F v sss" "\<And>fs f. fs \<in> set v \<Longrightarrow> f \<in> set fs \<Longrightarrow> tb_file_number (fm_table f) \<noteq> n"
  shows "version_holds (F(n := g)) v sss"
proof -
  obtain fs fss ss lss where v: "v = fs # fss" "sss = ss # lss" "length fss = kNumLevels - 1"
      "list_all2 (file_ok F) fs ss" "list_all2 (level_ok F) fss lss"
    using assms(1) by (auto simp: version_holds_def)
  have "list_all2 (file_ok (F(n := g))) fs ss"
    using v(4) by (rule list_all2_cong_left) (use assms(2) v(1) in \<open>auto intro: file_ok_other\<close>)
  moreover have "list_all2 (level_ok (F(n := g))) fss lss"
    using v(5) by (rule list_all2_cong_left) (use assms(2) v(1) in \<open>auto intro!: level_ok_other\<close>)
  ultimately show ?thesis unfolding version_holds_def using v(1-3) by blast
qed

section \<open>Snapshots\<close>

lemma SmallestSnapshot_le:
  "SmallestSnapshot db \<le> db_last_sequence db \<and> (\<forall>(p, s) \<in> set (db_snapshots db). SmallestSnapshot db \<le> s)"
proof -
  have "foldl (\<lambda>smallest (p, s). min smallest s) m xs \<le> m \<and>
      (\<forall>(p, s) \<in> set xs. foldl (\<lambda>smallest (p, s). min smallest s) m xs \<le> s)"
    for m :: SequenceNumber and xs :: "(nat \<times> SequenceNumber) list"
  proof (induction xs arbitrary: m)
    case (Cons x xs)
    obtain p s where x: "x = (p, s)" by force
    from Cons [of "min m s"] show ?case unfolding x by auto
  qed simp
  then show ?thesis unfolding SmallestSnapshot_def by blast
qed

end
