(* ===== verification/Db_Read.thy ===== *)
theory Db_Read
  imports Db_State
begin

text \<open>
  The read path of \<open>src/db.cpp\<close>: \<open>DB::Get\<close> and \<open>DB::NewIterator\<close>. Both consult the
  memtable, the one being flushed, the files of level 0 from the newest on and one
  file or cursor per deeper level; the theorems say that both show the same view,
  the newest visible version of every key over all of these.
\<close>

section \<open>Definitions\<close>

text \<open>The lambda \<open>probe\<close> of \<open>Get\<close>; \<open>probed\<close> counts the tables looked into.\<close>

definition probe ::
  "renv \<Rightarrow> FileMetaData \<Rightarrow> bytes \<Rightarrow> SequenceNumber \<Rightarrow> nat \<Rightarrow> lookup option \<times> nat \<times> renv" where
  "probe e f key seq probed =
     (if key < ExtractUserKey (fm_smallest f) \<or> ExtractUserKey (fm_largest f) < key then (None, probed, e)
      else let (r, e) = table_Get e (fm_table f) key seq in (r, probed + 1, e))"

fun probe_files ::
  "renv \<Rightarrow> FileMetaData list \<Rightarrow> bytes \<Rightarrow> SequenceNumber \<Rightarrow> nat \<Rightarrow> lookup option \<times> nat \<times> renv" where
  "probe_files e [] key seq probed = (None, probed, e)"
| "probe_files e (f # fs) key seq probed =
     (case probe e f key seq probed of
        (Some r, probed, e) \<Rightarrow> (Some r, probed, e)
      | (None, probed, e) \<Rightarrow> probe_files e fs key seq probed)"

text \<open>\<open>std::lower_bound\<close> by the largest user key.\<close>

definition file_for :: "FileMetaData list \<Rightarrow> bytes \<Rightarrow> nat" where
  "file_for fs key = bisect (\<lambda>i. ExtractUserKey (fm_largest (fs ! i)) < key) 0 (length fs)"

fun probe_levels ::
  "renv \<Rightarrow> FileMetaData list list \<Rightarrow> bytes \<Rightarrow> SequenceNumber \<Rightarrow> nat \<Rightarrow> lookup option \<times> nat \<times> renv" where
  "probe_levels e [] key seq probed = (None, probed, e)"
| "probe_levels e (fs # levels) key seq probed =
     (if fs = [] then probe_levels e levels key seq probed
      else let it = file_for fs key in
        if it = length fs then probe_levels e levels key seq probed
        else case probe e (fs ! it) key seq probed of
            (Some r, probed, e) \<Rightarrow> (Some r, probed, e)
          | (None, probed, e) \<Rightarrow> probe_levels e levels key seq probed)"

text \<open>The status and, when it is OK, the value; \<open>None\<close> is a search that does not end.\<close>

fun reply :: "lookup \<Rightarrow> status + bytes" where
  "reply (Found v) = Inr v"
| "reply Deleted = Inl (NotFound [])"
| "reply (Failed s) = Inl s"

definition read_sequence :: "DB \<Rightarrow> ReadOptions \<Rightarrow> SequenceNumber" where
  "read_sequence db opts = (case ro_snapshot opts of Some s \<Rightarrow> s | None \<Rightarrow> db_last_sequence db)"

definition db_Get :: "renv \<Rightarrow> DB \<Rightarrow> ReadOptions \<Rightarrow> bytes \<Rightarrow> ((status + bytes) \<times> renv \<times> DB) option" where
  "db_Get e db opts key =
     (let seq = read_sequence db opts;
          db = db\<lparr>db_stat_gets := db_stat_gets db + 1\<rparr>
      in Option.bind (mem_Get (db_mem db) key seq) (\<lambda>r.
         case r of
           Some r \<Rightarrow> Some (reply r, e, db\<lparr>db_stat_get_hits_memtable := db_stat_get_hits_memtable db + 1\<rparr>)
         | None \<Rightarrow> Option.bind (case db_imm db of None \<Rightarrow> Some None | Some imm \<Rightarrow> mem_Get imm key seq) (\<lambda>r.
             case r of
               Some r \<Rightarrow> Some (reply r, e, db)
             | None \<Rightarrow>
                 let (r, probed, e) = probe_files e (db_current db ! 0) key seq 0;
                     (r, probed, e) = (case r of
                         Some r \<Rightarrow> (Some r, probed, e)
                       | None \<Rightarrow> probe_levels e (tl (db_current db)) key seq probed);
                     db = db\<lparr>db_stat_tables_probed := db_stat_tables_probed db + of_nat probed\<rparr>
                 in case r of
                      None \<Rightarrow> Some (Inl (NotFound []), e, db)
                    | Some r \<Rightarrow> Some (reply r, e, db))))"

definition NewIterator :: "DB \<Rightarrow> ReadOptions \<Rightarrow> DBIter" where
  "NewIterator db opts =
     (let seq = read_sequence db opts;
          children = [MemChild (new_MemIter (db_mem db))] @
            (case db_imm db of None \<Rightarrow> [] | Some imm \<Rightarrow> [MemChild (new_MemIter imm)]) @
            map (\<lambda>f. TableChild (new_TableIter (fm_table f))) (db_current db ! 0) @
            map (\<lambda>fs. LevelChild (new_LevelIter fs)) (filter (\<lambda>fs. fs \<noteq> []) (tl (db_current db)))
      in new_DBIter (NewMergingIterator children) seq)"

section \<open>Sources searched in order\<close>

lemma resolves_Un:
  assumes "resolves S key seq r" "shadows S T" "r = None \<Longrightarrow> resolves T key seq r'"
  shows "resolves (S \<union> T) key seq (case r of None \<Rightarrow> r' | Some a \<Rightarrow> Some a)"
proof (cases r)
  case None
  then show ?thesis using assms resolves_skip [of S key seq T r'] by simp
next
  case (Some a)
  then show ?thesis using assms resolves_shadow by simp
qed

lemma shadows_concat: "shadows S (set (concat ess)) \<longleftrightarrow> (\<forall>es \<in> set ess. shadows S (set es))"
  by (auto simp: shadows_def)

definition failed :: "lookup option \<Rightarrow> bool" where
  "failed r \<longleftrightarrow> (\<exists>s. r = Some (Failed s) \<and> \<not> ok s)"

text \<open>\<open>finds\<close>: the answer is that of the versions in reach, or a read has failed.\<close>

definition finds :: "renv \<Rightarrow> version set \<Rightarrow> bytes \<Rightarrow> SequenceNumber \<Rightarrow> lookup option \<Rightarrow> bool" where
  "finds e S key seq r \<longleftrightarrow> resolves S key seq r \<or> failed r \<and> \<not> env_quiet e"

lemma finds_Un:
  assumes "finds e S key seq r" "shadows S T" "r = None \<Longrightarrow> finds e' T key seq r'" "env_quiet e \<longrightarrow> env_quiet e'"
  shows "finds e (S \<union> T) key seq (case r of None \<Rightarrow> r' | Some a \<Rightarrow> Some a)"
proof (cases "failed r \<and> \<not> env_quiet e")
  case True
  then show ?thesis by (auto simp: finds_def failed_def)
next
  case False
  then have r: "resolves S key seq r" using assms(1) by (auto simp: finds_def)
  show ?thesis
  proof (cases "r = None \<and> failed r' \<and> \<not> env_quiet e'")
    case True
    then show ?thesis using assms(4) by (auto simp: finds_def)
  next
    case False
    have "r = None \<Longrightarrow> resolves T key seq r'" using False assms(3) by (auto simp: finds_def)
    from resolves_Un [OF r assms(2) this] show ?thesis by (auto simp: finds_def)
  qed
qed

lemma nth_subset_concat: "i < length ess \<Longrightarrow> set (ess ! i) \<subseteq> set (concat ess)"
  using nth_mem by (fastforce simp del: split_paired_All)

lemma sorted_range:
  assumes "keys_sorted es" "x \<in> set es"
  shows "user (hd es) \<le> user x \<and> user x \<le> user (last es)"
proof -
  have "ikey_of (fst (hd es)) \<le> ikey_of (fst x)"
    using assms by (cases es) (auto simp: keys_sorted_Cons less_imp_le)
  then show ?thesis
    using ikey_le_user_seq keys_sorted_last [OF assms] by blast
qed

lemma probe_finds:
  assumes f: "file_ok F f es" and e: "env_ok F e" and ok: "\<forall>v \<in> set es. version_ok v"
    and seq: "seq \<le> kMaxSequenceNumber" and p: "probe e f key seq n = (r, n', e')"
  shows "env_steps F e e' \<and> finds e (set es) key seq r"
proof (cases "key < ExtractUserKey (fm_smallest f) \<or> ExtractUserKey (fm_largest f) < key")
  case True
  have "user x \<noteq> key" if "x \<in> set es" for x
    using True f sorted_range [OF file_ok_sorted [OF f] that] by (auto simp: file_ok_def)
  then have "visible (set es) key seq = {}" unfolding visible_def by blast
  then show ?thesis using p True e by (auto simp: probe_def finds_def)
next
  case False
  obtain ess where t: "table_ok F (fm_table f) ess" "es = concat ess" using f by (auto simp: file_ok_def)
  obtain e1 where g: "table_Get e (fm_table f) key seq = (r, e1)" "e' = e1"
    using p False by (auto simp: probe_def split: prod.splits)
  have vs: "versions_ok es" using ok file_ok_sorted [OF f] by (simp add: versions_ok_def)
  show ?thesis
    using table_Get_seek_lookup [OF t(1) e _ seq g(1)] seek_lookup_resolves [OF vs seq, of key] ok t(2) g(2)
    by (auto simp: finds_def failed_def)
qed

lemma probe_files_finds:
  "list_all2 (file_ok F) fs ess \<Longrightarrow> env_ok F e \<Longrightarrow> \<forall>v \<in> set (concat ess). version_ok v \<Longrightarrow>
    seq \<le> kMaxSequenceNumber \<Longrightarrow> sorted_wrt (\<lambda>es es'. shadows (set es) (set es')) ess \<Longrightarrow>
    probe_files e fs key seq n = (r, n', e') \<Longrightarrow>
    env_steps F e e' \<and> finds e (set (concat ess)) key seq r"
proof (induction arbitrary: e n rule: list_all2_induct)
  case Nil
  then show ?case by (simp add: finds_def visible_def)
next
  case (Cons f fs es ess)
  obtain r1 n1 e1 where 1: "probe e f key seq n = (r1, n1, e1)" by (metis prod_cases3)
  note pr = probe_finds [OF Cons.hyps(1) Cons.prems(1) _ Cons.prems(3) 1]
  then have p: "env_steps F e e1" "finds e (set es) key seq r1" using Cons.prems(2) by auto
  have sh: "shadows (set es) (set (concat ess))" using Cons.prems(4) unfolding shadows_concat by simp
  show ?case
  proof (cases r1)
    case None
    then have rec: "probe_files e1 fs key seq n1 = (r, n', e')" using Cons.prems(5) 1 by simp
    from Cons.IH [OF _ _ _ _ rec] Cons.prems p have "env_steps F e1 e' \<and> finds e1 (set (concat ess)) key seq r" by simp
    then show ?thesis using finds_Un [OF p(2) sh, of e1 r] p(1) None by simp
  next
    case (Some a)
    then show ?thesis using finds_Un [OF p(2) sh, of e1 r] p(1) Cons.prems(5) 1 by simp
  qed
qed

text \<open>In a level below the first, only the file the binary search ends in can hold the key.\<close>

lemma level_visible:
  assumes l: "level_ok F fs ess"
  shows "file_for fs key \<le> length ess \<and> visible (set (concat ess)) key seq =
    (if file_for fs key < length ess then visible (set (ess ! file_for fs key)) key seq else {})"
proof -
  define n where "n = file_for fs key"
  let ?P = "\<lambda>i. ExtractUserKey (fm_largest (fs ! i)) < key"
  have lst: "fm_largest (fs ! i) = fst (last (ess ! i))" "last (ess ! i) \<in> set (ess ! i)" if "i < length ess" for i
    using level_ok_nth [OF l that] by (auto simp: file_ok_def)
  have dj: "user x < user y" if "i < j" "j < length ess" "x \<in> set (ess ! i)" "y \<in> set (ess ! j)" for i j x y
    using l that by (auto simp: level_ok_def user_disjoint_def sorted_wrt_iff_nth_less user_keys_def)
  have le: "user (last (ess ! i)) \<le> user (last (ess ! j))" if "i \<le> j" "j < length ess" for i j
    using that dj [of i j "last (ess ! i)" "last (ess ! j)"] lst(2) by (cases "i = j") auto
  have P: "?P i \<longleftrightarrow> user (last (ess ! i)) < key" if "i < length ess" for i using lst(1) [OF that] by simp
  have "?P i" if "i \<le> j" "j < length ess" "?P j" for i j
    using le [OF that(1,2)] P [of i] P [of j] that by auto
  then have mono: "\<forall>i j. i \<le> j \<longrightarrow> j < length ess \<longrightarrow> ?P j \<longrightarrow> ?P i" by blast
  have b: "n \<le> length ess" "\<forall>i < n. ?P i" "\<forall>i. n \<le> i \<longrightarrow> i < length ess \<longrightarrow> \<not> ?P i"
    using bisect_spec [OF mono] unfolding n_def file_for_def level_ok_length [OF l] by blast+
  have low: "user x < key" if "i < n" "x \<in> set (ess ! i)" for i x
  proof -
    have i: "i < length ess" using that(1) b(1) by simp
    have "user x \<le> user (last (ess ! i))" using sorted_range [OF file_ok_sorted [OF level_ok_nth [OF l i]] that(2)] by blast
    then show ?thesis using P [OF i] b(2) that(1) by simp
  qed
  have high: "key < user x" if i: "n < i" "i < length ess" "x \<in> set (ess ! i)" for i x
  proof -
    have n: "n < length ess" using i by simp
    have "key \<le> user (last (ess ! n))" using P [OF n] b(3) n by simp
    also have "\<dots> < user x" using dj [OF i(1,2) lst(2) [OF n] i(3)] .
    finally show ?thesis .
  qed
  have at: "x \<in> set (ess ! n) \<and> n < length ess" if x: "x \<in> set (concat ess)" "user x = key" for x
  proof -
    obtain es where "es \<in> set ess" "x \<in> set es" using x(1) by auto
    then obtain i where i: "i < length ess" "x \<in> set (ess ! i)" by (metis in_set_conv_nth)
    then have "i = n" using low [of i x] high [of i x] x(2) by (metis less_irrefl linorder_neqE_nat)
    then show ?thesis using i by simp
  qed
  have "visible (set (concat ess)) key seq = (if n < length ess then visible (set (ess ! n)) key seq else {})"
  proof (cases "n < length ess")
    case True
    have "set (ess ! n) \<subseteq> set (concat ess)" by (rule nth_subset_concat [OF True])
    then show ?thesis using at True unfolding visible_def by (simp del: set_concat split_paired_All) blast
  next
    case False
    then show ?thesis using at unfolding visible_def by (simp del: set_concat split_paired_All) blast
  qed
  then show ?thesis using b(1) by (simp add: n_def)
qed

lemma resolves_visible: "visible S key seq = visible T key seq \<Longrightarrow> resolves S key seq r \<longleftrightarrow> resolves T key seq r"
  by (simp add: resolves_def newest_def split: option.split)

lemma probe_levels_finds:
  "list_all2 (level_ok F) fss lss \<Longrightarrow> env_ok F e \<Longrightarrow> \<forall>v \<in> set (concat (map concat lss)). version_ok v \<Longrightarrow>
    seq \<le> kMaxSequenceNumber \<Longrightarrow> sorted_wrt (\<lambda>es es'. shadows (set es) (set es')) (map concat lss) \<Longrightarrow>
    probe_levels e fss key seq n = (r, n', e') \<Longrightarrow>
    env_steps F e e' \<and> finds e (set (concat (map concat lss))) key seq r"
proof (induction arbitrary: e n rule: list_all2_induct)
  case Nil
  then show ?case by (simp add: finds_def visible_def)
next
  case (Cons fs fss ess lss)
  note lv = level_visible [OF Cons.hyps(1), of key seq] and len = level_ok_length [OF Cons.hyps(1)]
  let ?i = "file_for fs key" and ?S = "set (concat ess)" and ?T = "set (concat (map concat lss))"
  define o1 where "o1 = (if ?i = length fs then (None, n, e) else probe e (fs ! ?i) key seq n)"
  obtain r1 n1 e1 where 1: "o1 = (r1, n1, e1)" by (metis prod_cases3)
  have unf: "probe_levels e (fs # fss) key seq n =
      (case o1 of (Some r, n, e) \<Rightarrow> (Some r, n, e) | (None, n, e) \<Rightarrow> probe_levels e fss key seq n)"
    using lv len by (auto simp: o1_def Let_def split: prod.splits option.splits)
  have p: "env_steps F e e1 \<and> finds e ?S key seq r1"
  proof (cases "?i < length ess")
    case True
    have "set (ess ! ?i) \<subseteq> ?S" by (rule nth_subset_concat [OF True])
    then have ok: "\<forall>v \<in> set (ess ! ?i). version_ok v" using Cons.prems(2) by (simp only: list.map concat.simps set_append) blast
    have pr: "probe e (fs ! ?i) key seq n = (r1, n1, e1)" using 1 True len by (simp add: o1_def)
    have "resolves ?S key seq r1 \<longleftrightarrow> resolves (set (ess ! ?i)) key seq r1"
      using lv True by (intro resolves_visible) simp
    then show ?thesis
      using probe_finds [OF level_ok_nth [OF Cons.hyps(1) True] Cons.prems(1) ok Cons.prems(3) pr] by (simp add: finds_def)
  next
    case False
    then show ?thesis using lv len 1 Cons.prems(1) by (auto simp: o1_def finds_def)
  qed
  have sh: "shadows ?S ?T" using Cons.prems(4) unfolding shadows_concat by simp
  have st: "set (concat (map concat (ess # lss))) = ?S \<union> ?T" by simp
  show ?case
  proof (cases r1)
    case None
    then have rec: "probe_levels e1 fss key seq n1 = (r, n', e')" using Cons.prems(5) 1 unf by simp
    have "env_steps F e1 e' \<and> finds e1 ?T key seq r"
      using Cons.prems p by (intro Cons.IH [OF _ _ _ _ rec]) auto
    then show ?thesis using finds_Un [OF conjunct2 [OF p] sh, of e1 r] p None unfolding st by simp
  next
    case (Some a)
    then show ?thesis
      using finds_Un [OF conjunct2 [OF p] sh, of e1 r] p Cons.prems(5) 1 unf unfolding st by simp
  qed
qed

section \<open>Get\<close>

lemma mem_Get_resolves:
  assumes "mem_holds mt es" "\<forall>v \<in> set es. version_ok v" "seq \<le> kMaxSequenceNumber" "length key + 8 < 2 ^ 32"
  shows "\<exists>r. mem_Get mt key seq = Some r \<and> resolves (set es) key seq r"
proof -
  have "versions_ok es" using assms(1,2) mem_holds_sorted by (simp add: versions_ok_def)
  from seek_lookup_resolves [OF this assms(3), of key] mem_Get_seek_lookup [OF assms(1,4), of seq] show ?thesis by auto
qed

definition get_reply :: "lookup option \<Rightarrow> status + bytes" where
  "get_reply r = (case r of None \<Rightarrow> Inl (NotFound []) | Some a \<Rightarrow> reply a)"

text \<open>The two parts of the search: the memtables, then the files.\<close>

definition mem_part :: "DB \<Rightarrow> bytes \<Rightarrow> SequenceNumber \<Rightarrow> lookup option option" where
  "mem_part db key seq = Option.bind (mem_Get (db_mem db) key seq) (\<lambda>r.
     case r of Some a \<Rightarrow> Some (Some a)
     | None \<Rightarrow> (case db_imm db of None \<Rightarrow> Some None | Some imm \<Rightarrow> mem_Get imm key seq))"

definition file_part :: "renv \<Rightarrow> Version \<Rightarrow> bytes \<Rightarrow> SequenceNumber \<Rightarrow> lookup option \<times> nat \<times> renv" where
  "file_part e v key seq =
     (let (r, probed, e) = probe_files e (v ! 0) key seq 0
      in case r of Some r \<Rightarrow> (Some r, probed, e) | None \<Rightarrow> probe_levels e (tl v) key seq probed)"

lemma db_Get_parts:
  assumes "mem_part db key (read_sequence db opts) = Some r"
    and "file_part e (db_current db) key (read_sequence db opts) = (r', probed, e')"
  shows "\<exists>db'. db_Get e db opts key =
    Some (get_reply (case r of None \<Rightarrow> r' | Some a \<Rightarrow> Some a), (if r = None then e' else e), db') \<and>
    db' = db\<lparr>db_stat_gets := db_stat_gets db', db_stat_get_hits_memtable := db_stat_get_hits_memtable db',
      db_stat_tables_probed := db_stat_tables_probed db'\<rparr>"
proof -
  obtain m where m: "mem_Get (db_mem db) key (read_sequence db opts) = Some m"
    using assms(1) by (auto simp: mem_part_def bind_eq_Some_conv)
  show ?thesis
  proof (cases m)
    case None
    then obtain i where "(case db_imm db of None \<Rightarrow> Some None | Some imm \<Rightarrow> mem_Get imm key (read_sequence db opts)) = Some i" "r = i"
      using assms(1) m by (auto simp: mem_part_def)
    then show ?thesis
      using assms(2) None m by (cases i) (auto simp: db_Get_def file_part_def get_reply_def Let_def split: option.splits prod.splits)
  next
    case (Some a)
    then have "r = Some a" using assms(1) m by (simp add: mem_part_def)
    then show ?thesis using m Some by (simp add: db_Get_def get_reply_def Let_def)
  qed
qed

lemma shadows_Un: "shadows S (T \<union> U) \<longleftrightarrow> shadows S T \<and> shadows S U" "shadows (S \<union> T) U \<longleftrightarrow> shadows S U \<and> shadows T U"
  unfolding shadows_def by blast+

lemma shadows_empty [simp]: "shadows S {}" "shadows {} S"
  by (simp_all add: shadows_def)

lemma file_part_finds:
  assumes v: "version_holds F v sss" and e: "env_ok F e" and seq: "seq \<le> kMaxSequenceNumber"
    and ok: "\<forall>x \<in> set (concat (hd sss @ map concat (tl sss))). version_ok x"
    and srt: "sorted_wrt (\<lambda>es es'. shadows (set es) (set es')) (hd sss @ map concat (tl sss))"
    and r: "file_part e v key seq = (r, n, e')"
  shows "env_steps F e e' \<and> finds e (set (concat (hd sss @ map concat (tl sss)))) key seq r"
proof -
  obtain fs fss ss lss where d: "v = fs # fss" "sss = ss # lss" "list_all2 (file_ok F) fs ss" "list_all2 (level_ok F) fss lss"
    using v by (auto simp: version_holds_def)
  let ?T = "set (concat (map concat lss))"
  obtain r1 n1 e1 where 1: "probe_files e fs key seq 0 = (r1, n1, e1)" by (metis prod_cases3)
  have p: "env_steps F e e1 \<and> finds e (set (concat ss)) key seq r1"
    using ok srt d by (intro probe_files_finds [OF d(3) e _ seq _ 1]) (auto simp: sorted_wrt_append)
  have "\<forall>es \<in> set ss. shadows (set es) ?T"
    using srt d(2) unfolding shadows_concat by (auto simp: sorted_wrt_append)
  then have sh: "shadows (set (concat ss)) ?T" by (auto simp: shadows_def)
  have st: "set (concat (hd sss @ map concat (tl sss))) = set (concat ss) \<union> ?T" using d(2) by simp
  show ?thesis
  proof (cases r1)
    case None
    then have 2: "probe_levels e1 fss key seq n1 = (r, n, e')" using r 1 d(1) by (simp add: file_part_def)
    have q: "env_steps F e1 e' \<and> finds e1 ?T key seq r"
      using ok srt d(2) p by (intro probe_levels_finds [OF d(4) _ _ seq _ 2]) (auto simp: sorted_wrt_append)
    then show ?thesis using finds_Un [OF conjunct2 [OF p] sh, of e1 r] p None unfolding st by simp
  next
    case (Some a)
    then show ?thesis
      using finds_Un [OF conjunct2 [OF p] sh, of e1 r] p r 1 d(1) unfolding st by (simp add: file_part_def)
  qed
qed

lemma mem_part_resolves:
  assumes "mem_holds (db_mem db) mes" "rel_option mem_holds (db_imm db) ies" "seq \<le> kMaxSequenceNumber"
    and "length key + 8 < 2 ^ 32" "\<forall>v \<in> set mes \<union> set (case ies of None \<Rightarrow> [] | Some es \<Rightarrow> es). version_ok v"
    and "shadows (set mes) (set (case ies of None \<Rightarrow> [] | Some es \<Rightarrow> es))"
  shows "\<exists>r. mem_part db key seq = Some r \<and>
    resolves (set mes \<union> set (case ies of None \<Rightarrow> [] | Some es \<Rightarrow> es)) key seq r"
proof -
  let ?I = "set (case ies of None \<Rightarrow> [] | Some es \<Rightarrow> es)"
  obtain r where r: "mem_Get (db_mem db) key seq = Some r" "resolves (set mes) key seq r"
    using mem_Get_resolves [OF assms(1) _ assms(3,4)] assms(5) by blast
  have "\<exists>r'. (case db_imm db of None \<Rightarrow> Some None | Some imm \<Rightarrow> mem_Get imm key seq) = Some r' \<and> resolves ?I key seq r'"
  proof (cases ies)
    case None
    then show ?thesis using assms(2) by (auto simp: visible_def)
  next
    case (Some es)
    then obtain imm where imm: "db_imm db = Some imm" "mem_holds imm es" using assms(2) by (auto simp: option_rel_Some2)
    then show ?thesis using mem_Get_resolves [OF imm(2) _ assms(3,4)] assms(5) Some by auto
  qed
  then obtain r' where r': "(case db_imm db of None \<Rightarrow> Some None | Some imm \<Rightarrow> mem_Get imm key seq) = Some r'"
    "resolves ?I key seq r'" by blast
  have "mem_part db key seq = Some (case r of None \<Rightarrow> r' | Some a \<Rightarrow> Some a)"
    using r(1) r'(1) by (auto simp: mem_part_def split: option.splits)
  then show ?thesis using resolves_Un [OF r(2) assms(6) r'(2)] by blast
qed

lemma db_Get_finds:
  assumes db: "db_ok F db srcs" and e: "env_ok F e" and seq: "read_sequence db opts \<le> kMaxSequenceNumber"
    and key: "length key + 8 < 2 ^ 32"
  shows "\<exists>r e' db'. db_Get e db opts key = Some (get_reply r, e', db') \<and> env_steps F e e' \<and>
    finds e (stored srcs) key (read_sequence db opts) r"
proof -
  obtain mes ies sss where h: "mem_holds (db_mem db) mes" "rel_option mem_holds (db_imm db) ies"
      "version_holds F (db_current db) sss" and srcs: "srcs = db_sources mes ies sss"
    using db by (auto simp: db_ok_def db_holds_def)
  let ?q = "read_sequence db opts" and ?I = "set (case ies of None \<Rightarrow> [] | Some es \<Rightarrow> es)"
    and ?fs = "hd sss @ map concat (tl sss)"
  have ok: "\<forall>x \<in> stored srcs. version_ok x" and srt: "sorted_wrt (\<lambda>es es'. shadows (set es) (set es')) srcs"
    using db by (auto simp: db_ok_def sources_ok_def)
  have st: "stored srcs = (set mes \<union> ?I) \<union> set (concat ?fs)"
    by (auto simp: stored_def srcs db_sources_def split: option.splits)
  have imm: "shadows (set mes) ?I" using srt by (auto simp: srcs db_sources_def split: option.splits)
  have "shadows (set mes) (set (concat ?fs))" "shadows ?I (set (concat ?fs))"
    using srt unfolding shadows_concat srcs db_sources_def by (cases ies; simp)+
  then have sh: "shadows (set mes \<union> ?I) (set (concat ?fs))" by (simp add: shadows_Un)
  obtain r where r: "mem_part db key ?q = Some r" "resolves (set mes \<union> ?I) key ?q r"
    using mem_part_resolves [OF h(1,2) seq key _ imm] ok unfolding st by blast
  obtain r' n e' where r': "file_part e (db_current db) key ?q = (r', n, e')" by (metis prod_cases3)
  have fsrt: "sorted_wrt (\<lambda>es es'. shadows (set es) (set es')) ?fs"
    using srt by (auto simp: srcs db_sources_def sorted_wrt_append)
  have p: "env_steps F e e' \<and> finds e (set (concat ?fs)) key ?q r'"
    using ok unfolding st by (intro file_part_finds [OF h(3) e seq _ fsrt r']) blast
  have "finds e (stored srcs) key ?q (case r of None \<Rightarrow> r' | Some a \<Rightarrow> Some a)"
    unfolding st using r(2) p by (intro finds_Un [OF _ sh, of _ _ _ _ e]) (auto simp: finds_def)
  moreover obtain db' where "db_Get e db opts key =
      Some (get_reply (case r of None \<Rightarrow> r' | Some a \<Rightarrow> Some a), (if r = None then e' else e), db')"
    using db_Get_parts [OF r(1) r'] by blast
  moreover have "env_steps F e (if r = None then e' else e)" using p e by simp
  ultimately show ?thesis by blast
qed

section \<open>Iterators\<close>

lemma level_child_opened: "level_ok F fs ess \<Longrightarrow> c_opened F (LevelChild (new_LevelIter fs)) (concat ess)"
  by (auto simp: lv_opened_def new_LevelIter_def)

lemma NewIterator_opened:
  assumes db: "db_ok F db srcs"
  shows "\<exists>cs ess. NewIterator db opts = new_DBIter (NewMergingIterator cs) (read_sequence db opts) \<and>
    list_all2 (c_opened F) cs ess \<and> set (concat ess) = stored srcs \<and> length (concat ess) = length (concat srcs)"
proof -
  obtain mes ies sss where h: "mem_holds (db_mem db) mes" "rel_option mem_holds (db_imm db) ies"
      "version_holds F (db_current db) sss" and srcs: "srcs = db_sources mes ies sss"
    using db by (auto simp: db_ok_def db_holds_def)
  obtain fs fss ss lss where d: "db_current db = fs # fss" "sss = ss # lss" "list_all2 (file_ok F) fs ss" "list_all2 (level_ok F) fss lss"
    using h(3) by (auto simp: version_holds_def)
  let ?mc = "\<lambda>mt. MemChild (new_MemIter mt)" and ?ls = "filter (\<lambda>es. es \<noteq> []) (map concat lss)"
  have mem: "c_opened F (?mc mt) es" if "mem_holds mt es" for mt es
    using that by (simp add: mi_opened_def new_MemIter_def)
  have imm: "list_all2 (c_opened F) (case db_imm db of None \<Rightarrow> [] | Some imm \<Rightarrow> [?mc imm]) (case ies of None \<Rightarrow> [] | Some es \<Rightarrow> [es])"
    using h(2) mem by (cases "db_imm db"; cases ies) auto
  have l0: "list_all2 (c_opened F) (map (\<lambda>f. TableChild (new_TableIter (fm_table f))) fs) ss"
    using d(3) new_TableIter_opened by (induction rule: list_all2_induct) auto
  have ln: "list_all2 (c_opened F) (map (\<lambda>fs. LevelChild (new_LevelIter fs)) (filter (\<lambda>fs. fs \<noteq> []) fss)) ?ls"
    using d(4)
  proof (induction rule: list_all2_induct)
    case (Cons fs fss ess lss)
    have "fs = [] \<longleftrightarrow> concat ess = []"
    proof
      assume "concat ess = []"
      then have "\<not> 0 < length ess" using level_ok_nth [OF Cons.hyps(1), of 0] nth_mem [of 0 ess] by (auto simp: file_ok_def)
      then show "fs = []" using level_ok_length [OF Cons.hyps(1)] by simp
    qed (use level_ok_length [OF Cons.hyps(1)] in simp)
    then show ?case using Cons level_child_opened by (auto simp del: concat_eq_Nil_conv)
  qed simp
  let ?cs = "[?mc (db_mem db)] @ (case db_imm db of None \<Rightarrow> [] | Some imm \<Rightarrow> [?mc imm]) @
      map (\<lambda>f. TableChild (new_TableIter (fm_table f))) fs @
      map (\<lambda>fs. LevelChild (new_LevelIter fs)) (filter (\<lambda>fs. fs \<noteq> []) fss)"
    and ?ess = "[mes] @ (case ies of None \<Rightarrow> [] | Some es \<Rightarrow> [es]) @ ss @ ?ls"
  have "list_all2 (c_opened F) ?cs ?ess"
    using mem [OF h(1)] imm l0 ln by (intro list_all2_appendI) simp_all
  moreover have "NewIterator db opts = new_DBIter (NewMergingIterator ?cs) (read_sequence db opts)"
    using d(1) by (simp add: NewIterator_def Let_def)
  moreover have "concat ?ess = concat srcs"
  proof -
    have "concat ?ls = concat (map concat lss)" by (induction lss) auto
    then show ?thesis using d(2) by (simp add: srcs db_sources_def)
  qed
  ultimately show ?thesis unfolding stored_def by (intro exI [of _ ?cs] exI [of _ ?ess]) simp
qed

section \<open>A database with one memtable\<close>

lemma empty_version_holds: "version_holds F empty_Version (replicate kNumLevels [])"
  unfolding version_holds_def
  by (intro exI [of _ "[]"] exI [of _ "replicate 6 []"])
    (simp add: empty_Version_def kNumLevels_def numeral_eq_Suc level_ok_def user_disjoint_def)

lemma mem_only_ok:
  assumes "mem_holds mt es" "\<forall>x \<in> set es. version_ok x \<and> seqno x \<le> cap" "unique_versions (set es)" "cap \<le> kMaxSequenceNumber"
  shows "db_ok F ((new_DB base rnd now opt path)\<lparr>db_mem := mt, db_last_sequence := cap\<rparr>) (es # replicate 6 [])"
proof -
  let ?db = "(new_DB base rnd now opt path)\<lparr>db_mem := mt, db_last_sequence := cap\<rparr>"
  have "db_holds F ?db es None (replicate kNumLevels [])"
    using assms(1) empty_version_holds by (simp add: db_holds_def new_DB_def)
  moreover have "es # replicate 6 [] = db_sources es None (replicate kNumLevels [])"
    by (simp add: db_sources_def kNumLevels_def numeral_eq_Suc)
  moreover have "stored (es # replicate 6 []) = set es" by (simp add: stored_def numeral_eq_Suc)
  then have "sources_ok cap (es # replicate 6 [])"
    using assms by (simp add: sources_ok_def numeral_eq_Suc)
  ultimately show ?thesis by (auto simp: db_ok_def)
qed

lemma writes_unique:
  assumes "writes_ok ws"
  shows "unique_versions (version_of ` set ws)"
proof -
  have "version_of w = version_of w'"
    if "w \<in> set ws" "w' \<in> set ws" "user (version_of w) = user (version_of w')" "seqno (version_of w) = seqno (version_of w')" for w w'
  proof -
    obtain s t k v s' t' k' v' where w: "w = (s, t, k, v)" "w' = (s', t', k', v')" by (cases w; cases w')
    have "write_ok w" "write_ok w'" using that assms by (auto simp: writes_ok_def simp del: split_paired_All)
    then have "(k, s) = (k', s')" using that w by auto
    moreover have inj: "inj_on (\<lambda>(seq, type, key, val). (key, seq)) (set ws)" using assms by (simp add: writes_ok_def distinct_map)
    ultimately have "w = w'" using w by (intro inj_onD [OF inj _ that(1,2)]) simp
    then show ?thesis by simp
  qed
  then show ?thesis unfolding unique_versions_def by blast
qed

definition sample_writes :: "mem_write list" where
  "sample_writes = [(1, kValue, [97], [1]), (2, kValue, [98], [7]), (3, kDeletion, [97], []), (4, kValue, [99], [2])]"

lemma sample_db:
  "\<exists>mt es. mem_adds (\<lambda>i. 0) (new_MemTable (\<lambda>i. 0) (\<lambda>i. 0)) sample_writes = Some mt \<and>
    set es = version_of ` set sample_writes \<and>
    db_ok (\<lambda>_ _. None) ((new_DB (\<lambda>i. 0) (\<lambda>i. 0) 0 default_Options ''db'')\<lparr>db_mem := mt, db_last_sequence := 4\<rparr>) (es # replicate 6 []) \<and>
    stored (es # replicate 6 []) = version_of ` set sample_writes"
proof -
  have ok: "writes_ok sample_writes"
    by (simp add: writes_ok_def sample_writes_def type_ok_def kMaxSequenceNumber_def kValue_def kDeletion_def)
  obtain mt es where mt: "mem_adds (\<lambda>i. 0) (new_MemTable (\<lambda>i. 0) (\<lambda>i. 0)) sample_writes = Some mt" "mem_holds mt es"
      "set es = version_of ` set sample_writes"
    using mem_adds_holds [OF mem_holds_new ok, of "\<lambda>i. 0" "\<lambda>i. 0" "\<lambda>i. 0"] by auto
  have "\<forall>x \<in> set es. version_ok x \<and> seqno x \<le> 4"
    unfolding mt(3) sample_writes_def by (auto simp: version_ok_def type_ok_def kMaxSequenceNumber_def kValue_def kDeletion_def)
  moreover have "unique_versions (set es)" unfolding mt(3) by (rule writes_unique [OF ok])
  ultimately have "db_ok (\<lambda>_ _. None) ((new_DB (\<lambda>i. 0) (\<lambda>i. 0) 0 default_Options ''db'')\<lparr>db_mem := mt, db_last_sequence := 4\<rparr>) (es # replicate 6 [])"
    using mt(2) by (intro mem_only_ok) (simp_all add: kMaxSequenceNumber_def)
  moreover have "stored (es # replicate 6 []) = version_of ` set sample_writes" using mt(3) by (simp add: stored_def numeral_eq_Suc)
  ultimately show ?thesis using mt(1,3) by blast
qed

section \<open>Properties\<close>

text \<open>C31. DB::Get answers with the newest version of the key that is visible at the snapshot, or
  at the last sequence number when none is given, over all memtables and levels: the value if that
  version is a value, NotFound if it is a tombstone or there is none. It always ends, and any other
  error means that a system call has failed. The search stops at the first source that knows the
  key; the invariant that newer sources shadow older ones makes that the right one.\<close>

theorem get_returns_newest:
  assumes "db_ok F db srcs" "env_ok F e" "read_sequence db opts \<le> kMaxSequenceNumber" "length key + 8 < 2 ^ 32"
  shows "\<exists>res e' db'. db_Get e db opts key = Some (res, e', db') \<and>
    (case res of
       Inr v \<Rightarrow> resolves (stored srcs) key (read_sequence db opts) (Some (Found v))
     | Inl s \<Rightarrow> \<not> ok s \<and>
         (s = NotFound [] \<and> (resolves (stored srcs) key (read_sequence db opts) None \<or>
            resolves (stored srcs) key (read_sequence db opts) (Some Deleted)) \<or> \<not> env_quiet e))"
proof -
  obtain r e' db' where r: "db_Get e db opts key = Some (get_reply r, e', db')" "finds e (stored srcs) key (read_sequence db opts) r"
    using db_Get_finds [OF assms] by blast
  have nf: "\<not> ok (NotFound [])" by (simp add: ok_def NotFound_def)
  show ?thesis
  proof (cases "failed r \<and> \<not> env_quiet e")
    case True
    then show ?thesis using r(1) by (auto simp: failed_def get_reply_def)
  next
    case False
    then have res: "resolves (stored srcs) key (read_sequence db opts) r" using r(2) by (auto simp: finds_def)
    have "r \<noteq> Some (Failed s)" for s using res by (auto simp: resolves_def answer_def split: if_splits)
    then consider v where "r = Some (Found v)" | "r = Some Deleted" | "r = None" by (metis lookup.exhaust option.exhaust)
    then show ?thesis using r(1) res nf by cases (auto simp: get_reply_def)
  qed
qed

theorem get_returns_newest_witness:
  "\<exists>mt res e' db'. mem_adds (\<lambda>i. 0) (new_MemTable (\<lambda>i. 0) (\<lambda>i. 0)) sample_writes = Some mt \<and>
    db_Get sample_env ((new_DB (\<lambda>i. 0) (\<lambda>i. 0) 0 default_Options ''db'')\<lparr>db_mem := mt, db_last_sequence := 4\<rparr>)
      default_ReadOptions [98] = Some (res, e', db') \<and>
    (case res of
       Inr v \<Rightarrow> resolves (version_of ` set sample_writes) [98] 4 (Some (Found v))
     | Inl s \<Rightarrow> \<not> ok s \<and> s = NotFound [] \<and> (resolves (version_of ` set sample_writes) [98] 4 None \<or>
            resolves (version_of ` set sample_writes) [98] 4 (Some Deleted)))"
proof -
  obtain mt es where mt: "mem_adds (\<lambda>i. 0) (new_MemTable (\<lambda>i. 0) (\<lambda>i. 0)) sample_writes = Some mt"
    and db: "db_ok (\<lambda>_ _. None) ((new_DB (\<lambda>i. 0) (\<lambda>i. 0) 0 default_Options ''db'')\<lparr>db_mem := mt, db_last_sequence := 4\<rparr>) (es # replicate 6 [])"
    and st: "stored (es # replicate 6 []) = version_of ` set sample_writes"
    using sample_db by blast
  have env: "env_ok (\<lambda>_ _. None) sample_env" using cache_new [of 100 2] by (simp add: lru.coherent_def)
  have q: "no_failure (re_world sample_env)" by (simp add: no_failure_def)
  have seq: "read_sequence ((new_DB (\<lambda>i. 0) (\<lambda>i. 0) 0 default_Options ''db'')\<lparr>db_mem := mt, db_last_sequence := 4\<rparr>) default_ReadOptions = 4"
    by (simp add: read_sequence_def default_ReadOptions_def)
  show ?thesis
    using get_returns_newest [OF db env, of default_ReadOptions "[98]"] mt q
    unfolding st seq by (auto simp: kMaxSequenceNumber_def split: sum.splits)
qed

text \<open>C32. Point reads and scans show the same database. With the same read options and when no
  system call fails, a full scan yields the row (key, value) exactly when Get of the key returns
  the value: the heap merge, the level cursors and the row collapsing of the iterator agree with
  the source by source search of Get.\<close>

theorem get_and_scan_agree:
  assumes "db_ok F db srcs" "env_ok F e" "env_quiet e" "read_sequence db opts \<le> kMaxSequenceNumber"
  shows "\<exists>e1 d1 rows e' d'. di_SeekToFirst e (NewIterator db opts) = Some (e1, d1) \<and>
    db_scan (length (concat srcs)) e1 d1 = Some (rows, e', d') \<and> ok (di_status d') \<and> sorted_wrt (<) (map fst rows) \<and>
    (\<forall>key v. length key + 8 < 2 ^ 32 \<longrightarrow>
       ((key, v) \<in> set rows \<longleftrightarrow> (\<exists>e2 db2. db_Get e db opts key = Some (Inr v, e2, db2))))"
proof -
  let ?q = "read_sequence db opts"
  obtain cs ess where it: "NewIterator db opts = new_DBIter (NewMergingIterator cs) ?q" "list_all2 (c_opened F) cs ess"
      "set (concat ess) = stored srcs" "length (concat ess) = length (concat srcs)"
    using NewIterator_opened [OF assms(1)] by blast
  have n: "length (concat ess) \<le> length (concat srcs)" using it(4) by simp
  obtain e1 d1 rows e' d' where sc: "di_SeekToFirst e (NewIterator db opts) = Some (e1, d1)"
      "db_scan (length (concat srcs)) e1 d1 = Some (rows, e', d')" "ok (di_status d')" "sorted_wrt (<) (map fst rows)"
    and found: "\<And>k v. (k, v) \<in> set rows \<Longrightarrow> resolves (stored srcs) k ?q (Some (Found v))"
    and missing: "\<And>k. k \<notin> fst ` set rows \<Longrightarrow> resolves (stored srcs) k ?q None \<or> resolves (stored srcs) k ?q (Some Deleted)"
    using scan_of_children [OF assms(2) it(2) n, of ?q] assms(3) unfolding it(1,3) by blast
  have un: "unique_versions (stored srcs)" using assms(1) by (simp add: db_ok_def sources_ok_def)
  have "(key, v) \<in> set rows \<longleftrightarrow> (\<exists>e2 db2. db_Get e db opts key = Some (Inr v, e2, db2))" if key: "length key + 8 < 2 ^ 32" for key v
  proof -
    obtain r e2 db2 where g: "db_Get e db opts key = Some (get_reply r, e2, db2)" "finds e (stored srcs) key ?q r"
      using db_Get_finds [OF assms(1,2,4) key] by blast
    have r: "resolves (stored srcs) key ?q r" using g(2) assms(3) by (auto simp: finds_def)
    have "get_reply r = Inr v \<longleftrightarrow> r = Some (Found v)"
    proof (cases r)
      case (Some a)
      then show ?thesis by (cases a) (simp_all add: get_reply_def)
    qed (simp add: get_reply_def)
    moreover have "(key, v) \<in> set rows \<longleftrightarrow> r = Some (Found v)"
    proof
      assume "(key, v) \<in> set rows"
      from resolves_unique [OF r found [OF this] un] show "r = Some (Found v)" .
    next
      assume rv: "r = Some (Found v)"
      have "key \<in> fst ` set rows"
        using missing [of key] resolves_unique [OF r _ un] rv by (metis lookup.distinct(1) option.distinct(1) option.inject)
      then obtain v' where v': "(key, v') \<in> set rows" by auto
      with resolves_unique [OF r found [OF v'] un] rv show "(key, v) \<in> set rows" by simp
    qed
    ultimately show ?thesis using g(1) by simp
  qed
  then show ?thesis using sc by blast
qed

theorem get_and_scan_agree_witness:
  "\<exists>mt n e1 d1 rows e' d'. mem_adds (\<lambda>i. 0) (new_MemTable (\<lambda>i. 0) (\<lambda>i. 0)) sample_writes = Some mt \<and>
    di_SeekToFirst sample_env (NewIterator ((new_DB (\<lambda>i. 0) (\<lambda>i. 0) 0 default_Options ''db'')
      \<lparr>db_mem := mt, db_last_sequence := 4\<rparr>) default_ReadOptions) = Some (e1, d1) \<and>
    db_scan n e1 d1 = Some (rows, e', d') \<and> ok (di_status d') \<and> sorted_wrt (<) (map fst rows) \<and>
    (\<forall>key v. length key + 8 < 2 ^ 32 \<longrightarrow>
       ((key, v) \<in> set rows \<longleftrightarrow> (\<exists>e2 db2. db_Get sample_env ((new_DB (\<lambda>i. 0) (\<lambda>i. 0) 0 default_Options ''db'')
          \<lparr>db_mem := mt, db_last_sequence := 4\<rparr>) default_ReadOptions key = Some (Inr v, e2, db2))))"
proof -
  obtain mt es where mt: "mem_adds (\<lambda>i. 0) (new_MemTable (\<lambda>i. 0) (\<lambda>i. 0)) sample_writes = Some mt"
    and db: "db_ok (\<lambda>_ _. None) ((new_DB (\<lambda>i. 0) (\<lambda>i. 0) 0 default_Options ''db'')\<lparr>db_mem := mt, db_last_sequence := 4\<rparr>) (es # replicate 6 [])"
    using sample_db by blast
  have env: "env_ok (\<lambda>_ _. None) sample_env" using cache_new [of 100 2] by (simp add: lru.coherent_def)
  have q: "no_failure (re_world sample_env)" by (simp add: no_failure_def)
  have seq: "read_sequence ((new_DB (\<lambda>i. 0) (\<lambda>i. 0) 0 default_Options ''db'')\<lparr>db_mem := mt, db_last_sequence := 4\<rparr>) default_ReadOptions \<le> kMaxSequenceNumber"
    by (simp add: read_sequence_def default_ReadOptions_def kMaxSequenceNumber_def)
  show ?thesis using get_and_scan_agree [OF db env q seq] mt by blast
qed

end
