(* ===== verification/Manifest.thy ===== *)
theory Manifest
  imports Db_Read
begin

text \<open>
  The manifest: \<open>WriteManifest\<close> and \<open>LoadManifest\<close> of \<open>src/db.cpp\<close>. It is the commit
  point of flushes and compactions: written to a temporary file, synced, renamed
  over the old one. The theorems say that whatever system call fails the file
  \<open>MANIFEST\<close> holds the old contents or the complete new ones, and that loading gives
  back what was written.
\<close>

section \<open>Definitions\<close>

definition kManifestMagic :: u64 where "kManifestMagic = 0x54534546494e414d"

text \<open>\<open>rename\<close> replaces the target atomically.\<close>

definition rename_file :: "world \<Rightarrow> string \<Rightarrow> string \<Rightarrow> world" where
  "rename_file w old new = (case file_of w old of None \<Rightarrow> w | Some c \<Rightarrow> put_file (unlink w old) new c)"

definition db_SyncFd :: "world \<Rightarrow> string \<Rightarrow> status \<times> world" where
  "db_SyncFd w what =
     (case simple_call w of (Some e, w) \<Rightarrow> (PosixError (''fsync '' @ what) e, w) | (None, w) \<Rightarrow> (OK, w))"

definition SyncDirectory :: "world \<Rightarrow> string \<Rightarrow> status \<times> world" where
  "SyncDirectory w path =
     (case simple_call w of
        (Some e, w) \<Rightarrow> (PosixError (''open dir '' @ path) e, w)
      | (None, w) \<Rightarrow>
          let (s, w) = db_SyncFd w (''dir '' @ path);
              w = snd (simple_call w)
          in (s, w))"

definition manifest_body :: "Version \<Rightarrow> u64 \<Rightarrow> u64 \<Rightarrow> SequenceNumber \<Rightarrow> bytes" where
  "manifest_body version log_number next_file_number last_sequence =
     (let body = PutFixed64 [] kManifestMagic;
          body = PutFixed64 body next_file_number;
          body = PutFixed64 body last_sequence;
          body = PutFixed64 body log_number;
          num_files = foldl (\<lambda>n level. n + of_nat (length level)) (0 :: u32) version;
          body = PutFixed32 body num_files;
          body = foldl (\<lambda>body level. foldl (\<lambda>body f.
              let body = PutFixed32 body (of_nat level);
                  body = PutFixed64 body (fm_number f);
                  body = PutFixed64 body (fm_file_size f);
                  body = PutLengthPrefixed body (fm_smallest f)
              in PutLengthPrefixed body (fm_largest f)) body (version ! level)) body [0..<kNumLevels]
      in PutFixed32 body (Value body))"

text \<open>The write loop has its own error text.\<close>

definition WriteManifest ::
  "world \<Rightarrow> DB \<Rightarrow> Version \<Rightarrow> u64 \<Rightarrow> u64 \<Rightarrow> SequenceNumber \<Rightarrow> status \<times> world" where
  "WriteManifest w db version log_number next_file_number last_sequence =
     (let body = manifest_body version log_number next_file_number last_sequence;
          tmp = ManifestPath db @ ''.tmp''
      in case simple_call w of
           (Some e, w) \<Rightarrow> (PosixError (''open '' @ tmp) e, w)
         | (None, w) \<Rightarrow>
             let w = put_file w tmp [];
                 (s, w) = WriteFully w tmp body
             in if \<not> ok s
                then (IOError (''write manifest'' @ drop (length ''write'') (st_msg s)), snd (simple_call w))
                else let (sync, w) = db_SyncFd w ''manifest'' in
                  if \<not> ok sync then (sync, snd (simple_call w))
                  else let w = snd (simple_call w) in
                    case simple_call w of
                      (Some e, w) \<Rightarrow> (PosixError ''rename manifest'' e, w)
                    | (None, w) \<Rightarrow> SyncDirectory (rename_file w tmp (ManifestPath db)) (db_path db))"

text \<open>
  The loop over the entries. A level number is checked after the keys were read;
  each table is opened as its entry is met.
\<close>

fun LoadFiles :: "nat \<Rightarrow> DB \<Rightarrow> renv \<Rightarrow> bytes \<Rightarrow> Version \<Rightarrow> (status + Version) \<times> renv" where
  "LoadFiles 0 db e rest version = (Inr version, e)"
| "LoadFiles (Suc n) db e rest version =
     (if length rest < 20 then (Inl (Corruption ''truncated manifest entry''), e)
      else let level = DecodeFixed32 rest;
               number = DecodeFixed64 (drop 4 rest);
               file_size = DecodeFixed64 (drop 12 rest);
               rest = drop 20 rest
        in case GetLengthPrefixed rest of
             None \<Rightarrow> (Inl (Corruption ''truncated manifest key''), e)
           | Some (smallest, rest) \<Rightarrow>
             (case GetLengthPrefixed rest of
                None \<Rightarrow> (Inl (Corruption ''truncated manifest key''), e)
              | Some (largest, rest) \<Rightarrow>
                  if of_nat kNumLevels \<le> level then (Inl (Corruption ''manifest level out of range''), e)
                  else case table_Open e (TablePath db number) (db_options db) (db_has_cache db) number of
                         (Inl s, e) \<Rightarrow> (Inl s, e)
                       | (Inr table, e) \<Rightarrow>
                           let meta = \<lparr>fm_number = number, fm_file_size = file_size, fm_smallest = smallest,
                                       fm_largest = largest, fm_table = table\<rparr>
                           in LoadFiles n db e rest
                                (version[unat level := version ! unat level @ [meta]])))"

text \<open>
  \<open>std::sort\<close> of the levels: level 0 by falling number, the others by smallest key.
  The sort here is stable and that of the library need not be; no level holds two
  files of equal number or smallest key, so there are no ties.
\<close>

definition sort_levels :: "Version \<Rightarrow> Version" where
  "sort_levels version =
     sort_key (\<lambda>f. - uint (fm_number f)) (hd version) #
     map (sort_key (\<lambda>f. ikey_of (fm_smallest f))) (tl version)"

text \<open>
  A body of 36 to 39 bytes passes the size check, and \<open>remove_prefix(36)\<close> is then
  called on a shorter view, which is undefined. The model stops there, with a
  status of its own, and \<open>re_overrun\<close> records it.
\<close>

definition LoadManifest :: "renv \<Rightarrow> DB \<Rightarrow> status \<times> u64 \<times> renv \<times> DB" where
  "LoadManifest e db =
     (let (err, w) = simple_call (re_world e); e = e\<lparr>re_world := w\<rparr> in
      case err of
        Some m \<Rightarrow> (PosixError ''open manifest'' m, 0, e, db)
      | None \<Rightarrow>
        (case file_of w (ManifestPath db) of
           None \<Rightarrow> (OK, 0, e, db\<lparr>db_current := empty_Version\<rparr>)
         | Some c \<Rightarrow>
           let (r, w) = ReadChunks w c []; e = e\<lparr>re_world := snd (simple_call w)\<rparr> in
           case r of
             Inl m \<Rightarrow> (PosixError ''read manifest'' m, 0, e, db)
           | Inr body \<Rightarrow>
             if length body < 36 then (Corruption ''manifest too short'', 0, e, db)
             else let body_len = length body - 4 in
               if Value (take body_len body) \<noteq> DecodeFixed32 (drop body_len body)
               then (Corruption ''manifest checksum mismatch'', 0, e, db)
               else let rest = take body_len body in
                 if DecodeFixed64 rest \<noteq> kManifestMagic then (Corruption ''bad manifest magic'', 0, e, db)
                 else let db = db\<lparr>db_next_file_number := DecodeFixed64 (drop 8 rest),
                                  db_last_sequence := DecodeFixed64 (drop 16 rest)\<rparr>;
                          log_number = DecodeFixed64 (drop 24 rest);
                          num_files = DecodeFixed32 (drop 32 body)
                   in if body_len < 36 then (Corruption ''undefined'', log_number, e\<lparr>re_overrun := True\<rparr>, db)
                      else case LoadFiles (unat num_files) db e (drop 36 rest) empty_Version of
                        (Inl s, e) \<Rightarrow> (s, log_number, e, db)
                      | (Inr version, e) \<Rightarrow> (OK, log_number, e, db\<lparr>db_current := sort_levels version\<rparr>)))"

section \<open>Writing\<close>

lemma file_of_unlink: "file_of (unlink w p) q = (if q = p then None else file_of w q)"
proof -
  have "map_of (filter (\<lambda>(a, c). a \<noteq> p) xs) q = (if q = p then None else map_of xs q)" for xs :: "(string \<times> bytes) list"
    by (induction xs) auto
  then show ?thesis by (simp add: file_of_def unlink_def)
qed

lemma simple_call_file: "simple_call w = (r, w') \<Longrightarrow> file_of w' p = file_of w p"
  using simple_call_files by (simp add: file_of_def)

lemma snd_simple_call_file [simp]: "file_of (snd (simple_call w)) p = file_of w p"
  using simple_call_file by (metis prod.collapse)

lemma db_SyncFd_file: "db_SyncFd w what = (s, w') \<Longrightarrow> file_of w' p = file_of w p \<and> (ok s \<longrightarrow> s = OK)"
  by (auto simp: db_SyncFd_def simple_call_file PosixError_def ok_def IOError_def split: prod.splits option.splits)

lemma SyncDirectory_file: "SyncDirectory w path = (s, w') \<Longrightarrow> file_of w' p = file_of w p"
  by (auto simp: SyncDirectory_def simple_call_file split: prod.splits option.splits dest!: db_SyncFd_file)

lemma WriteManifest_atomic:
  assumes "WriteManifest w db v log nxt seq = (s, w')"
  shows "file_of w' (ManifestPath db) = Some (manifest_body v log nxt seq) \<or>
      \<not> ok s \<and> file_of w' (ManifestPath db) = file_of w (ManifestPath db)"
    and "p \<noteq> ManifestPath db \<Longrightarrow> p \<noteq> ManifestPath db @ ''.tmp'' \<Longrightarrow> file_of w' p = file_of w p"
proof -
  let ?tmp = "ManifestPath db @ ''.tmp''" and ?m = "ManifestPath db" and ?b = "manifest_body v log nxt seq"
  have ne: "?tmp \<noteq> ?m" by simp
  obtain e1 w1 where 1: "simple_call w = (e1, w1)" by force
  note f1 = simple_call_file [OF 1]
  have "(file_of w' ?m = Some ?b \<or> \<not> ok s \<and> file_of w' ?m = file_of w ?m) \<and>
      (\<forall>p. p \<noteq> ?m \<longrightarrow> p \<noteq> ?tmp \<longrightarrow> file_of w' p = file_of w p)"
  proof (cases e1)
    case (Some m)
    then show ?thesis using assms 1 f1 by (auto simp: WriteManifest_def Let_def PosixError_def)
  next
    case None
    obtain s2 w2 where 2: "WriteFully (put_file w1 ?tmp []) ?tmp ?b = (s2, w2)" by force
    from WriteFully_spec [OF 2, of "[]"] obtain n where f2: "file_of w2 ?tmp = Some (take n ?b)" "ok s2 \<longrightarrow> n = length ?b"
        "\<forall>p. p \<noteq> ?tmp \<longrightarrow> file_of w2 p = file_of w p"
      using f1 by auto
    show ?thesis
    proof (cases "ok s2")
      case False
      then show ?thesis using assms 1 None 2 f2(3) ne by (auto simp: WriteManifest_def Let_def IOError_def ok_def)
    next
      case True
      obtain s3 w3 where 3: "db_SyncFd w2 ''manifest'' = (s3, w3)" by force
      note f3 = db_SyncFd_file [OF 3]
      obtain e4 w4 where 4: "simple_call (snd (simple_call w3)) = (e4, w4)" by force
      have f4: "file_of w4 p = file_of w2 p" for p using simple_call_file [OF 4] f3 by simp
      have new: "file_of w4 ?tmp = Some ?b" "\<forall>p. p \<noteq> ?tmp \<longrightarrow> file_of w4 p = file_of w p"
        using f4 f2 True by simp_all
      show ?thesis
      proof (cases "ok s3 \<and> e4 = None")
        case False
        then show ?thesis using assms 1 None 2 True 3 4 f2(3) f3 f4 ne
          by (auto simp: WriteManifest_def Let_def PosixError_def split: if_splits)
      next
        case T: True
        then have "SyncDirectory (rename_file w4 ?tmp ?m) (db_path db) = (s, w')"
          using assms 1 None 2 True 3 4 by (simp add: WriteManifest_def Let_def)
        note f5 = SyncDirectory_file [OF this]
        have "file_of w' p = (if p = ?m then Some ?b else if p = ?tmp then None else file_of w p)" for p
          using f5 [of p] new by (simp add: rename_file_def file_of_unlink)
        then show ?thesis by simp
      qed
    qed
  qed
  then show "file_of w' ?m = Some ?b \<or> \<not> ok s \<and> file_of w' ?m = file_of w ?m"
    "p \<noteq> ?m \<Longrightarrow> p \<noteq> ?tmp \<Longrightarrow> file_of w' p = file_of w p" by blast+
qed

text \<open>Without failures and interruptions the commit succeeds.\<close>

lemma simple_call_calm_ex: "calm w \<Longrightarrow> \<exists>w'. simple_call w = (None, w') \<and> calm w'"
  using simple_call_calm [of w "fst (simple_call w)" "snd (simple_call w)"] by (cases "simple_call w") simp

lemma snd_simple_call_calm: "calm w \<Longrightarrow> calm (snd (simple_call w))"
  using simple_call_calm_ex by fastforce

lemma db_SyncFd_calm: "calm w \<Longrightarrow> \<exists>w'. db_SyncFd w what = (OK, w') \<and> calm w'"
  using simple_call_calm_ex [of w] by (auto simp: db_SyncFd_def)

lemma SyncDirectory_calm:
  assumes "calm w"
  shows "\<exists>w'. SyncDirectory w path = (OK, w') \<and> calm w'"
proof -
  obtain w1 where 1: "simple_call w = (None, w1)" "calm w1" using simple_call_calm_ex [OF assms] by blast
  obtain w2 where 2: "db_SyncFd w1 (''dir '' @ path) = (OK, w2)" "calm w2" using db_SyncFd_calm [OF 1(2)] by blast
  show ?thesis using 1 2 snd_simple_call_calm [OF 2(2)] by (simp add: SyncDirectory_def)
qed

lemma calm_rename [simp]: "calm (rename_file w p q) = calm w"
  by (simp add: rename_file_def unlink_def calm_def split: option.split)

lemma WriteManifest_calm:
  assumes "calm w" "WriteManifest w db v log nxt seq = (s, w')"
  shows "s = OK \<and> calm w'"
proof -
  let ?tmp = "ManifestPath db @ ''.tmp''" and ?b = "manifest_body v log nxt seq"
  obtain w1 where 1: "simple_call w = (None, w1)" "calm w1" using simple_call_calm_ex [OF assms(1)] by blast
  obtain w2 where 2: "WriteFully (put_file w1 ?tmp []) ?tmp ?b = (OK, w2)" "calm w2"
    using WriteFully_calm [of "put_file w1 ?tmp []" ?tmp ?b] 1(2) by (cases "WriteFully (put_file w1 ?tmp []) ?tmp ?b") simp
  obtain w3 where 3: "db_SyncFd w2 ''manifest'' = (OK, w3)" "calm w3" using db_SyncFd_calm [OF 2(2)] by blast
  obtain w4 where 4: "simple_call (snd (simple_call w3)) = (None, w4)" "calm w4"
    using simple_call_calm_ex [OF snd_simple_call_calm [OF 3(2)]] by blast
  have "SyncDirectory (rename_file w4 ?tmp (ManifestPath db)) (db_path db) = (s, w')"
    using assms(2) 1 2 3 4 by (simp add: WriteManifest_def Let_def ok_def OK_def)
  then show ?thesis using SyncDirectory_calm [of "rename_file w4 ?tmp (ManifestPath db)" "db_path db"] 4(2) by auto
qed

section \<open>The format\<close>

definition meta_bytes :: "nat \<times> FileMetaData \<Rightarrow> bytes" where
  "meta_bytes = (\<lambda>(level, f). fixed32 (of_nat level) @ fixed64 (fm_number f) @ fixed64 (fm_file_size f) @
     fixed32 (of_nat (length (fm_smallest f))) @ fm_smallest f @ fixed32 (of_nat (length (fm_largest f))) @ fm_largest f)"

definition entries :: "Version \<Rightarrow> (nat \<times> FileMetaData) list" where
  "entries v = concat (map (\<lambda>level. map (Pair level) (v ! level)) [0..<length v])"

definition manifest_head :: "Version \<Rightarrow> u64 \<Rightarrow> u64 \<Rightarrow> SequenceNumber \<Rightarrow> bytes" where
  "manifest_head v log nxt seq = fixed64 kManifestMagic @ fixed64 nxt @ fixed64 seq @ fixed64 log @
     fixed32 (of_nat (length (concat v)))"

lemma foldl_body: "foldl (\<lambda>body x. body @ g x) b xs = b @ concat (map g xs)"
  by (induction xs arbitrary: b) simp_all

lemma concat_concat_map: "concat (concat (map g xs)) = concat (map (\<lambda>x. concat (g x)) xs)"
  by (induction xs) simp_all

lemma manifest_body_eq:
  assumes "length v = kNumLevels"
  shows "manifest_body v log nxt seq =
    (let b = manifest_head v log nxt seq @ concat (map meta_bytes (entries v)) in b @ fixed32 (Value b))"
proof -
  have num: "foldl (\<lambda>n level. n + of_nat (length level)) k v = k + of_nat (length (concat v))" for k :: u32
    by (induction v arbitrary: k) (simp_all add: algebra_simps)
  have inner: "foldl (\<lambda>body f. PutLengthPrefixed (PutLengthPrefixed (PutFixed64 (PutFixed64 (PutFixed32 body (of_nat level))
      (fm_number f)) (fm_file_size f)) (fm_smallest f)) (fm_largest f)) b fs = b @ concat (map meta_bytes (map (Pair level) fs))"
    for b level fs
    using foldl_body [of "\<lambda>f. meta_bytes (level, f)" b fs]
    by (simp add: PutFixed32_def PutFixed64_def PutLengthPrefixed_def meta_bytes_def comp_def)
  show ?thesis
    unfolding manifest_body_def Let_def inner foldl_body num
    by (simp add: PutFixed32_def PutFixed64_def manifest_head_def entries_def assms map_concat concat_concat_map comp_def)
qed

lemma length_entries: "length (entries v) = length (concat v)"
proof -
  have "map (\<lambda>l. length (v ! l)) [0..<length v] = map length v" by (rule nth_equalityI) simp_all
  then show ?thesis by (simp add: entries_def length_concat comp_def)
qed

section \<open>Loading\<close>

text \<open>What the loop does once the entries are decoded.\<close>

fun open_all :: "DB \<Rightarrow> renv \<Rightarrow> (nat \<times> FileMetaData) list \<Rightarrow> Version \<Rightarrow> (status + Version) \<times> renv" where
  "open_all db e [] v = (Inr v, e)"
| "open_all db e ((level, f) # fs) v =
     (case table_Open e (TablePath db (fm_number f)) (db_options db) (db_has_cache db) (fm_number f) of
        (Inl s, e) \<Rightarrow> (Inl s, e)
      | (Inr table, e) \<Rightarrow> open_all db e fs (v[level := v ! level @ [f\<lparr>fm_table := table\<rparr>]]))"

definition meta_fits :: "nat \<times> FileMetaData \<Rightarrow> bool" where
  "meta_fits = (\<lambda>(level, f). level < kNumLevels \<and> length (fm_smallest f) < 2 ^ 32 \<and> length (fm_largest f) < 2 ^ 32)"

lemma LoadFiles_open_all:
  "\<forall>m \<in> set fs. meta_fits m \<Longrightarrow>
    LoadFiles (length fs) db e (concat (map meta_bytes fs)) v = open_all db e fs v"
proof (induction fs arbitrary: e v)
  case (Cons m fs)
  obtain level f where m: "m = (level, f)" by force
  have fit: "level < kNumLevels" "length (fm_smallest f) < 2 ^ 32" "length (fm_largest f) < 2 ^ 32"
    using Cons.prems m by (auto simp: meta_fits_def)
  have lv: "unat (of_nat level :: u32) = level" "\<not> (of_nat kNumLevels :: u32) \<le> of_nat level"
    using fit(1) by (simp_all add: kNumLevels_def unat_of_nat_small word_le_nat_alt)
  have dec: "drop 4 (fixed32 a @ xs) = xs" "drop 12 (fixed32 a @ fixed64 b @ xs) = xs"
      "drop 20 (fixed32 a @ fixed64 b @ fixed64 c @ xs) = xs" for a b c xs
    by (simp_all add: fixed32_def fixed64_def)
  have len: "\<not> length (meta_bytes m @ xs) < 20" for xs by (simp add: m meta_bytes_def)
  obtain f' where f': "f' = f" by blast
  have rec: "f\<lparr>fm_table := t\<rparr> = \<lparr>fm_number = fm_number f, fm_file_size = fm_file_size f, fm_smallest = fm_smallest f,
      fm_largest = fm_largest f, fm_table = t\<rparr>" for t by (cases f) simp
  show ?case
    using Cons.IH Cons.prems len [of "concat (map meta_bytes fs)"] fit lv dec
    by (simp add: m meta_bytes_def Let_def rec split: prod.splits sum.splits)
qed simp

text \<open>The metadata of a file without its open table.\<close>

definition meta_of :: "FileMetaData \<Rightarrow> u64 \<times> u64 \<times> bytes \<times> bytes" where
  "meta_of f = (fm_number f, fm_file_size f, fm_smallest f, fm_largest f)"

text \<open>
  \<open>table_on_disk w db f es\<close>: the file of this number is what a finished builder left
  behind for the versions \<open>es\<close>, and the key range recorded for it is theirs.
\<close>

definition table_on_disk :: "world \<Rightarrow> DB \<Rightarrow> FileMetaData \<Rightarrow> version list \<Rightarrow> bool" where
  "table_on_disk w db f es \<longleftrightarrow> es \<noteq> [] \<and> keys_sorted es \<and> table_fits (db_options db) es \<and>
     fm_smallest f = fst (hd es) \<and> fm_largest f = fst (last es) \<and>
     (\<exists>bs c. file_of w (TablePath db (fm_number f)) = Some c \<and> table_file (db_options db) es bs c)"

abbreviation with_table :: "(u64 \<Rightarrow> Table) \<Rightarrow> FileMetaData \<Rightarrow> FileMetaData" where
  "with_table T f \<equiv> f\<lparr>fm_table := T (fm_number f)\<rparr>"

lemma table_Open_on_disk:
  assumes "table_on_disk (re_world e) db f es" "env_ok F e" "F (fm_number f) = Map.empty"
    and "table_Open e (TablePath db (fm_number f)) (db_options db) (db_has_cache db) (fm_number f) = (r, e')"
  shows "(\<exists>tb g. r = Inr tb \<and> file_ok (F(fm_number f := g)) (f\<lparr>fm_table := tb\<rparr>) es \<and>
      tb_file_number tb = fm_number f \<and> env_ok (F(fm_number f := g)) e') \<and> files (re_world e') = files (re_world e) \<or>
    (\<exists>s. r = Inl s \<and> \<not> ok s) \<and> \<not> calm (re_world e)"
proof -
  obtain bs c where d: "file_of (re_world e) (TablePath db (fm_number f)) = Some c" "table_file (db_options db) es bs c"
      "table_fits (db_options db) es" "keys_sorted es" "es \<noteq> []" "fm_smallest f = fst (hd es)" "fm_largest f = fst (last es)"
    using assms(1) by (auto simp: table_on_disk_def)
  note ro = reopen_table_in [OF d(2,1,3,4) assms(2,3,4)]
  show ?thesis
  proof (cases r)
    case (Inr tb)
    then obtain ess where "table_ok (F(fm_number f := block_map 0 bs)) tb ess" "concat ess = es" "tb_file_number tb = fm_number f"
      using ro by auto
    then have "file_ok (F(fm_number f := block_map 0 bs)) (f\<lparr>fm_table := tb\<rparr>) es" using d(5-7) by (auto simp: file_ok_def)
    then show ?thesis using ro Inr \<open>tb_file_number tb = fm_number f\<close> by blast
  qed (use ro in auto)
qed

lemma table_on_disk_files: "files w' = files w \<Longrightarrow> table_on_disk w' db f es = table_on_disk w db f es"
  by (simp add: table_on_disk_def file_of_def)

text \<open>Opening all tables: \<open>C\<close> gives the contents by file number, \<open>T\<close> the tables.\<close>

lemma open_all_holds:
  assumes "\<forall>(l, f) \<in> set fs. l < length v \<and> table_on_disk (re_world e) db f (C (fm_number f)) \<and> F (fm_number f) = Map.empty"
    and "distinct (map (fm_number \<circ> snd) fs)" "env_ok F e" "open_all db e fs v = (x, e')"
  shows "(\<exists>v' F' T. x = Inr v' \<and> env_ok F' e' \<and> (\<forall>k. k \<notin> (fm_number \<circ> snd) ` set fs \<longrightarrow> F' k = F k) \<and> length v' = length v \<and>
      (\<forall>l < length v. v' ! l = v ! l @ map (with_table T) (map snd (filter (\<lambda>(k, f). k = l) fs))) \<and>
      (\<forall>(l, f) \<in> set fs. file_ok F' (with_table T f) (C (fm_number f)) \<and> tb_file_number (T (fm_number f)) = fm_number f)) \<or>
    (\<exists>s. x = Inl s \<and> \<not> ok s) \<and> \<not> calm (re_world e)"
  using assms
proof (induction fs arbitrary: e v F)
  case (Cons m fs)
  obtain level f where m: "m = (level, f)" by force
  let ?n = "fm_number f"
  obtain r e1 where o: "table_Open e (TablePath db ?n) (db_options db) (db_has_cache db) ?n = (r, e1)" by force
  have d: "level < length v" "table_on_disk (re_world e) db f (C ?n)" "F ?n = Map.empty" using Cons.prems(1) m by auto
  from table_Open_on_disk [OF d(2) Cons.prems(3) d(3) o] show ?case
  proof (elim disjE exE conjE)
    fix tb g assume t: "files (re_world e1) = files (re_world e)" "r = Inr tb"
      "file_ok (F(?n := g)) (f\<lparr>fm_table := tb\<rparr>) (C ?n)" "tb_file_number tb = ?n" "env_ok (F(?n := g)) e1"
    let ?v = "v[level := v ! level @ [f\<lparr>fm_table := tb\<rparr>]]"
    have new: "fm_number f' \<noteq> ?n" if "(l, f') \<in> set fs" for l f' using Cons.prems(2) m that by force
    have disk: "\<forall>(l, f) \<in> set fs. l < length ?v \<and> table_on_disk (re_world e1) db f (C (fm_number f)) \<and> (F(?n := g)) (fm_number f) = Map.empty"
      using Cons.prems(1) new table_on_disk_files [OF t(1)] by auto
    have op: "open_all db e1 fs ?v = (x, e')" using Cons.prems(4) m o t(2) by simp
    have "distinct (map (fm_number \<circ> snd) fs)" using Cons.prems(2) by (simp add: comp_def)
    from Cons.IH [OF disk this t(5) op] show ?thesis
    proof (elim disjE exE conjE)
      fix v' F' T
      assume h: "x = Inr v'" "env_ok F' e'" "\<forall>k. k \<notin> (fm_number \<circ> snd) ` set fs \<longrightarrow> F' k = (F(?n := g)) k" "length v' = length ?v"
        "\<forall>l < length ?v. v' ! l = ?v ! l @ map (with_table T) (map snd (filter (\<lambda>(k, f). k = l) fs))"
        "\<forall>(l, f) \<in> set fs. file_ok F' (with_table T f) (C (fm_number f)) \<and> tb_file_number (T (fm_number f)) = fm_number f"
      let ?T = "T(?n := tb)"
      have same: "with_table ?T f' = with_table T f'" if "(l, f') \<in> set fs" for l f' using new [OF that] by simp
      have n: "?n \<notin> (fm_number \<circ> snd) ` set fs" using Cons.prems(2) m by simp
      have "F' ?n = g" using h(3) n by simp
      then have "file_ok F' (with_table ?T f) (C ?n)"
        using file_ok_cong [OF _ t(3), of F'] t(4) by simp
      then have "\<forall>(l, f) \<in> set (m # fs). file_ok F' (with_table ?T f) (C (fm_number f)) \<and> tb_file_number (?T (fm_number f)) = fm_number f"
        using h(6) t(4) m new by auto
      moreover have "v' ! l = v ! l @ map (with_table ?T) (map snd (filter (\<lambda>(k, f). k = l) (m # fs)))" if "l < length v" for l
      proof -
        have "map (with_table ?T) (map snd (filter (\<lambda>(k, f). k = l) fs)) = map (with_table T) (map snd (filter (\<lambda>(k, f). k = l) fs))"
          using new by auto
        then show ?thesis using h(5) that d(1) m by (cases "l = level") (simp_all del: map_map)
      qed
      moreover have "\<forall>k. k \<notin> (fm_number \<circ> snd) ` set (m # fs) \<longrightarrow> F' k = F k" using h(3) m by auto
      ultimately show ?thesis
        using h(1,2,4) by (intro disjI1 exI [of _ v'] exI [of _ F'] exI [of _ ?T]) simp
    next
      fix s assume "\<not> calm (re_world e1)" "x = Inl s" "\<not> ok s"
      then show ?thesis using table_Open_calm [OF _ o] by blast
    qed
  next
    fix s assume "\<not> calm (re_world e)" "r = Inl s" "\<not> ok s"
    then show ?thesis using Cons.prems(4) m o by auto
  qed
qed auto

lemma entries_level: "l < length v \<Longrightarrow> map snd (filter (\<lambda>(k, f). k = l) (entries v)) = v ! l"
proof -
  assume l: "l < length v"
  have "filter (\<lambda>(k, f). k = l) (concat (map (\<lambda>level. map (Pair level) (v ! level)) [0..<n])) =
      (if l < n then map (Pair l) (v ! l) else [])" for n
    by (induction n) (auto simp: filter_empty_conv less_Suc_eq)
  then show ?thesis using l by (simp add: entries_def comp_def)
qed

text \<open>The order the levels are kept in.\<close>

definition levels_sorted :: "Version \<Rightarrow> bool" where
  "levels_sorted v \<longleftrightarrow> v \<noteq> [] \<and> sorted (map (\<lambda>f. - uint (fm_number f)) (hd v)) \<and>
     (\<forall>fs \<in> set (tl v). sorted (map (\<lambda>f. ikey_of (fm_smallest f)) fs))"

lemma sort_levels_id: "levels_sorted v \<Longrightarrow> sort_levels v = v"
  unfolding sort_levels_def levels_sorted_def
  by (cases v) (auto simp: sort_key_id_if_sorted intro!: map_idI)

lemma levels_sorted_meta:
  assumes "levels_sorted v" "map (map meta_of) v' = map (map meta_of) v"
  shows "levels_sorted v'"
proof -
  have *: "map g fs = map h (map meta_of fs)" if "\<And>f. g f = h (meta_of f)" for g :: "FileMetaData \<Rightarrow> 'b" and h fs
    using that by simp
  have n: "map (\<lambda>f. - uint (fm_number f)) fs = map (\<lambda>(n, _). - uint n) (map meta_of fs)" for fs
    by (rule *) (simp add: meta_of_def)
  have k: "map (\<lambda>f. ikey_of (fm_smallest f)) fs = map (\<lambda>(_, _, k, _). ikey_of k) (map meta_of fs)" for fs
    by (rule *) (simp add: meta_of_def)
  obtain fs fss fs' fss' where v: "v = fs # fss" "v' = fs' # fss'" "map meta_of fs' = map meta_of fs"
      "map (map meta_of) fss' = map (map meta_of) fss"
    using assms by (cases v; cases v') (auto simp: levels_sorted_def)
  have "sorted (map (\<lambda>f. ikey_of (fm_smallest f)) gs)" if "gs \<in> set fss'" for gs
  proof -
    have "map meta_of gs \<in> set (map (map meta_of) fss)" unfolding v(4) [symmetric] using that by simp
    then obtain hs where hs: "hs \<in> set fss" "map meta_of gs = map meta_of hs" by auto
    have "sorted (map (\<lambda>f. ikey_of (fm_smallest f)) hs)" using assms(1) v(1) hs(1) by (simp add: levels_sorted_def)
    then show ?thesis unfolding k [of hs] k [of gs] hs(2) .
  qed
  moreover have "sorted (map (\<lambda>f. - uint (fm_number f)) fs')"
  proof -
    have "sorted (map (\<lambda>f. - uint (fm_number f)) fs)" using assms(1) v(1) by (simp add: levels_sorted_def)
    then show ?thesis unfolding n [of fs] n [of fs'] v(3) .
  qed
  ultimately show ?thesis using v(2) by (simp add: levels_sorted_def)
qed

lemma head_decode:
  "DecodeFixed64 (manifest_head v log nxt seq @ xs) = kManifestMagic"
  "DecodeFixed64 (drop 8 (manifest_head v log nxt seq @ xs)) = nxt"
  "DecodeFixed64 (drop 16 (manifest_head v log nxt seq @ xs)) = seq"
  "DecodeFixed64 (drop 24 (manifest_head v log nxt seq @ xs)) = log"
  "DecodeFixed32 (drop 32 (manifest_head v log nxt seq @ xs)) = of_nat (length (concat v))"
  "drop 36 (manifest_head v log nxt seq @ xs) = xs"
  "length (manifest_head v log nxt seq) = 36"
proof -
  have d: "drop 8 (fixed64 a @ ys) = ys" "drop 16 (fixed64 a @ fixed64 b @ ys) = ys"
    "drop 24 (fixed64 a @ fixed64 b @ fixed64 c @ ys) = ys"
    "drop 32 (fixed64 a @ fixed64 b @ fixed64 c @ fixed64 d @ ys) = ys"
    "drop 36 (fixed64 a @ fixed64 b @ fixed64 c @ fixed64 d @ fixed32 n @ ys) = ys" for a b c d n ys
    by (simp_all add: fixed64_def fixed32_def)
  show "DecodeFixed64 (manifest_head v log nxt seq @ xs) = kManifestMagic"
    "DecodeFixed64 (drop 8 (manifest_head v log nxt seq @ xs)) = nxt"
    "DecodeFixed64 (drop 16 (manifest_head v log nxt seq @ xs)) = seq"
    "DecodeFixed64 (drop 24 (manifest_head v log nxt seq @ xs)) = log"
    "DecodeFixed32 (drop 32 (manifest_head v log nxt seq @ xs)) = of_nat (length (concat v))"
    "drop 36 (manifest_head v log nxt seq @ xs) = xs"
    "length (manifest_head v log nxt seq) = 36"
    by (simp_all add: manifest_head_def d)
qed

definition manifest_fits :: "Version \<Rightarrow> bool" where
  "manifest_fits v \<longleftrightarrow> length v = kNumLevels \<and> (\<forall>m \<in> set (entries v). meta_fits m) \<and> length (concat v) < 2 ^ 32"

lemma simple_call_result: "simple_call w = (r, w') \<Longrightarrow> calm w \<Longrightarrow> r = None \<and> calm w'"
  using simple_call_calm by blast

text \<open>The parse of a body that was written, whatever the system calls do.\<close>

lemma LoadManifest_parse:
  assumes f: "file_of (re_world e) (ManifestPath db) = Some (manifest_body v log nxt seq)"
    and fit: "manifest_fits v" and r: "LoadManifest e db = (s, log', e', db')"
  shows "(\<exists>w x e1. files w = files (re_world e) \<and> (calm (re_world e) \<longrightarrow> calm w) \<and>
      open_all (db\<lparr>db_next_file_number := nxt, db_last_sequence := seq\<rparr>) (e\<lparr>re_world := w\<rparr>) (entries v) empty_Version = (x, e1) \<and>
      (s, log', e', db') = (case x of Inl s \<Rightarrow> (s, log, e1, db\<lparr>db_next_file_number := nxt, db_last_sequence := seq\<rparr>)
        | Inr version \<Rightarrow> (OK, log, e1, db\<lparr>db_next_file_number := nxt, db_last_sequence := seq, db_current := sort_levels version\<rparr>))) \<or>
    \<not> ok s \<and> \<not> calm (re_world e)"
proof -
  define b where "b = manifest_head v log nxt seq @ concat (map meta_bytes (entries v))"
  have body: "manifest_body v log nxt seq = b @ fixed32 (Value b)"
    using manifest_body_eq fit by (simp add: b_def manifest_fits_def Let_def)
  obtain r1 w1 where 1: "simple_call (re_world e) = (r1, w1)" by force
  have f1: "file_of w1 (ManifestPath db) = Some (b @ fixed32 (Value b))" using f body simple_call_file [OF 1] by simp
  obtain r2 w2 where 2: "ReadChunks w1 (b @ fixed32 (Value b)) [] = (r2, w2)" by force
  let ?db = "db\<lparr>db_next_file_number := nxt, db_last_sequence := seq\<rparr>" and ?w = "snd (simple_call w2)"
  show ?thesis
  proof (cases "r1 = None \<and> r2 = Inr (b @ fixed32 (Value b))")
    case False
    have "\<not> calm (re_world e)"
    proof
      assume "calm (re_world e)"
      then have "r1 = None" "calm w1" using simple_call_calm [OF _ 1] by auto
      then show False using False 2 ReadChunks_no_failure [OF calm_no_failure, of w1 "b @ fixed32 (Value b)" "[]"] by auto
    qed
    moreover have "\<not> ok s"
    proof (cases r1)
      case (Some m)
      then show ?thesis using r 1 by (auto simp: LoadManifest_def Let_def PosixError_def IOError_def ok_def)
    next
      case None
      then obtain m where "r2 = Inl m" using False 2 ReadChunks_all [of w1 "b @ fixed32 (Value b)" "[]"] by (cases r2) auto
      then show ?thesis using r 1 2 f1 None by (auto simp: LoadManifest_def Let_def PosixError_def IOError_def ok_def)
    qed
    ultimately show ?thesis by blast
  next
    case True
    obtain x e3 where 3: "LoadFiles (length (concat v)) ?db
        (e\<lparr>re_world := ?w\<rparr>) (concat (map meta_bytes (entries v))) empty_Version = (x, e3)"
      by force
    have lb: "36 \<le> length b" using head_decode(7) by (simp add: b_def)
    have n: "unat (of_nat (length (concat v)) :: u32) = length (concat v)"
      using fit by (intro unat_of_nat_small) (simp add: manifest_fits_def del: length_concat)
    have "drop 32 b @ fixed32 (Value b) = drop 32 (b @ fixed32 (Value b))" using lb by simp
    also have "b @ fixed32 (Value b) = manifest_head v log nxt seq @ concat (map meta_bytes (entries v)) @ fixed32 (Value b)"
      by (simp add: b_def)
    finally have num: "DecodeFixed32 (drop 32 b @ fixed32 (Value b)) = of_nat (length (concat v))" by (simp only: head_decode)
    note dec = head_decode(1-4,6) [of v log nxt seq "concat (map meta_bytes (entries v))", folded b_def] num
    have res: "(s, log', e', db') = (case x of Inl s \<Rightarrow> (s, log, e3, ?db) | Inr version \<Rightarrow> (OK, log, e3, ?db\<lparr>db_current := sort_levels version\<rparr>))"
      using r 3 lb n dec True unfolding LoadManifest_def Let_def 1 f1 2
      by (simp add: f1 2 not_less del: length_concat split: sum.splits)
    have op: "open_all ?db (e\<lparr>re_world := ?w\<rparr>) (entries v) empty_Version = (x, e3)"
      using LoadFiles_open_all [of "entries v" ?db] 3 fit by (simp add: manifest_fits_def length_entries del: length_concat)
    have "files ?w = files (re_world e)"
      using simple_call_files [OF 1] ReadChunks_world [OF 2] simple_call_files by (metis prod.collapse)
    moreover have "calm (re_world e) \<longrightarrow> calm ?w"
      using simple_call_calm [OF _ 1] ReadChunks_calm [OF _ 2] snd_simple_call_calm by blast
    ultimately show ?thesis using op res by (intro disjI1 exI [of _ ?w] exI [of _ x] exI [of _ e3]) simp
  qed
qed

text \<open>The restored version.\<close>

lemma entries_files: "set (entries v) = (\<Union>l < length v. Pair l ` set (v ! l))"
  by (auto simp: entries_def)

lemma entries_in: "(l, f) \<in> set (entries v) \<Longrightarrow> l < length v \<and> f \<in> set (concat v)"
  by (auto simp: entries_files intro: nth_mem)

lemma in_entries: "f \<in> set (concat v) \<Longrightarrow> \<exists>l. (l, f) \<in> set (entries v)"
  by (fastforce simp: entries_files in_set_conv_nth)

lemma map_snd_entries: "map snd (entries v) = concat v"
proof -
  have "map ((\<lambda>l. v ! l)) [0..<length v] = v" by (rule map_nth)
  then show ?thesis by (simp add: entries_def map_concat comp_def)
qed

lemma version_holds_with_tables:
  assumes "length v = kNumLevels" "\<forall>f \<in> set (concat v). file_ok F (with_table T f) (C (fm_number f))"
    and "\<forall>fs \<in> set (tl v). user_disjoint (map (C \<circ> fm_number) fs)"
  shows "version_holds F (map (map (with_table T)) v) (map (map (C \<circ> fm_number)) v)"
proof -
  obtain fs fss where v: "v = fs # fss" "length fss = kNumLevels - 1" using assms(1) by (cases v) (auto simp: kNumLevels_def)
  have ok: "list_all2 (file_ok F) (map (with_table T) gs) (map (C \<circ> fm_number) gs)" if "gs \<in> set v" for gs
    using assms(2) that by (auto simp: list_all2_conv_all_nth)
  have "list_all2 (level_ok F) (map (map (with_table T)) fss) (map (map (C \<circ> fm_number)) fss)"
    using ok assms(3) v(1) by (auto simp: list_all2_conv_all_nth level_ok_def)
  then show ?thesis unfolding version_holds_def using ok [of fs] v by auto
qed

lemma LoadManifest_restores:
  assumes f: "file_of (re_world e) (ManifestPath db) = Some (manifest_body v log nxt seq)"
    and fit: "manifest_fits v" and srt: "levels_sorted v" and dist: "distinct (map fm_number (concat v))"
    and disk: "\<forall>f \<in> set (concat v). table_on_disk (re_world e) db f (C (fm_number f)) \<and> F (fm_number f) = Map.empty"
    and dis: "\<forall>fs \<in> set (tl v). user_disjoint (map (C \<circ> fm_number) fs)"
    and e: "env_ok F e" and r: "LoadManifest e db = (s, log', e', db')"
  shows "s = OK \<and> log' = log \<and> (\<exists>F' T. env_ok F' e' \<and>
      db' = db\<lparr>db_next_file_number := nxt, db_last_sequence := seq, db_current := map (map (with_table T)) v\<rparr> \<and>
      version_holds F' (db_current db') (map (map (C \<circ> fm_number)) v) \<and>
      (\<forall>f \<in> set (concat v). tb_file_number (T (fm_number f)) = fm_number f) \<and>
      (\<forall>k. k \<notin> fm_number ` set (concat v) \<longrightarrow> F' k = F k)) \<or>
    \<not> ok s \<and> \<not> calm (re_world e)"
  using LoadManifest_parse [OF f fit r]
proof (elim disjE exE conjE)
  let ?db = "db\<lparr>db_next_file_number := nxt, db_last_sequence := seq\<rparr>"
  fix w x e1
  assume p: "files w = files (re_world e)" "calm (re_world e) \<longrightarrow> calm w"
    "open_all ?db (e\<lparr>re_world := w\<rparr>) (entries v) empty_Version = (x, e1)"
    "(s, log', e', db') = (case x of Inl s \<Rightarrow> (s, log, e1, ?db)
        | Inr version \<Rightarrow> (OK, log, e1, db\<lparr>db_next_file_number := nxt, db_last_sequence := seq, db_current := sort_levels version\<rparr>))"
  have lv: "length v = kNumLevels" "length (empty_Version :: Version) = kNumLevels"
    using fit by (simp_all add: manifest_fits_def empty_Version_def)
  have "table_on_disk (re_world (e\<lparr>re_world := w\<rparr>)) ?db f es = table_on_disk (re_world e) db f es" for f es
    using p(1) by (simp add: table_on_disk_def TablePath_def file_of_def)
  then have disk': "\<forall>(l, f) \<in> set (entries v). l < length (empty_Version :: Version) \<and>
      table_on_disk (re_world (e\<lparr>re_world := w\<rparr>)) ?db f (C (fm_number f)) \<and> F (fm_number f) = Map.empty"
    using disk lv entries_in [of _ _ v] by (auto simp del: set_concat)
  have dist': "distinct (map (fm_number \<circ> snd) (entries v))" using dist map_snd_entries [of v] by (metis map_map)
  have ims: "(fm_number \<circ> snd) ` set (entries v) = fm_number ` set (concat v)"
    using arg_cong [OF map_snd_entries [of v], of set] by (metis image_comp set_map)
  have e0: "env_ok F (e\<lparr>re_world := w\<rparr>)" using e by simp
  from open_all_holds [OF disk' dist' e0 p(3)] show ?thesis
  proof (elim disjE exE conjE)
    fix v' F' T
    assume h: "x = Inr v'" "env_ok F' e1" "\<forall>k. k \<notin> (fm_number \<circ> snd) ` set (entries v) \<longrightarrow> F' k = F k"
      "length v' = length (empty_Version :: Version)"
      "\<forall>l < length (empty_Version :: Version). v' ! l = empty_Version ! l @ map (with_table T) (map snd (filter (\<lambda>(k, f). k = l) (entries v)))"
      "\<forall>(l, f) \<in> set (entries v). file_ok F' (with_table T f) (C (fm_number f)) \<and> tb_file_number (T (fm_number f)) = fm_number f"
    have v': "v' = map (map (with_table T)) v"
    proof (rule nth_equalityI)
      fix l assume "l < length v'"
      then have "l < length v" using h(4) lv by simp
      then show "v' ! l = map (map (with_table T)) v ! l"
        using h(5) lv entries_level [of l v] by (simp add: empty_Version_def del: map_map)
    qed (use h(4) lv in simp)
    have "map (map meta_of) v' = map (map meta_of) v" unfolding v' by (simp add: meta_of_def comp_def)
    then have "sort_levels v' = v'" by (intro sort_levels_id levels_sorted_meta [OF srt])
    then have res: "s = OK" "log' = log" "e' = e1"
        "db' = db\<lparr>db_next_file_number := nxt, db_last_sequence := seq, db_current := map (map (with_table T)) v\<rparr>"
      using p(4) h(1) v' by simp_all
    have ok: "file_ok F' (with_table T f) (C (fm_number f)) \<and> tb_file_number (T (fm_number f)) = fm_number f" if "f \<in> set (concat v)" for f
      using in_entries [OF that] h(6) by blast
    have "version_holds F' (map (map (with_table T)) v) (map (map (C \<circ> fm_number)) v)"
      by (rule version_holds_with_tables [OF lv(1) _ dis]) (use ok in blast)
    then show ?thesis
      using res h(2,3) ok ims by (intro disjI1 conjI exI [of _ F'] exI [of _ T]) (simp_all del: set_concat)
  next
    fix s0 assume "\<not> calm (re_world (e\<lparr>re_world := w\<rparr>))" "x = Inl s0" "\<not> ok s0"
    then show ?thesis using p(2,4) by auto
  qed
qed simp

section \<open>Properties\<close>

text \<open>C33. Writing the manifest is atomic: whatever system call is short, interrupted or fails, the
  file MANIFEST afterwards holds the complete new contents or what it held before, the latter only
  if an error is returned, and no other file but the temporary one changes.\<close>

theorem manifest_commit_is_atomic:
  assumes "WriteManifest w db v log nxt seq = (s, w')"
  shows "(file_of w' (ManifestPath db) = Some (manifest_body v log nxt seq) \<or>
      \<not> ok s \<and> file_of w' (ManifestPath db) = file_of w (ManifestPath db)) \<and>
    (\<forall>p. p \<noteq> ManifestPath db \<and> p \<noteq> ManifestPath db @ ''.tmp'' \<longrightarrow> file_of w' p = file_of w p)"
  using WriteManifest_atomic [OF assms] by blast

theorem manifest_commit_is_atomic_witness:
  "let db = new_DB (\<lambda>i. 0) (\<lambda>i. 0) 0 default_Options ''db'';
       w = \<lparr>files = [(''db/MANIFEST'', [1])], script = [Done, Short 5, Fail ''disk full'']\<rparr>;
       w' = snd (WriteManifest w db empty_Version 3 4 5)
   in file_of w' ''db/MANIFEST'' = Some (manifest_body empty_Version 3 4 5) \<or> file_of w' ''db/MANIFEST'' = Some [1]"
proof -
  let ?db = "new_DB (\<lambda>i. 0) (\<lambda>i. 0) 0 default_Options ''db''"
    and ?w = "\<lparr>files = [(''db/MANIFEST'', [1])], script = [Done, Short 5, Fail ''disk full'']\<rparr> :: world"
  obtain s w' where r: "WriteManifest ?w ?db empty_Version 3 4 5 = (s, w')" by force
  have m: "ManifestPath ?db = ''db/MANIFEST''" by (simp add: ManifestPath_def new_DB_def)
  have "file_of ?w ''db/MANIFEST'' = Some [1]" by (simp add: file_of_def)
  then show ?thesis using manifest_commit_is_atomic [OF r] r m by (auto simp: Let_def)
qed

text \<open>C34. A restart finds what was committed. Let a manifest be committed with an OK status, and let
  the file of each table it lists be what a finished builder wrote for some versions. If it is
  loaded later, by the same or another process, then the oldest live log, the next file number, the
  last sequence number and, level by level and in order, number, size and key range of every file
  are restored, and the tables that were opened hold the same versions. Otherwise an error is
  returned, and that only happens when a system call fails or is interrupted.\<close>

theorem manifest_round_trip:
  assumes "WriteManifest w db0 v log nxt seq = (s0, w')" "ok s0" "manifest_fits v" "levels_sorted v"
    and "distinct (map fm_number (concat v))" "\<forall>fs \<in> set (tl v). user_disjoint (map (C \<circ> fm_number) fs)"
    and "file_of (re_world e) (ManifestPath db) = file_of w' (ManifestPath db)" "ManifestPath db = ManifestPath db0"
    and "\<forall>f \<in> set (concat v). table_on_disk (re_world e) db f (C (fm_number f)) \<and> F (fm_number f) = Map.empty"
    and "env_ok F e" "LoadManifest e db = (s, log', e', db')"
  shows "s = OK \<and> log' = log \<and> db_next_file_number db' = nxt \<and> db_last_sequence db' = seq \<and>
      map (map meta_of) (db_current db') = map (map meta_of) v \<and>
      (\<exists>F'. env_ok F' e' \<and> version_holds F' (db_current db') (map (map (C \<circ> fm_number)) v)) \<or>
    \<not> ok s \<and> \<not> calm (re_world e)"
proof -
  have "file_of (re_world e) (ManifestPath db) = Some (manifest_body v log nxt seq)"
    using WriteManifest_atomic(1) [OF assms(1)] assms(2,7,8) by auto
  from LoadManifest_restores [OF this assms(3-5) assms(9,6,10,11)] show ?thesis
  proof (elim disjE exE conjE)
    fix F' T
    assume h: "s = OK" "log' = log" "env_ok F' e'"
      "db' = db\<lparr>db_next_file_number := nxt, db_last_sequence := seq, db_current := map (map (with_table T)) v\<rparr>"
      "version_holds F' (db_current db') (map (map (C \<circ> fm_number)) v)"
    have "map (map meta_of) (db_current db') = map (map meta_of) v" using h(4) by (simp add: meta_of_def comp_def)
    then show ?thesis using h by auto
  qed simp
qed

text \<open>A table of two versions, written, committed and found again.\<close>

abbreviation sample_versions :: "version list" where
  "sample_versions \<equiv> [(EncodeInternalKey [97] 5 kValue, [1]), (EncodeInternalKey [97] 4 kDeletion, [])]"

lemma sample_versions_ok: "versions_ok sample_versions" "table_fits default_Options sample_versions"
  by (simp_all add: versions_ok_def keys_sorted_def version_ok_def ikey_ok_def type_ok_def kTagSize_def
      kMaxSequenceNumber_def less_ikey_def ikey_of_def PackTag_def kValue_def kDeletion_def
      table_fits_def table_weight_def version_weight_def default_Options_def)

abbreviation sample_file :: FileMetaData where
  "sample_file \<equiv> \<lparr>fm_number = 7, fm_file_size = 100, fm_smallest = fst (hd sample_versions), fm_largest = fst (last sample_versions),
     fm_table = \<lparr>tb_path = [], tb_fd = [], tb_file_size = 0, tb_verify_checksums = True, tb_cached = True,
       tb_file_number = 7, tb_index = [], tb_bloom = []\<rparr>\<rparr>"

theorem manifest_round_trip_witness:
  "let db = new_DB (\<lambda>i. 0) (\<lambda>i. 0) 0 default_Options ''db'';
       v = empty_Version[0 := [sample_file]];
       (s, b, w) = build_table \<lparr>files = [], script = []\<rparr> default_Options (TablePath db 7) sample_versions;
       (s0, w') = WriteManifest w db v 3 8 5;
       (s, log, e', db') = LoadManifest (sample_env\<lparr>re_world := w'\<rparr>) db
   in s = OK \<and> log = 3 \<and> db_next_file_number db' = 8 \<and> db_last_sequence db' = 5 \<and>
     map (map meta_of) (db_current db') = [(7, 100, fst (hd sample_versions), fst (last sample_versions))] # replicate 6 []"
proof -
  let ?db = "new_DB (\<lambda>i. 0) (\<lambda>i. 0) 0 default_Options ''db''" and ?v = "empty_Version[0 := [sample_file]]"
  obtain s b w where b: "build_table \<lparr>files = [], script = []\<rparr> default_Options (TablePath ?db 7) sample_versions = (s, b, w)"
    by (metis prod_cases3)
  have c: "s = OK" "calm w" using build_table_calm [OF _ b] by (simp_all add: calm_def)
  obtain s0 w' where 1: "WriteManifest w ?db ?v 3 8 5 = (s0, w')" by force
  have s0: "s0 = OK" "calm w'" using WriteManifest_calm [OF c(2) 1] by simp_all
  let ?e = "sample_env\<lparr>re_world := w'\<rparr>"
  obtain s1 log e' db' where 2: "LoadManifest ?e ?db = (s1, log, e', db')" by (metis prod_cases4)
  have v: "?v = [sample_file] # replicate 6 []" by (simp add: empty_Version_def kNumLevels_def numeral_eq_Suc)
  have fit: "manifest_fits ?v"
    unfolding v by (auto simp: manifest_fits_def kNumLevels_def entries_files meta_fits_def nth_Cons split: nat.splits)
  have srt: "levels_sorted ?v" "distinct (map fm_number (concat ?v))" "\<forall>fs \<in> set (tl ?v). user_disjoint (map ((\<lambda>n. sample_versions) \<circ> fm_number) fs)"
    unfolding v by (simp_all add: levels_sorted_def user_disjoint_def)
  have p: "TablePath ?db 7 \<noteq> ManifestPath ?db" "TablePath ?db 7 \<noteq> ManifestPath ?db @ ''.tmp''"
    by (simp_all add: TablePath_def ManifestPath_def new_DB_def NumberedFile_text)
  obtain bs d where f: "file_of w (TablePath ?db 7) = Some d" "table_file default_Options sample_versions bs d"
    using build_table_file [OF b] c by auto
  have "file_of (re_world ?e) (TablePath ?db 7) = Some d" using WriteManifest_atomic(2) [OF 1 p] f(1) by simp
  then have "table_on_disk (re_world ?e) ?db sample_file sample_versions"
    using f(2) sample_versions_ok by (auto simp: table_on_disk_def new_DB_def versions_ok_def)
  then have disk: "\<forall>f \<in> set (concat ?v). table_on_disk (re_world ?e) ?db f sample_versions \<and> (\<lambda>_ _. None) (fm_number f) = Map.empty"
    unfolding v by simp
  have env: "env_ok (\<lambda>_ _. None) ?e" using cache_new [of 100 2] by (simp add: lru.coherent_def)
  have "ok s0" using s0 by (simp add: ok_def OK_def)
  from manifest_round_trip [OF 1 this fit srt _ refl disk env 2] s0(2)
  have "s1 = OK \<and> log = 3 \<and> db_next_file_number db' = 8 \<and> db_last_sequence db' = 5 \<and>
      map (map meta_of) (db_current db') = map (map meta_of) ?v" by simp
  then show ?thesis using b 1 2 unfolding v by (simp add: Let_def meta_of_def)
qed

text \<open>C35. The size check of LoadManifest is too weak: the header takes 36 bytes and the checksum 4,
  but a file of 36 bytes is accepted. If its first 32 bytes start with the magic number and the last
  4 are their checksum, the number of files is then read from the checksum and the remaining view is
  cut by more bytes than it has.\<close>

theorem short_manifest_read_past_end:
  assumes "calm (re_world e)" "length b = 32" "DecodeFixed64 b = kManifestMagic"
    and "file_of (re_world e) (ManifestPath db) = Some (b @ fixed32 (Value b))"
    and "LoadManifest e db = (s, log, e', db')"
  shows "re_overrun e' \<and> s \<noteq> Corruption ''manifest too short''"
proof -
  obtain w1 where 1: "simple_call (re_world e) = (None, w1)" "calm w1"
    using simple_call_calm_ex [OF assms(1)] by blast
  obtain w2 where 2: "ReadChunks w1 (b @ fixed32 (Value b)) [] = (Inr (b @ fixed32 (Value b)), w2)"
    using ReadChunks_no_failure [OF calm_no_failure [OF 1(2)], of "b @ fixed32 (Value b)" "[]"] by auto
  have f1: "file_of w1 (ManifestPath db) = Some (b @ fixed32 (Value b))" using assms(4) simple_call_file [OF 1(1)] by simp
  show ?thesis
    using assms(2,3,5) by (auto simp: LoadManifest_def Let_def 1(1) f1 2 Corruption_def split: if_splits)
qed

theorem short_manifest_read_past_end_witness:
  "let b = fixed64 kManifestMagic @ replicate 24 0;
       db = new_DB (\<lambda>i. 0) (\<lambda>i. 0) 0 default_Options ''db'';
       (s, log, e', db') = LoadManifest (sample_env\<lparr>re_world := \<lparr>files = [(''db/MANIFEST'', b @ fixed32 (Value b))], script = []\<rparr>\<rparr>) db
   in re_overrun e' \<and> s \<noteq> Corruption ''manifest too short''"
proof -
  let ?b = "fixed64 kManifestMagic @ replicate 24 0" and ?db = "new_DB (\<lambda>i. 0) (\<lambda>i. 0) 0 default_Options ''db''"
  let ?e = "sample_env\<lparr>re_world := \<lparr>files = [(''db/MANIFEST'', ?b @ fixed32 (Value ?b))], script = []\<rparr>\<rparr>"
  obtain s log e' db' where r: "LoadManifest ?e ?db = (s, log, e', db')" by (metis prod_cases4)
  have "calm (re_world ?e)" "length ?b = 32" "DecodeFixed64 ?b = kManifestMagic"
    "file_of (re_world ?e) (ManifestPath ?db) = Some (?b @ fixed32 (Value ?b))"
    by (simp_all add: calm_def ManifestPath_def new_DB_def file_of_def)
  from short_manifest_read_past_end [OF this r] r show ?thesis by (simp add: Let_def)
qed

end
