(* ===== verification/Spec2Isabelle.thy ===== *)
theory Spec2Isabelle
  imports Crc32c Bloom Block Block_Cache Arena Wal Mem_Table Merging_Iterator Manifest
begin

text \<open>
  Verification of embedded-lsm-kv, a log-structured merge-tree key-value store in
  C++17 (\<open>src/include/lsm\<close> and \<open>src/src\<close>).

  \<^bold>\<open>The program.\<close> A write is encoded as a batch, appended to the write-ahead log and
  inserted into a memtable, a skip list in an arena. A full memtable is written to
  a sorted table file (SSTable): prefix-compressed data blocks, a Bloom filter, an
  index and a footer, each block with a CRC-32C. Reads look at the memtables and
  then at the tables, whose blocks go through a sharded LRU cache. Every stored
  entry is a version: an internal key (user key, sequence number, type) and a
  value; the order on internal keys puts newer versions of a key first.

  \<^bold>\<open>Conventions.\<close> Byte strings are lists of 8-bit words, fixed-width integers are
  words, Status is a record with the code's constructors, and a fallible operation
  returns a status or a sum. Operations on an object take its record and return it
  updated. The file system is a \<open>world\<close> (theory Posix): the files by path and a
  script that says what the next system calls will do, so that a theorem for all
  worlds holds for every pattern of short writes, interruptions and failures.
  Accesses outside a buffer and loops that do not end are recorded in ghost fields
  (\<open>r_overrun\<close>, \<open>re_overrun\<close>, \<open>mi_hung\<close>) or are \<open>None\<close>.

  \<^bold>\<open>Theories.\<close>
  \<^item> Prelude: byte and word types, fact collections, binary search.
  \<^item> Status (\<open>status.h\<close>), Coding (\<open>coding.h\<close>: fixed-width and varint encodings,
    round trips), Internal\_Key (\<open>internal_key.h\<close>: the key order and what a lookup
    key separates), Options (\<open>options.h\<close>).
  \<^item> Crc32c (\<open>crc32c.cpp\<close>): the slicing-by-8 and the hardware path equal the
    bit-at-a-time CRC, and damage of up to four bytes is detected.
  \<^item> Write\_Batch (\<open>write_batch.cpp\<close>), Posix (the write and read loops), Wal
    (\<open>wal.cpp\<close>): a log cut anywhere replays exactly its complete batches.
  \<^item> Bloom (\<open>bloom.cpp\<close>): no false negatives.
  \<^item> Versions and Cursor: the specification. \<open>resolves\<close> says what a lookup at a
    sequence number may answer; the locale \<open>cursor\<close> is the contract of
    \<open>iterator.h\<close>, interpreted for blocks, memtables, tables, levels and merges.
  \<^item> Block (\<open>block.cpp\<close>), Block\_Cache (\<open>cache.cpp\<close>, contract \<open>block_store\<close>),
    Table\_Reader and Table\_Builder (\<open>sstable.cpp\<close>): a table that was built,
    finished and reopened answers lookups and scans with the versions it was built
    from, or reports a failed read.
  \<^item> Arena (\<open>arena.cpp\<close>), Skip\_List (\<open>skiplist.h\<close>, contract \<open>comparator\<close>),
    Mem\_Table (\<open>memtable.cpp\<close>): inserting is insertion into a sorted list, lookups
    end and find the newest visible version.
  \<^item> Version\_Set, Level\_Iterator (\<open>db.h\<close>, \<open>db.cpp\<close>): file metadata and the
    concatenating cursor over a level. Binary\_Heap and Merging\_Iterator
    (\<open>iterator.cpp\<close>): a merge is the stable sort of its children's entries.
  \<^item> Db\_Iter (\<open>DBIter\<close> of \<open>db.cpp\<close>): a scan yields the live rows of a snapshot.
  \<^item> File\_Names (\<open>NumberedFile\<close>, \<open>ParseFileName\<close>), Db\_State (the fields of \<open>DB\<close>,
    paths, snapshots, statistics, and the invariant \<open>db_ok\<close>), Db\_Read (\<open>DB::Get\<close>,
    \<open>DB::NewIterator\<close>): under the invariant a lookup returns the newest visible
    version over memtables and levels, and lookup and scan agree.
  \<^item> Manifest (\<open>WriteManifest\<close>, \<open>LoadManifest\<close>): the commit is atomic, and loading
    restores the version with the contents of its tables.

  \<^bold>\<open>Bounds.\<close> The formats hold keys and values below 4 GiB, blocks below 4 GiB and
  sequence numbers of 56 bits; theorems state these limits as hypotheses. Loops are
  total functions with termination proofs; \<open>drain\<close>, the loop over a cursor, takes a
  bound on its rounds, and the number of entries left is shown to be enough.

  \<^bold>\<open>Not modelled.\<close> In \<open>db.cpp\<close>: opening and recovering a database (\<open>Open\<close>,
  \<open>Recover\<close>), the write path (\<open>Write\<close>, \<open>Put\<close>, \<open>Delete\<close>, group commit, the sync
  policies, \<open>MakeRoomForWrite\<close>, \<open>FlushMemTable\<close>), the flush, the choice and the run
  of compactions, \<open>CommitVersion\<close>, \<open>RemoveObsoleteFiles\<close> and the background thread.
  So nothing here shows that these operations keep \<open>db_ok\<close>; the theorems on reads
  assume it. Locks are not modelled either: an operation is one step of one thread,
  and memory ordering between the skip list's writer and its readers is left out.
  Allocation failure is not modelled. \<open>r_overrun\<close> of a block reader is not copied
  into \<open>re_overrun\<close> by a table lookup. The two floating-point ratios of \<open>DbStats\<close>
  and \<open>HitRate\<close> of the cache are left out. The benchmark and the crash tools
  (\<open>src/bench\<close>, \<open>src/tools\<close>) are clients of the engine and not part of it.
\<close>

end
